theory Spec2Isabelle
  imports Main "HOL-Library.Word" "HOL-Library.Signed_Division"
begin

unbundle bit_operations_syntax

section \<open>Time values\<close>

text \<open>
  \<^verbatim>\<open>struct timeval\<close> and the \<^verbatim>\<open>timerisset\<close>, \<^verbatim>\<open>timercmp\<close> and \<^verbatim>\<open>timersub\<close> macros of
  \<^verbatim>\<open><sys/time.h>\<close>, which both event managers use. The fields are signed 64-bit
  integers on the platforms of the two backends; they are kept as mathematical integers
  here and every narrowing conversion of the source is written out where it happens.
\<close>

record timeval =
  tv_sec :: int
  tv_usec :: int

definition timerisset :: "timeval \<Rightarrow> bool" where
  "timerisset tvp = (tv_sec tvp \<noteq> 0 \<or> tv_usec tvp \<noteq> 0)"

text \<open>\<^verbatim>\<open>timercmp(a, b, <)\<close>: seconds decide, microseconds break the tie.\<close>

definition timercmp_lt :: "timeval \<Rightarrow> timeval \<Rightarrow> bool" where
  "timercmp_lt a b =
     (if tv_sec a = tv_sec b then tv_usec a < tv_usec b else tv_sec a < tv_sec b)"

definition timersub :: "timeval \<Rightarrow> timeval \<Rightarrow> timeval" where
  "timersub a b =
     (let sec = tv_sec a - tv_sec b;
          usec = tv_usec a - tv_usec b
      in if usec < 0 then \<lparr>tv_sec = sec - 1, tv_usec = usec + 1000000\<rparr>
         else \<lparr>tv_sec = sec, tv_usec = usec\<rparr>)"

section \<open>The data of an event manager\<close>

text \<open>
  Objects live in a store: an address is a natural number, a pointer is an address or
  \<open>None\<close> for \<^verbatim>\<open>NULL\<close>. A function pointer is the address of host code and a
  \<^verbatim>\<open>void *\<close> cookie is an opaque number. Each object's \<^verbatim>\<open>em\<close> back pointer is left out:
  the model holds one event manager.
\<close>

type_synonym addr = nat
type_synonym ptr = "addr option"

text \<open>\<^verbatim>\<open>struct MHD_Timeout\<close>, the same in both backends.\<close>

record MHD_Timeout =
  t_callback :: nat
  t_mhd_data :: nat
  trigger_time :: timeval
  t_next :: ptr
  previous :: ptr

text \<open>
  \<^verbatim>\<open>struct MHD_Watch\<close>: the fields both backends share, extended by the epoll backend
  with its event mask and by the kqueue backend with its two filter bits.
\<close>

record MHD_Watch =
  fd :: int
  callback :: nat
  mhd_data :: nat
  deleted :: bool
  "next" :: ptr

record epoll_Watch = MHD_Watch +
  events :: "32 word"

record kqueue_Watch = MHD_Watch +
  enable_read :: bool
  enable_write :: bool

text \<open>
  The interest set \<^verbatim>\<open>MHD_WatchEvent\<close> of \<^verbatim>\<open>microhttpd.h\<close> is a bit set of the two
  flags; the header is not among the sources, so the set of flags stands for the bits and
  \<^verbatim>\<open>events & MHD_WATCH_IN\<close> is membership.
\<close>

datatype MHD_WatchEvent = MHD_WATCH_IN | MHD_WATCH_OUT

text \<open>The calls a host can make: the six entries of the interface, and
  \<^verbatim>\<open>event_manager_stop\<close>.\<close>

datatype api_call =
    Watch_new int "MHD_WatchEvent set" nat nat
  | Watch_update addr "MHD_WatchEvent set"
  | Watch_free addr
  | Timeout_new timeval nat nat
  | Timeout_update addr "timeval option"
  | Timeout_free addr
  | Stop

text \<open>What an observer of a run sees, in order: the calls the host makes, the callbacks
  the event manager invokes with their arguments, and the time allowed to every wait
  (milliseconds for \<^verbatim>\<open>epoll_wait\<close>, seconds and nanoseconds for \<^verbatim>\<open>kevent\<close>).\<close>

datatype action =
    Call api_call
  | Watch_callback addr int MHD_WatchEvent nat
  | Timeout_callback addr nat
  | Epoll_wait int
  | Kevent_wait int int

text \<open>
  \<^verbatim>\<open>struct EventManager\<close> (\<open>backend_fd\<close> is \<^verbatim>\<open>epoll_fd\<close> in the epoll backend and
  \<^verbatim>\<open>kqueue_fd\<close> in the kqueue backend), together with what the C program keeps outside
  the struct: the two stores, the allocator, the kernel object behind the descriptor
  (\<open>kernel\<close>), the text written by \<^verbatim>\<open>printf\<close> and the observed actions.
\<close>

record ('w, 'k) world =
  backend_fd :: int
  timeout_head :: ptr
  timeout_tail :: ptr
  orphaned_watches :: ptr
  stop :: bool
  watch_heap :: "addr \<rightharpoonup> 'w"
  timeout_heap :: "addr \<rightharpoonup> MHD_Timeout"
  brk :: addr
  malloc_faults :: "bool list"
  kernel :: 'k
  out :: "string list"
  trace :: "action list"

text \<open>Dereferencing a pointer that is \<^verbatim>\<open>NULL\<close> or not allocated is undefined behaviour.\<close>

datatype fault = Wild_pointer

section \<open>The allocator\<close>

text \<open>
  \<^verbatim>\<open>malloc\<close> returns \<^verbatim>\<open>NULL\<close> when the environment says so (the head of
  \<open>malloc_faults\<close>) and the next unused address otherwise.
\<close>

definition malloc :: "('w, 'k) world \<Rightarrow> ptr \<times> ('w, 'k) world" where
  "malloc s =
     (let fails = (case malloc_faults s of [] \<Rightarrow> False | b # _ \<Rightarrow> b);
          s1 = s\<lparr>malloc_faults := tl (malloc_faults s)\<rparr>
      in if fails then (None, s1) else (Some (brk s), s1\<lparr>brk := Suc (brk s)\<rparr>))"

definition printf :: "string \<Rightarrow> ('w, 'k) world \<Rightarrow> ('w, 'k) world" where
  "printf msg s = s\<lparr>out := out s @ [msg]\<rparr>"

section \<open>The timeout list\<close>

text \<open>\<^verbatim>\<open>timeout_new\<close>, \<^verbatim>\<open>timeout_free\<close> and \<^verbatim>\<open>timeout_update\<close> are the same text in
  both backends.\<close>

definition timeout_new ::
  "timeval \<Rightarrow> nat \<Rightarrow> nat \<Rightarrow> ('w, 'k) world \<Rightarrow> ptr \<times> ('w, 'k) world" where
  "timeout_new tv cb data s =
     (case malloc s of
        (None, s1) \<Rightarrow> (None, s1)
      | (Some timeout, s1) \<Rightarrow>
          (if timeout_head s1 = None then
             (Some timeout,
              s1\<lparr>timeout_head := Some timeout,
                 timeout_tail := Some timeout,
                 timeout_heap := (timeout_heap s1)(timeout \<mapsto>
                   \<lparr>t_callback = cb, t_mhd_data = data, trigger_time = tv,
                    t_next = None, previous = None\<rparr>)\<rparr>)
           else
             (Some timeout,
              s1\<lparr>timeout_tail := Some timeout,
                 timeout_heap := (timeout_heap s1)(timeout \<mapsto>
                   \<lparr>t_callback = cb, t_mhd_data = data, trigger_time = tv,
                    t_next = None, previous = timeout_tail s1\<rparr>)\<rparr>)))"

text \<open>Writing a field through a pointer: undefined when the pointer is wild.\<close>

definition set_previous ::
  "ptr \<Rightarrow> ptr \<Rightarrow> ('w, 'k) world \<Rightarrow> fault + ('w, 'k) world" where
  "set_previous p v s =
     (case p of
        None \<Rightarrow> Inl Wild_pointer
      | Some a \<Rightarrow>
          (case timeout_heap s a of
             None \<Rightarrow> Inl Wild_pointer
           | Some t \<Rightarrow> Inr (s\<lparr>timeout_heap := (timeout_heap s)(a \<mapsto> t\<lparr>previous := v\<rparr>)\<rparr>)))"

definition set_next ::
  "ptr \<Rightarrow> ptr \<Rightarrow> ('w, 'k) world \<Rightarrow> fault + ('w, 'k) world" where
  "set_next p v s =
     (case p of
        None \<Rightarrow> Inl Wild_pointer
      | Some a \<Rightarrow>
          (case timeout_heap s a of
             None \<Rightarrow> Inl Wild_pointer
           | Some t \<Rightarrow> Inr (s\<lparr>timeout_heap := (timeout_heap s)(a \<mapsto> t\<lparr>t_next := v\<rparr>)\<rparr>)))"

definition free_timeout :: "addr \<Rightarrow> ('w, 'k) world \<Rightarrow> ('w, 'k) world" where
  "free_timeout a s = s\<lparr>timeout_heap := (timeout_heap s)(a := None)\<rparr>"

definition timeout_free :: "addr \<Rightarrow> ('w, 'k) world \<Rightarrow> fault + ('w, 'k) world" where
  "timeout_free timeout s =
     (case timeout_heap s timeout of
        None \<Rightarrow> Inl Wild_pointer
      | Some t \<Rightarrow>
          (if timeout_head s = Some timeout \<and> timeout_tail s = Some timeout then
             Inr (free_timeout timeout (s\<lparr>timeout_head := None, timeout_tail := None\<rparr>))
           else if timeout_head s = Some timeout then
             (case set_previous (t_next t) None (s\<lparr>timeout_head := t_next t\<rparr>) of
                Inl e \<Rightarrow> Inl e
              | Inr s1 \<Rightarrow> Inr (free_timeout timeout s1))
           else if timeout_tail s = Some timeout then
             (case set_next (previous t) None s of
                Inl e \<Rightarrow> Inl e
              | Inr s1 \<Rightarrow> Inr (free_timeout timeout (s1\<lparr>timeout_tail := previous t\<rparr>)))
           else
             (case set_next (previous t) (t_next t) s of
                Inl e \<Rightarrow> Inl e
              | Inr s1 \<Rightarrow>
                  (case set_previous (t_next t) (previous t) s1 of
                     Inl e \<Rightarrow> Inl e
                   | Inr s2 \<Rightarrow> Inr (free_timeout timeout s2)))))"

definition timeout_update ::
  "addr \<Rightarrow> timeval option \<Rightarrow> ('w, 'k) world \<Rightarrow> fault + ('w, 'k) world" where
  "timeout_update timeout tv s =
     (case timeout_heap s timeout of
        None \<Rightarrow> Inl Wild_pointer
      | Some t \<Rightarrow>
          (case tv of
             Some v \<Rightarrow>
               Inr (s\<lparr>timeout_heap := (timeout_heap s)(timeout \<mapsto> t\<lparr>trigger_time := v\<rparr>)\<rparr>)
           | None \<Rightarrow>
               Inr (s\<lparr>timeout_heap := (timeout_heap s)(timeout \<mapsto>
                      t\<lparr>trigger_time := \<lparr>tv_sec = 0, tv_usec = 0\<rparr>\<rparr>)\<rparr>)))"

section \<open>Calls of the host\<close>

text \<open>
  A callback is host code: it may call any entry of the interface, and
  \<^verbatim>\<open>event_manager_stop\<close>, any number of times. The host is a table from function
  addresses to such code; the code is given the arguments of the callback and the state it
  runs in, and answers with the calls it makes. \<open>host_calls\<close> makes them in order, noting
  each, and stops at the first one with undefined behaviour.
\<close>

record ('w, 'k) host =
  watch_cb :: "nat \<Rightarrow> addr \<Rightarrow> int \<Rightarrow> MHD_WatchEvent \<Rightarrow> nat \<Rightarrow> ('w, 'k) world \<Rightarrow> api_call list"
  timeout_cb :: "nat \<Rightarrow> addr \<Rightarrow> nat \<Rightarrow> ('w, 'k) world \<Rightarrow> api_call list"

fun host_calls ::
  "(api_call \<Rightarrow> ('w, 'k) world \<Rightarrow> fault + ('w, 'k) world) \<Rightarrow> api_call list \<Rightarrow>
   ('w, 'k) world \<Rightarrow> fault + ('w, 'k) world" where
  "host_calls X [] s = Inr s"
| "host_calls X (c # cs) s =
     (case X c (s\<lparr>trace := trace s @ [Call c]\<rparr>) of
        Inl e \<Rightarrow> Inl e
      | Inr s1 \<Rightarrow> host_calls X cs s1)"

section \<open>Watches, shared by the backends\<close>

text \<open>The end of \<^verbatim>\<open>watch_free\<close>, the same in both backends: set the tombstone and push
  the watch on the list of orphans. With an empty list the watch's \<^verbatim>\<open>next\<close> is not
  written.\<close>

definition orphan ::
  "addr \<Rightarrow> ('a MHD_Watch_scheme, 'k) world \<Rightarrow> fault + ('a MHD_Watch_scheme, 'k) world" where
  "orphan watch s =
     (case watch_heap s watch of
        None \<Rightarrow> Inl Wild_pointer
      | Some w \<Rightarrow>
          (if orphaned_watches s \<noteq> None then
             Inr (s\<lparr>watch_heap := (watch_heap s)(watch \<mapsto>
                      w\<lparr>deleted := True, next := orphaned_watches s\<rparr>),
                    orphaned_watches := Some watch\<rparr>)
           else
             Inr (s\<lparr>watch_heap := (watch_heap s)(watch \<mapsto> w\<lparr>deleted := True\<rparr>),
                    orphaned_watches := Some watch\<rparr>)))"

text \<open>\<^verbatim>\<open>watch->callback (watch, watch->fd, flag, watch->mhd_data)\<close>.\<close>

definition call_watch_callback ::
  "(api_call \<Rightarrow> ('a MHD_Watch_scheme, 'k) world \<Rightarrow> fault + ('a MHD_Watch_scheme, 'k) world) \<Rightarrow>
   ('a MHD_Watch_scheme, 'k) host \<Rightarrow> addr \<Rightarrow> 'a MHD_Watch_scheme \<Rightarrow> MHD_WatchEvent \<Rightarrow>
   ('a MHD_Watch_scheme, 'k) world \<Rightarrow> fault + ('a MHD_Watch_scheme, 'k) world" where
  "call_watch_callback X H watch w flag s =
     (let s1 = s\<lparr>trace := trace s @ [Watch_callback watch (fd w) flag (mhd_data w)]\<rparr>
      in host_calls X (watch_cb H (callback w) watch (fd w) flag (mhd_data w) s1) s1)"

text \<open>\<^verbatim>\<open>if (!watch->deleted && cond) watch->callback (...)\<close>: the watch is read
  whatever the condition.\<close>

definition dispatch_if ::
  "(api_call \<Rightarrow> ('a MHD_Watch_scheme, 'k) world \<Rightarrow> fault + ('a MHD_Watch_scheme, 'k) world) \<Rightarrow>
   ('a MHD_Watch_scheme, 'k) host \<Rightarrow> ptr \<Rightarrow> bool \<Rightarrow> MHD_WatchEvent \<Rightarrow>
   ('a MHD_Watch_scheme, 'k) world \<Rightarrow> fault + ('a MHD_Watch_scheme, 'k) world" where
  "dispatch_if X H watch cond flag s =
     (case watch of
        None \<Rightarrow> Inl Wild_pointer
      | Some a \<Rightarrow>
          (case watch_heap s a of
             None \<Rightarrow> Inl Wild_pointer
           | Some w \<Rightarrow>
               if \<not> deleted w \<and> cond then call_watch_callback X H a w flag s else Inr s))"

section \<open>The epoll backend\<close>

text \<open>
  The kernel's side of an epoll descriptor, which the repository reaches through
  \<^verbatim>\<open>epoll_ctl\<close>, \<^verbatim>\<open>epoll_wait\<close> and \<^verbatim>\<open>close\<close>: the interest list (descriptor to
  registered event), whether the descriptor has been closed, and the calls the
  environment makes fail (\<open>ctl_faults\<close>, one entry per call). \<^verbatim>\<open>epoll_ctl\<close> fails without
  effect on a bad descriptor, when adding a descriptor that is registered, and when
  changing or deleting one that is not.
\<close>

record epoll_event =
  ev_events :: "32 word"
  data_ptr :: ptr

record epoll_kernel =
  ep_closed :: bool
  interest :: "int \<rightharpoonup> epoll_event"
  ctl_faults :: "bool list"

datatype epoll_op = EPOLL_CTL_ADD | EPOLL_CTL_DEL | EPOLL_CTL_MOD

definition EPOLLIN :: "32 word" where "EPOLLIN = 1"
definition EPOLLOUT :: "32 word" where "EPOLLOUT = 4"
definition EINTR :: int where "EINTR = 4"

definition epoll_ctl ::
  "int \<Rightarrow> epoll_op \<Rightarrow> int \<Rightarrow> epoll_event \<Rightarrow> epoll_kernel \<Rightarrow> int \<times> epoll_kernel" where
  "epoll_ctl epfd op f event k =
     (let injected = (case ctl_faults k of [] \<Rightarrow> False | b # _ \<Rightarrow> b);
          k1 = k\<lparr>ctl_faults := tl (ctl_faults k)\<rparr>
      in if injected \<or> epfd < 0 \<or> ep_closed k then (- 1, k1)
         else (case op of
                 EPOLL_CTL_ADD \<Rightarrow>
                   if interest k f \<noteq> None then (- 1, k1)
                   else (0, k1\<lparr>interest := (interest k)(f \<mapsto> event)\<rparr>)
               | EPOLL_CTL_DEL \<Rightarrow>
                   if interest k f = None then (- 1, k1)
                   else (0, k1\<lparr>interest := (interest k)(f := None)\<rparr>)
               | EPOLL_CTL_MOD \<Rightarrow>
                   if interest k f = None then (- 1, k1)
                   else (0, k1\<lparr>interest := (interest k)(f \<mapsto> event)\<rparr>)))"

type_synonym epoll_world = "(epoll_Watch, epoll_kernel) world"

text \<open>The event mask \<^verbatim>\<open>watch_update\<close> computes from the interest set.\<close>

definition epoll_events_of :: "MHD_WatchEvent set \<Rightarrow> 32 word" where
  "epoll_events_of evs =
     (if MHD_WATCH_IN \<in> evs then EPOLLIN else 0) OR
     (if MHD_WATCH_OUT \<in> evs then EPOLLOUT else 0)"

definition epoll_watch_update ::
  "addr \<Rightarrow> MHD_WatchEvent set \<Rightarrow> epoll_world \<Rightarrow> fault + epoll_world" where
  "epoll_watch_update watch evs s =
     (case watch_heap s watch of
        None \<Rightarrow> Inl Wild_pointer
      | Some w \<Rightarrow>
          (let event = \<lparr>ev_events = epoll_events_of evs, data_ptr = Some watch\<rparr>
           in if ev_events event = events w then Inr s
              else
                (let op = (if 0 = events w \<and> ev_events event \<noteq> 0 then EPOLL_CTL_ADD
                           else if events w \<noteq> 0 \<and> 0 = ev_events event then EPOLL_CTL_DEL
                           else EPOLL_CTL_MOD);
                     (r, k) = epoll_ctl (backend_fd s) op (fd w) event (kernel s);
                     s1 = s\<lparr>kernel := k\<rparr>;
                     s2 = (if r < 0 then printf ''epoll_ctl failed'' s1 else s1)
                 in Inr (s2\<lparr>watch_heap := (watch_heap s2)(watch \<mapsto>
                               w\<lparr>events := ev_events event\<rparr>)\<rparr>))))"

definition epoll_watch_new ::
  "int \<Rightarrow> MHD_WatchEvent set \<Rightarrow> nat \<Rightarrow> nat \<Rightarrow> epoll_world \<Rightarrow> fault + ptr \<times> epoll_world" where
  "epoll_watch_new f evs cb data s =
     (case malloc s of
        (None, s1) \<Rightarrow> Inr (None, s1)
      | (Some watch, s1) \<Rightarrow>
          (let s2 = s1\<lparr>watch_heap := (watch_heap s1)(watch \<mapsto>
                        \<lparr>fd = f, callback = cb, mhd_data = data, deleted = False,
                         next = None, events = 0\<rparr>)\<rparr>
           in case epoll_watch_update watch evs s2 of
                Inl e \<Rightarrow> Inl e
              | Inr s3 \<Rightarrow> Inr (Some watch, s3)))"

text \<open>The event handed to \<^verbatim>\<open>EPOLL_CTL_DEL\<close> is not initialised in the source and the
  kernel ignores it.\<close>

definition epoll_watch_free :: "addr \<Rightarrow> epoll_world \<Rightarrow> fault + epoll_world" where
  "epoll_watch_free watch s =
     (case watch_heap s watch of
        None \<Rightarrow> Inl Wild_pointer
      | Some w \<Rightarrow>
          (let s1 = (if events w \<noteq> 0 then
                       (let (r, k) = epoll_ctl (backend_fd s) EPOLL_CTL_DEL (fd w)
                                       \<lparr>ev_events = 0, data_ptr = None\<rparr> (kernel s);
                            s0 = s\<lparr>kernel := k\<rparr>
                        in if r < 0 then printf ''epoll_ctl failed'' s0 else s0)
                     else s)
           in orphan watch s1))"

fun epoll_api :: "api_call \<Rightarrow> epoll_world \<Rightarrow> fault + epoll_world" where
  "epoll_api (Watch_new f evs cb data) s =
     (case epoll_watch_new f evs cb data s of Inl e \<Rightarrow> Inl e | Inr (p, s1) \<Rightarrow> Inr s1)"
| "epoll_api (Watch_update watch evs) s = epoll_watch_update watch evs s"
| "epoll_api (Watch_free watch) s = epoll_watch_free watch s"
| "epoll_api (Timeout_new tv cb data) s = Inr (snd (timeout_new tv cb data s))"
| "epoll_api (Timeout_update timeout tv) s = timeout_update timeout tv s"
| "epoll_api (Timeout_free timeout) s = timeout_free timeout s"
| "epoll_api Stop s = Inr (s\<lparr>stop := True\<rparr>)"

section \<open>The kqueue backend\<close>

text \<open>
  The kernel's side of a kqueue descriptor: the registered filters (descriptor and filter
  to the cookie), whether the descriptor has been closed, and the changes the environment
  makes fail (\<open>kev_faults\<close>, one entry per change). \<^verbatim>\<open>kevent\<close> with no room for events
  applies the changes in order and returns -1 at the first that fails, leaving the
  earlier ones applied: deleting a filter that is not registered fails, adding one that
  is registered replaces its cookie.
\<close>

text \<open>\<^verbatim>\<open>struct kevent\<close>, its fields prefixed.\<close>

record kevent =
  kev_ident :: int
  kev_filter :: int
  kev_flags :: "16 word"
  kev_fflags :: "32 word"
  kev_data :: int
  kev_udata :: ptr

record kqueue_kernel =
  kq_closed :: bool
  filters :: "int \<times> int \<rightharpoonup> ptr"
  kev_faults :: "bool list"

definition EVFILT_READ :: int where "EVFILT_READ = - 1"
definition EVFILT_WRITE :: int where "EVFILT_WRITE = - 2"
definition EV_ADD :: "16 word" where "EV_ADD = 0x0001"
definition EV_DELETE :: "16 word" where "EV_DELETE = 0x0002"
definition EV_ERROR :: "16 word" where "EV_ERROR = 0x4000"

definition EV_SET :: "int \<Rightarrow> int \<Rightarrow> 16 word \<Rightarrow> 32 word \<Rightarrow> int \<Rightarrow> ptr \<Rightarrow> kevent" where
  "EV_SET a b c d e f = \<lparr>kev_ident = a, kev_filter = b, kev_flags = c, kev_fflags = d, kev_data = e,
      kev_udata = f\<rparr>"

fun kevent_changes :: "kevent list \<Rightarrow> kqueue_kernel \<Rightarrow> int \<times> kqueue_kernel" where
  "kevent_changes [] k = (0, k)"
| "kevent_changes (c # cs) k =
     (let injected = (case kev_faults k of [] \<Rightarrow> False | b # _ \<Rightarrow> b);
          k1 = k\<lparr>kev_faults := tl (kev_faults k)\<rparr>
      in if injected then (- 1, k1)
         else if kev_flags c AND EV_DELETE \<noteq> 0 then
           (if filters k (kev_ident c, kev_filter c) = None then (- 1, k1)
            else kevent_changes cs (k1\<lparr>filters := (filters k)((kev_ident c, kev_filter c) := None)\<rparr>))
         else if kev_flags c AND EV_ADD \<noteq> 0 then
           kevent_changes cs (k1\<lparr>filters := (filters k)((kev_ident c, kev_filter c) \<mapsto> kev_udata c)\<rparr>)
         else kevent_changes cs k1)"

definition kevent_apply :: "int \<Rightarrow> kevent list \<Rightarrow> kqueue_kernel \<Rightarrow> int \<times> kqueue_kernel" where
  "kevent_apply kq changes k =
     (if kq < 0 \<or> kq_closed k then (- 1, k) else kevent_changes changes k)"

type_synonym kqueue_world = "(kqueue_Watch, kqueue_kernel) world"

definition kqueue_watch_update ::
  "addr \<Rightarrow> MHD_WatchEvent set \<Rightarrow> kqueue_world \<Rightarrow> fault + kqueue_world" where
  "kqueue_watch_update watch evs s =
     (case watch_heap s watch of
        None \<Rightarrow> Inl Wild_pointer
      | Some w \<Rightarrow>
          (let er = (MHD_WATCH_IN \<in> evs);
               (set1, w1) =
                 (if er \<noteq> enable_read w then
                    ([if er then EV_SET (fd w) EVFILT_READ EV_ADD 0 0 (Some watch)
                      else EV_SET (fd w) EVFILT_READ EV_DELETE 0 0 (Some watch)],
                     w\<lparr>enable_read := er\<rparr>)
                  else ([], w));
               ew = (MHD_WATCH_OUT \<in> evs);
               (set2, w2) =
                 (if ew \<noteq> enable_write w1 then
                    (set1 @ [if ew then EV_SET (fd w1) EVFILT_WRITE EV_ADD 0 0 (Some watch)
                             else EV_SET (fd w1) EVFILT_WRITE EV_DELETE 0 0 (Some watch)],
                     w1\<lparr>enable_write := ew\<rparr>)
                  else (set1, w1));
               (r, k) = kevent_apply (backend_fd s) set2 (kernel s);
               s1 = s\<lparr>watch_heap := (watch_heap s)(watch \<mapsto> w2), kernel := k\<rparr>
           in Inr (if r < 0 then printf ''Failed to apply kqueue changes'' s1 else s1)))"

definition kqueue_watch_new ::
  "int \<Rightarrow> MHD_WatchEvent set \<Rightarrow> nat \<Rightarrow> nat \<Rightarrow> kqueue_world \<Rightarrow> fault + ptr \<times> kqueue_world" where
  "kqueue_watch_new f evs cb data s =
     (case malloc s of
        (None, s1) \<Rightarrow> Inr (None, s1)
      | (Some watch, s1) \<Rightarrow>
          (let s2 = s1\<lparr>watch_heap := (watch_heap s1)(watch \<mapsto>
                        \<lparr>fd = f, callback = cb, mhd_data = data, deleted = False,
                         next = None, enable_read = False, enable_write = False\<rparr>)\<rparr>
           in case kqueue_watch_update watch evs s2 of
                Inl e \<Rightarrow> Inl e
              | Inr s3 \<Rightarrow> Inr (Some watch, s3)))"

definition kqueue_watch_free :: "addr \<Rightarrow> kqueue_world \<Rightarrow> fault + kqueue_world" where
  "kqueue_watch_free watch s =
     (case watch_heap s watch of
        None \<Rightarrow> Inl Wild_pointer
      | Some w \<Rightarrow>
          (let set1 = (if enable_read w
                       then [EV_SET (fd w) EVFILT_READ EV_DELETE 0 0 (Some watch)] else []);
               set2 = (if enable_write w
                       then set1 @ [EV_SET (fd w) EVFILT_WRITE EV_DELETE 0 0 (Some watch)]
                       else set1);
               s1 = (if set2 \<noteq> [] then
                       (let (r, k) = kevent_apply (backend_fd s) set2 (kernel s);
                            s0 = s\<lparr>kernel := k\<rparr>
                        in if r < 0 then printf ''Failed to apply kqueue changes'' s0 else s0)
                     else s)
           in orphan watch s1))"

fun kqueue_api :: "api_call \<Rightarrow> kqueue_world \<Rightarrow> fault + kqueue_world" where
  "kqueue_api (Watch_new f evs cb data) s =
     (case kqueue_watch_new f evs cb data s of Inl e \<Rightarrow> Inl e | Inr (p, s1) \<Rightarrow> Inr s1)"
| "kqueue_api (Watch_update watch evs) s = kqueue_watch_update watch evs s"
| "kqueue_api (Watch_free watch) s = kqueue_watch_free watch s"
| "kqueue_api (Timeout_new tv cb data) s = Inr (snd (timeout_new tv cb data s))"
| "kqueue_api (Timeout_update timeout tv) s = timeout_update timeout tv s"
| "kqueue_api (Timeout_free timeout) s = timeout_free timeout s"
| "kqueue_api Stop s = Inr (s\<lparr>stop := True\<rparr>)"

section \<open>The parts of the loop both backends share\<close>

text \<open>
  The first inner loop of \<^verbatim>\<open>event_manager_loop\<close>: walk the list from the head and keep
  the earliest trigger time that is set. \<open>tv\<close> is \<open>None\<close> while \<^verbatim>\<open>found\<close> is 0. The
  walk follows \<^verbatim>\<open>next\<close> pointers and does not return on a cyclic list.
\<close>

partial_function (option) find_earliest ::
  "ptr \<Rightarrow> timeval option \<Rightarrow> ('w, 'k) world \<Rightarrow> (fault + timeval option) option" where
  "find_earliest timeout tv s =
     (case timeout of
        None \<Rightarrow> Some (Inr tv)
      | Some a \<Rightarrow>
          (case timeout_heap s a of
             None \<Rightarrow> Some (Inl Wild_pointer)
           | Some t \<Rightarrow>
               find_earliest (t_next t)
                 (if timerisset (trigger_time t) \<and>
                     (case tv of None \<Rightarrow> True | Some v \<Rightarrow> timercmp_lt (trigger_time t) v)
                  then Some (trigger_time t) else tv) s))"

text \<open>
  The sweep run when the wait returned no event: every timeout on the list whose trigger
  time is before \<open>now\<close> has its trigger time zeroed and its callback called. The
  \<^verbatim>\<open>next\<close> pointer is read before the callback runs.
\<close>

partial_function (option) fire_timeouts ::
  "(api_call \<Rightarrow> ('w, 'k) world \<Rightarrow> fault + ('w, 'k) world) \<Rightarrow> ('w, 'k) host \<Rightarrow> timeval \<Rightarrow>
   ptr \<Rightarrow> ('w, 'k) world \<Rightarrow> (fault + ('w, 'k) world) option" where
  "fire_timeouts X H now timeout s =
     (case timeout of
        None \<Rightarrow> Some (Inr s)
      | Some temp \<Rightarrow>
          (case timeout_heap s temp of
             None \<Rightarrow> Some (Inl Wild_pointer)
           | Some t \<Rightarrow>
               if timercmp_lt (trigger_time t) now then
                 (case host_calls X
                         (timeout_cb H (t_callback t) temp (t_mhd_data t)
                            (s\<lparr>timeout_heap := (timeout_heap s)(temp \<mapsto>
                                  t\<lparr>trigger_time := \<lparr>tv_sec = 0, tv_usec = 0\<rparr>\<rparr>),
                                trace := trace s @ [Timeout_callback temp (t_mhd_data t)]\<rparr>))
                         (s\<lparr>timeout_heap := (timeout_heap s)(temp \<mapsto>
                               t\<lparr>trigger_time := \<lparr>tv_sec = 0, tv_usec = 0\<rparr>\<rparr>),
                             trace := trace s @ [Timeout_callback temp (t_mhd_data t)]\<rparr>) of
                    Inl e \<Rightarrow> Some (Inl e)
                  | Inr s1 \<Rightarrow> fire_timeouts X H now (t_next t) s1)
               else fire_timeouts X H now (t_next t) s))"

text \<open>The last inner loop: free every watch on the list of orphans.\<close>

partial_function (option) free_orphans ::
  "ptr \<Rightarrow> ('a MHD_Watch_scheme, 'k) world \<Rightarrow> (fault + ('a MHD_Watch_scheme, 'k) world) option"
  where
  "free_orphans watch s =
     (case watch of
        None \<Rightarrow> Some (Inr s)
      | Some tmp \<Rightarrow>
          (case watch_heap s tmp of
             None \<Rightarrow> Some (Inl Wild_pointer)
           | Some w \<Rightarrow> free_orphans (next w) (s\<lparr>watch_heap := (watch_heap s)(tmp := None)\<rparr>)))"

definition reap ::
  "('a MHD_Watch_scheme, 'k) world \<Rightarrow> (fault + ('a MHD_Watch_scheme, 'k) world) option" where
  "reap s =
     (case free_orphans (orphaned_watches s) s of
        None \<Rightarrow> None
      | Some (Inl e) \<Rightarrow> Some (Inl e)
      | Some (Inr s1) \<Rightarrow> Some (Inr (s1\<lparr>orphaned_watches := None\<rparr>)))"

text \<open>
  What the environment contributes to one iteration: the clock read before the wait
  (read only when a timeout is armed), the outcome of the wait (the events, or -1 with an
  \<^verbatim>\<open>errno\<close>), and the clock read after it (read only when there is no event).
\<close>

datatype 'e wait_outcome = Ready "'e list" | Failed int

record 'e tick =
  now_before :: timeval
  outcome :: "'e wait_outcome"
  now_after :: timeval

text \<open>An iteration either goes on to the loop test or returns from the function.\<close>

datatype flow = Next | Return int

definition int32 :: "int \<Rightarrow> int" where
  "int32 x = sint (word_of_int x :: 32 word)"

section \<open>The epoll loop\<close>

definition EVENT_SIZE :: nat where "EVENT_SIZE = 10"

text \<open>The value of \<^verbatim>\<open>ms_to_sleep\<close>, an \<^verbatim>\<open>int\<close>.\<close>

definition epoll_ms_to_sleep :: "timeval option \<Rightarrow> timeval \<Rightarrow> int" where
  "epoll_ms_to_sleep found now =
     (case found of
        None \<Rightarrow> 10000
      | Some tv \<Rightarrow>
          if timercmp_lt tv now then 0
          else (let remaining = timersub tv now
                in int32 (tv_sec remaining * 1000 + tv_usec remaining sdiv 1000)))"

definition epoll_dispatch ::
  "(epoll_Watch, epoll_kernel) host \<Rightarrow> epoll_event \<Rightarrow> epoll_world \<Rightarrow> fault + epoll_world" where
  "epoll_dispatch H ev s =
     (case dispatch_if epoll_api H (data_ptr ev) (ev_events ev AND EPOLLIN \<noteq> 0)
             MHD_WATCH_IN s of
        Inl e \<Rightarrow> Inl e
      | Inr s1 \<Rightarrow>
          dispatch_if epoll_api H (data_ptr ev) (ev_events ev AND EPOLLOUT \<noteq> 0)
            MHD_WATCH_OUT s1)"

fun epoll_dispatch_all ::
  "(epoll_Watch, epoll_kernel) host \<Rightarrow> epoll_event list \<Rightarrow> epoll_world \<Rightarrow> fault + epoll_world"
  where
  "epoll_dispatch_all H [] s = Inr s"
| "epoll_dispatch_all H (ev # evs) s =
     (case epoll_dispatch H ev s of
        Inl e \<Rightarrow> Inl e
      | Inr s1 \<Rightarrow> epoll_dispatch_all H evs s1)"

text \<open>The body of \<^verbatim>\<open>while (!em->stop)\<close>. \<^verbatim>\<open>epoll_wait\<close> fills at most
  \<^verbatim>\<open>EVENT_SIZE\<close> events.\<close>

definition epoll_iteration ::
  "(epoll_Watch, epoll_kernel) host \<Rightarrow> epoll_event tick \<Rightarrow> epoll_world \<Rightarrow>
   (fault + flow \<times> epoll_world) option" where
  "epoll_iteration H tk s =
     (case find_earliest (timeout_head s) None s of
        None \<Rightarrow> None
      | Some (Inl e) \<Rightarrow> Some (Inl e)
      | Some (Inr found) \<Rightarrow>
          (let ms_to_sleep = epoll_ms_to_sleep found (now_before tk);
               s1 = s\<lparr>trace := trace s @ [Epoll_wait ms_to_sleep]\<rparr>
           in case outcome tk of
                Failed errno \<Rightarrow>
                  if errno = EINTR then Some (Inr (Next, s1))
                  else Some (Inr (Return (- 1), printf ''epoll_wait() error'' s1))
              | Ready evs \<Rightarrow>
                  (let ready = take EVENT_SIZE evs
                   in case (if ready = []
                            then fire_timeouts epoll_api H (now_after tk) (timeout_head s1) s1
                            else Some (Inr s1)) of
                        None \<Rightarrow> None
                      | Some (Inl e) \<Rightarrow> Some (Inl e)
                      | Some (Inr s2) \<Rightarrow>
                          (case epoll_dispatch_all H ready s2 of
                             Inl e \<Rightarrow> Some (Inl e)
                           | Inr s3 \<Rightarrow>
                               (case reap s3 of
                                  None \<Rightarrow> None
                                | Some (Inl e) \<Rightarrow> Some (Inl e)
                                | Some (Inr s4) \<Rightarrow> Some (Inr (Next, s4)))))))"

text \<open>
  The \<^verbatim>\<open>while\<close> loop and what follows it. The environment's ticks are consumed one
  per iteration; when they run out and the loop has not been stopped, the function has
  not returned (\<open>None\<close>).
\<close>

fun epoll_while ::
  "(epoll_Watch, epoll_kernel) host \<Rightarrow> epoll_event tick list \<Rightarrow> epoll_world \<Rightarrow>
   (fault + int \<times> epoll_world) option" where
  "epoll_while H [] s =
     (if stop s then
        Some (Inr (0, s\<lparr>kernel := (kernel s)\<lparr>ep_closed := True\<rparr>, backend_fd := - 1\<rparr>))
      else None)"
| "epoll_while H (tk # ticks) s =
     (if stop s then
        Some (Inr (0, s\<lparr>kernel := (kernel s)\<lparr>ep_closed := True\<rparr>, backend_fd := - 1\<rparr>))
      else
        (case epoll_iteration H tk s of
           None \<Rightarrow> None
         | Some (Inl e) \<Rightarrow> Some (Inl e)
         | Some (Inr (Return r, s1)) \<Rightarrow> Some (Inr (r, s1))
         | Some (Inr (Next, s1)) \<Rightarrow> epoll_while H ticks s1))"

definition epoll_event_manager_loop ::
  "(epoll_Watch, epoll_kernel) host \<Rightarrow> epoll_event tick list \<Rightarrow> epoll_world \<Rightarrow>
   (fault + int \<times> epoll_world) option" where
  "epoll_event_manager_loop H ticks s =
     (let s0 = s\<lparr>stop := False\<rparr>
      in if backend_fd s0 < 0 then Some (Inr (- 1, s0)) else epoll_while H ticks s0)"

section \<open>The kqueue loop\<close>

definition EVENT_SET_SIZE :: nat where "EVENT_SET_SIZE = 10"

text \<open>The \<^verbatim>\<open>struct timespec\<close> handed to \<^verbatim>\<open>kevent\<close>: seconds and nanoseconds.\<close>

definition kqueue_ts :: "timeval option \<Rightarrow> timeval \<Rightarrow> int \<times> int" where
  "kqueue_ts found now =
     (case found of
        Some tv \<Rightarrow>
          if timercmp_lt tv now then (0, 0)
          else (let remaining = timersub tv now
                in (tv_sec remaining, tv_usec remaining * 1000))
      | None \<Rightarrow> (1, 0))"

definition kqueue_dispatch ::
  "(kqueue_Watch, kqueue_kernel) host \<Rightarrow> kevent \<Rightarrow> kqueue_world \<Rightarrow> fault + kqueue_world" where
  "kqueue_dispatch H ev s =
     (if kev_flags ev AND EV_ERROR \<noteq> 0 then Inr (printf ''kevent error'' s)
      else
        (case dispatch_if kqueue_api H (kev_udata ev) (kev_filter ev = EVFILT_READ)
                MHD_WATCH_IN s of
           Inl e \<Rightarrow> Inl e
         | Inr s1 \<Rightarrow>
             dispatch_if kqueue_api H (kev_udata ev) (kev_filter ev = EVFILT_WRITE)
               MHD_WATCH_OUT s1))"

fun kqueue_dispatch_all ::
  "(kqueue_Watch, kqueue_kernel) host \<Rightarrow> kevent list \<Rightarrow> kqueue_world \<Rightarrow> fault + kqueue_world"
  where
  "kqueue_dispatch_all H [] s = Inr s"
| "kqueue_dispatch_all H (ev # evs) s =
     (case kqueue_dispatch H ev s of
        Inl e \<Rightarrow> Inl e
      | Inr s1 \<Rightarrow> kqueue_dispatch_all H evs s1)"

definition kqueue_iteration ::
  "(kqueue_Watch, kqueue_kernel) host \<Rightarrow> kevent tick \<Rightarrow> kqueue_world \<Rightarrow>
   (fault + flow \<times> kqueue_world) option" where
  "kqueue_iteration H tk s =
     (case find_earliest (timeout_head s) None s of
        None \<Rightarrow> None
      | Some (Inl e) \<Rightarrow> Some (Inl e)
      | Some (Inr found) \<Rightarrow>
          (let ts = kqueue_ts found (now_before tk);
               s1 = s\<lparr>trace := trace s @ [Kevent_wait (fst ts) (snd ts)]\<rparr>
           in case outcome tk of
                Failed errno \<Rightarrow>
                  if errno = EINTR then Some (Inr (Next, s1))
                  else Some (Inr (Return (- 1), printf ''kevent() error'' s1))
              | Ready evs \<Rightarrow>
                  (let ready = take EVENT_SET_SIZE evs
                   in case (if ready = []
                            then fire_timeouts kqueue_api H (now_after tk) (timeout_head s1) s1
                            else Some (Inr s1)) of
                        None \<Rightarrow> None
                      | Some (Inl e) \<Rightarrow> Some (Inl e)
                      | Some (Inr s2) \<Rightarrow>
                          (case kqueue_dispatch_all H ready s2 of
                             Inl e \<Rightarrow> Some (Inl e)
                           | Inr s3 \<Rightarrow>
                               (case reap s3 of
                                  None \<Rightarrow> None
                                | Some (Inl e) \<Rightarrow> Some (Inl e)
                                | Some (Inr s4) \<Rightarrow> Some (Inr (Next, s4)))))))"

fun kqueue_while ::
  "(kqueue_Watch, kqueue_kernel) host \<Rightarrow> kevent tick list \<Rightarrow> kqueue_world \<Rightarrow>
   (fault + int \<times> kqueue_world) option" where
  "kqueue_while H [] s =
     (if stop s then
        Some (Inr (0, s\<lparr>kernel := (kernel s)\<lparr>kq_closed := True\<rparr>, backend_fd := - 1\<rparr>))
      else None)"
| "kqueue_while H (tk # ticks) s =
     (if stop s then
        Some (Inr (0, s\<lparr>kernel := (kernel s)\<lparr>kq_closed := True\<rparr>, backend_fd := - 1\<rparr>))
      else
        (case kqueue_iteration H tk s of
           None \<Rightarrow> None
         | Some (Inl e) \<Rightarrow> Some (Inl e)
         | Some (Inr (Return r, s1)) \<Rightarrow> Some (Inr (r, s1))
         | Some (Inr (Next, s1)) \<Rightarrow> kqueue_while H ticks s1))"

definition kqueue_event_manager_loop ::
  "(kqueue_Watch, kqueue_kernel) host \<Rightarrow> kevent tick list \<Rightarrow> kqueue_world \<Rightarrow>
   (fault + int \<times> kqueue_world) option" where
  "kqueue_event_manager_loop H ticks s =
     (let s0 = s\<lparr>stop := False\<rparr>
      in if backend_fd s0 < 0 then Some (Inr (- 1, s0)) else kqueue_while H ticks s0)"

section \<open>The earliest deadline and the time allowed to the wait\<close>

text \<open>
  \<open>timeouts_from h p ts\<close>: following \<^verbatim>\<open>next\<close> from \<open>p\<close> reaches \<^verbatim>\<open>NULL\<close> and
  meets timeouts with the trigger times \<open>ts\<close>, in this order. \<open>earliest\<close> is the scan
  of the loop on that list of trigger times. \<open>micros\<close> is a time value in microseconds
  and \<open>normal\<close> says that its microseconds are within a second.
\<close>

fun timeouts_from :: "(addr \<rightharpoonup> MHD_Timeout) \<Rightarrow> ptr \<Rightarrow> timeval list \<Rightarrow> bool" where
  "timeouts_from h p [] = (p = None)"
| "timeouts_from h p (t # ts) =
     (case p of
        None \<Rightarrow> False
      | Some a \<Rightarrow>
          (case h a of
             None \<Rightarrow> False
           | Some x \<Rightarrow> trigger_time x = t \<and> timeouts_from h (t_next x) ts))"

fun earliest :: "timeval option \<Rightarrow> timeval list \<Rightarrow> timeval option" where
  "earliest tv [] = tv"
| "earliest tv (t # ts) =
     earliest (if timerisset t \<and> (case tv of None \<Rightarrow> True | Some v \<Rightarrow> timercmp_lt t v)
               then Some t else tv) ts"

definition micros :: "timeval \<Rightarrow> int" where
  "micros tv = tv_sec tv * 1000000 + tv_usec tv"

definition normal :: "timeval \<Rightarrow> bool" where
  "normal tv = (0 \<le> tv_usec tv \<and> tv_usec tv < 1000000)"

lemma find_earliest_walk:
  "timeouts_from (timeout_heap s) p ts \<Longrightarrow> find_earliest p tv s = Some (Inr (earliest tv ts))"
proof (induction ts arbitrary: p tv)
  case Nil
  then show ?case by (simp add: find_earliest.simps)
next
  case (Cons t ts)
  then obtain a x where p: "p = Some a" and x: "timeout_heap s a = Some x"
    and t: "trigger_time x = t" and rest: "timeouts_from (timeout_heap s) (t_next x) ts"
    by (auto split: option.splits)
  show ?case
    unfolding t [symmetric]
    by (subst find_earliest.simps) (simp add: p x Cons.IH [OF rest])
qed

lemma timercmp_lt_trans: "timercmp_lt a b \<Longrightarrow> timercmp_lt b c \<Longrightarrow> timercmp_lt a c"
  by (auto simp: timercmp_lt_def split: if_splits)

lemma timercmp_lt_irrefl: "\<not> timercmp_lt a a"
  by (simp add: timercmp_lt_def)

lemma timercmp_lt_total: "\<not> timercmp_lt a b \<Longrightarrow> \<not> timercmp_lt b c \<Longrightarrow> \<not> timercmp_lt a c"
  by (auto simp: timercmp_lt_def split: if_splits)

lemma earliest_Some_acc:
  "earliest (Some v) ts = Some r \<Longrightarrow>
     (r = v \<or> (r \<in> set ts \<and> timerisset r)) \<and> \<not> timercmp_lt v r \<and>
     (\<forall>u\<in>set ts. timerisset u \<longrightarrow> \<not> timercmp_lt u r)"
proof (induction ts arbitrary: v)
  case Nil
  then show ?case by (simp add: timercmp_lt_irrefl)
next
  case (Cons t ts)
  show ?case
  proof (cases "timerisset t \<and> timercmp_lt t v")
    case True
    with Cons.prems have "earliest (Some t) ts = Some r" by simp
    from Cons.IH [OF this] True show ?thesis
      by (auto dest: timercmp_lt_trans)
  next
    case False
    with Cons.prems have "earliest (Some v) ts = Some r" by auto
    from Cons.IH [OF this] False show ?thesis
      by (auto dest: timercmp_lt_total)
  qed
qed

lemma earliest_Some_not_None: "earliest (Some v) ts \<noteq> None"
  by (induction ts arbitrary: v) auto

lemma earliest_None_iff: "earliest None ts = None \<longleftrightarrow> (\<forall>t\<in>set ts. \<not> timerisset t)"
  by (induction ts) (auto simp: earliest_Some_not_None)

lemma earliest_None_Some:
  "earliest None ts = Some r \<Longrightarrow>
     r \<in> set ts \<and> timerisset r \<and> (\<forall>u\<in>set ts. timerisset u \<longrightarrow> \<not> timercmp_lt u r)"
proof (induction ts)
  case Nil
  then show ?case by simp
next
  case (Cons t ts)
  show ?case
  proof (cases "timerisset t")
    case True
    with Cons.prems have "earliest (Some t) ts = Some r" by simp
    from earliest_Some_acc [OF this] True show ?thesis by auto
  next
    case False
    with Cons show ?thesis by auto
  qed
qed

lemma epoll_ms_exact:
  assumes "\<not> timercmp_lt t now" "normal t" "normal now"
    and "(micros t - micros now) div 1000 < 2 ^ 31"
  shows "epoll_ms_to_sleep (Some t) now = (micros t - micros now) div 1000"
proof -
  let ?r = "timersub t now"
  have r: "tv_sec ?r * 1000000 + tv_usec ?r = micros t - micros now"
    "0 \<le> tv_usec ?r" "tv_usec ?r < 1000000"
    using assms(2,3) by (auto simp: timersub_def micros_def normal_def Let_def)
  have nonneg: "0 \<le> micros t - micros now"
    using assms(1,2,3) by (auto simp: timercmp_lt_def micros_def normal_def split: if_splits)
  have sec: "0 \<le> tv_sec ?r"
    using r nonneg by (smt (verit))
  have sd: "tv_usec ?r sdiv 1000 = tv_usec ?r div 1000"
    using r(2) by (simp add: signed_divide_int_def sgn_if)
  have eq: "tv_sec ?r * 1000 + tv_usec ?r div 1000 = (micros t - micros now) div 1000"
  proof -
    have "(micros t - micros now) div 1000 = (tv_sec ?r * 1000 * 1000 + tv_usec ?r) div 1000"
      using r(1) by simp
    also have "\<dots> = tv_sec ?r * 1000 + tv_usec ?r div 1000"
      by (simp only: div_mult_self3 [of 1000 "tv_usec ?r" "tv_sec ?r * 1000"]) 
    finally show ?thesis by simp
  qed
  have low: "0 \<le> (micros t - micros now) div 1000"
    using nonneg by simp
  have "int32 ((micros t - micros now) div 1000) = (micros t - micros now) div 1000"
    unfolding int32_def using low assms(4)
    by (simp add: signed_of_int signed_take_bit_int_eq_self)
  then show ?thesis
    using assms(1) by (simp add: epoll_ms_to_sleep_def Let_def sd eq)
qed

lemma kqueue_ts_exact:
  assumes "\<not> timercmp_lt t now" "normal t" "normal now"
  shows "fst (kqueue_ts (Some t) now) * 1000000000 + snd (kqueue_ts (Some t) now)
           = (micros t - micros now) * 1000
         \<and> 0 \<le> snd (kqueue_ts (Some t) now) \<and> snd (kqueue_ts (Some t) now) < 1000000000"
  using assms
  by (auto simp: kqueue_ts_def timersub_def micros_def normal_def Let_def)

text \<open>An event manager as \<^verbatim>\<open>event_manager_init\<close> leaves it, on descriptor 3.\<close>

definition epoll_world0 :: epoll_world where
  "epoll_world0 =
     \<lparr>backend_fd = 3, timeout_head = None, timeout_tail = None, orphaned_watches = None,
      stop = False, watch_heap = Map.empty, timeout_heap = Map.empty, brk = 0,
      malloc_faults = [],
      kernel = \<lparr>ep_closed = False, interest = Map.empty, ctl_faults = []\<rparr>,
      out = [], trace = []\<rparr>"

text \<open>
  C3, as the code has it. When the timeouts linked from the head have the trigger times
  \<open>ts\<close>, the scan returns and finds nothing exactly when no trigger time is set;
  otherwise it finds a trigger time that is set and that no other set trigger time
  precedes. With nothing found \<^verbatim>\<open>epoll_wait\<close> is given 10000 milliseconds and
  \<^verbatim>\<open>kevent\<close> one second. With \<open>t\<close> found, both are given zero when \<open>t\<close> is before
  \<open>now\<close>; when it is not (and both time values are normal) \<^verbatim>\<open>kevent\<close> is given exactly
  \<open>t - now\<close> and \<^verbatim>\<open>epoll_wait\<close> the whole milliseconds of \<open>t - now\<close>, not capped at
  10000, as long as they fit an \<^verbatim>\<open>int\<close>.
\<close>

theorem wait_budget:
  assumes "timeouts_from (timeout_heap s) (timeout_head s) ts"
  shows "\<exists>found. find_earliest (timeout_head s) None s = Some (Inr found) \<and>
     (found = None \<longleftrightarrow> (\<forall>t\<in>set ts. \<not> timerisset t)) \<and>
     (found = None \<longrightarrow> epoll_ms_to_sleep found now = 10000 \<and> kqueue_ts found now = (1, 0)) \<and>
     (\<forall>t. found = Some t \<longrightarrow>
        t \<in> set ts \<and> timerisset t \<and> (\<forall>u\<in>set ts. timerisset u \<longrightarrow> \<not> timercmp_lt u t) \<and>
        (timercmp_lt t now \<longrightarrow> epoll_ms_to_sleep found now = 0 \<and> kqueue_ts found now = (0, 0)) \<and>
        (\<not> timercmp_lt t now \<and> normal t \<and> normal now \<longrightarrow>
           fst (kqueue_ts found now) * 1000000000 + snd (kqueue_ts found now)
             = (micros t - micros now) * 1000 \<and>
           ((micros t - micros now) div 1000 < 2 ^ 31 \<longrightarrow>
              epoll_ms_to_sleep found now = (micros t - micros now) div 1000)))"
proof -
  let ?f = "earliest None ts"
  have walk: "find_earliest (timeout_head s) None s = Some (Inr ?f)"
    by (rule find_earliest_walk [OF assms])
  have none: "?f = None \<longleftrightarrow> (\<forall>t\<in>set ts. \<not> timerisset t)"
    by (rule earliest_None_iff)
  have dflt: "?f = None \<longrightarrow> epoll_ms_to_sleep ?f now = 10000 \<and> kqueue_ts ?f now = (1, 0)"
    by (simp add: epoll_ms_to_sleep_def kqueue_ts_def)
  have some: "\<forall>t. ?f = Some t \<longrightarrow>
        t \<in> set ts \<and> timerisset t \<and> (\<forall>u\<in>set ts. timerisset u \<longrightarrow> \<not> timercmp_lt u t) \<and>
        (timercmp_lt t now \<longrightarrow> epoll_ms_to_sleep ?f now = 0 \<and> kqueue_ts ?f now = (0, 0)) \<and>
        (\<not> timercmp_lt t now \<and> normal t \<and> normal now \<longrightarrow>
           fst (kqueue_ts ?f now) * 1000000000 + snd (kqueue_ts ?f now)
             = (micros t - micros now) * 1000 \<and>
           ((micros t - micros now) div 1000 < 2 ^ 31 \<longrightarrow>
              epoll_ms_to_sleep ?f now = (micros t - micros now) div 1000))"
  proof (intro allI impI)
    fix t assume f: "?f = Some t"
    from earliest_None_Some [OF f]
    have e1: "t \<in> set ts" and e2: "timerisset t"
      and e3: "\<forall>u\<in>set ts. timerisset u \<longrightarrow> \<not> timercmp_lt u t"
      by simp_all
    have past: "timercmp_lt t now \<longrightarrow>
        epoll_ms_to_sleep (Some t) now = 0 \<and> kqueue_ts (Some t) now = (0, 0)"
      by (simp add: epoll_ms_to_sleep_def kqueue_ts_def)
    have fut: "\<not> timercmp_lt t now \<and> normal t \<and> normal now \<longrightarrow>
           fst (kqueue_ts (Some t) now) * 1000000000 + snd (kqueue_ts (Some t) now)
             = (micros t - micros now) * 1000 \<and>
           ((micros t - micros now) div 1000 < 2 ^ 31 \<longrightarrow>
              epoll_ms_to_sleep (Some t) now = (micros t - micros now) div 1000)"
    proof (intro impI conjI)
      assume a: "\<not> timercmp_lt t now \<and> normal t \<and> normal now"
      from a kqueue_ts_exact [of t now]
      show "fst (kqueue_ts (Some t) now) * 1000000000 + snd (kqueue_ts (Some t) now)
             = (micros t - micros now) * 1000"
        by simp
      assume b: "(micros t - micros now) div 1000 < 2 ^ 31"
      from a b show "epoll_ms_to_sleep (Some t) now = (micros t - micros now) div 1000"
        by (intro epoll_ms_exact) simp_all
    qed
    from e1 e2 e3 past fut
    show "t \<in> set ts \<and> timerisset t \<and> (\<forall>u\<in>set ts. timerisset u \<longrightarrow> \<not> timercmp_lt u t) \<and>
        (timercmp_lt t now \<longrightarrow> epoll_ms_to_sleep ?f now = 0 \<and> kqueue_ts ?f now = (0, 0)) \<and>
        (\<not> timercmp_lt t now \<and> normal t \<and> normal now \<longrightarrow>
           fst (kqueue_ts ?f now) * 1000000000 + snd (kqueue_ts ?f now)
             = (micros t - micros now) * 1000 \<and>
           ((micros t - micros now) div 1000 < 2 ^ 31 \<longrightarrow>
              epoll_ms_to_sleep ?f now = (micros t - micros now) div 1000))"
      unfolding f by (intro conjI)
  qed
  show ?thesis
  proof (intro exI conjI)
    show "find_earliest (timeout_head s) None s = Some (Inr ?f)" by (rule walk)
  qed (rule none dflt some)+
qed

text \<open>
  C3 as stated fails: a deadline 20 seconds away gives \<^verbatim>\<open>epoll_wait\<close> 20000
  milliseconds, not \<open>min 10000 20000\<close>, and with no timeout the kqueue backend waits one
  second.
\<close>

theorem wait_budget_counterexample:
  "\<not> (epoll_ms_to_sleep (Some \<lparr>tv_sec = 20, tv_usec = 0\<rparr>) \<lparr>tv_sec = 0, tv_usec = 0\<rparr>
        = min 10000 ((micros \<lparr>tv_sec = 20, tv_usec = 0\<rparr>
                       - micros \<lparr>tv_sec = 0, tv_usec = 0\<rparr>) div 1000))
   \<and> epoll_ms_to_sleep (Some \<lparr>tv_sec = 20, tv_usec = 0\<rparr>) \<lparr>tv_sec = 0, tv_usec = 0\<rparr> = 20000
   \<and> kqueue_ts None \<lparr>tv_sec = 0, tv_usec = 0\<rparr> = (1, 0)"
  by (simp add: epoll_ms_to_sleep_def kqueue_ts_def timercmp_lt_def timersub_def int32_def
      micros_def)

theorem wait_budget_witness:
  "find_earliest (timeout_head (snd (timeout_new \<lparr>tv_sec = 5, tv_usec = 0\<rparr> 7 8 epoll_world0)))
     None (snd (timeout_new \<lparr>tv_sec = 5, tv_usec = 0\<rparr> 7 8 epoll_world0))
     = Some (Inr (Some \<lparr>tv_sec = 5, tv_usec = 0\<rparr>))
   \<and> epoll_ms_to_sleep (Some \<lparr>tv_sec = 5, tv_usec = 0\<rparr>) \<lparr>tv_sec = 2, tv_usec = 500000\<rparr> = 2500
   \<and> kqueue_ts (Some \<lparr>tv_sec = 5, tv_usec = 0\<rparr>) \<lparr>tv_sec = 2, tv_usec = 500000\<rparr>
       = (2, 500000000)"
proof -
  let ?s = "snd (timeout_new \<lparr>tv_sec = 5, tv_usec = 0\<rparr> 7 8 epoll_world0)"
  have h: "timeouts_from (timeout_heap ?s) (timeout_head ?s) [\<lparr>tv_sec = 5, tv_usec = 0\<rparr>]"
    by (simp add: timeout_new_def malloc_def epoll_world0_def)
  from wait_budget [OF h, of "\<lparr>tv_sec = 2, tv_usec = 500000\<rparr>"]
  obtain found where f: "find_earliest (timeout_head ?s) None ?s = Some (Inr found)"
    and n: "found = None \<longleftrightarrow> (\<forall>t\<in>set [\<lparr>tv_sec = 5, tv_usec = 0\<rparr>]. \<not> timerisset t)"
    and s: "\<forall>t. found = Some t \<longrightarrow> t \<in> set [\<lparr>tv_sec = 5, tv_usec = (0::int)\<rparr>]"
    by blast
  from n have "found \<noteq> None" by (simp add: timerisset_def)
  with s have "found = Some \<lparr>tv_sec = 5, tv_usec = 0\<rparr>" by auto
  with f show ?thesis
    by (simp add: epoll_ms_to_sleep_def kqueue_ts_def timercmp_lt_def timersub_def int32_def)
qed

section \<open>Appending a timeout\<close>

text \<open>
  C4 says that after \<^verbatim>\<open>timeout_new\<close> the new timeout is linked at the tail and
  reachable from the head. On a list that is not empty the code sets the new timeout's
  \<^verbatim>\<open>previous\<close> and the tail, and leaves the old tail's \<^verbatim>\<open>next\<close> at \<^verbatim>\<open>NULL\<close>: after
  two calls on an empty list the head is the first timeout, its \<^verbatim>\<open>next\<close> is
  \<^verbatim>\<open>NULL\<close>, and the scan for the earliest deadline answers 100 seconds although the
  second timeout is armed at 50.
\<close>

theorem timeout_new_tail_unlinked:
  "(let (p1, s1) = timeout_new \<lparr>tv_sec = 100, tv_usec = 0\<rparr> 7 8 epoll_world0;
        (p2, s2) = timeout_new \<lparr>tv_sec = 50, tv_usec = 0\<rparr> 7 9 s1
    in p1 = Some 0 \<and> p2 = Some 1 \<and> timeout_head s2 = Some 0 \<and> timeout_tail s2 = Some 1 \<and>
       map_option t_next (timeout_heap s2 0) = Some None \<and>
       map_option previous (timeout_heap s2 1) = Some (Some 0) \<and>
       map_option trigger_time (timeout_heap s2 1) = Some \<lparr>tv_sec = 50, tv_usec = 0\<rparr> \<and>
       find_earliest (timeout_head s2) None s2 = Some (Inr (Some \<lparr>tv_sec = 100, tv_usec = 0\<rparr>)))"
  by (simp add: epoll_world0_def timeout_new_def malloc_def find_earliest.simps timerisset_def)

section \<open>Runs of the loop on concrete inputs\<close>

text \<open>A kqueue event manager as \<^verbatim>\<open>event_manager_init\<close> leaves it, on descriptor 3.\<close>

definition kqueue_world0 :: kqueue_world where
  "kqueue_world0 =
     \<lparr>backend_fd = 3, timeout_head = None, timeout_tail = None, orphaned_watches = None,
      stop = False, watch_heap = Map.empty, timeout_heap = Map.empty, brk = 0,
      malloc_faults = [],
      kernel = \<lparr>kq_closed = False, filters = Map.empty, kev_faults = []\<rparr>,
      out = [], trace = []\<rparr>"

text \<open>An iteration at second \<open>n\<close> whose wait returns no event, and one whose wait fails.\<close>

definition idle_tick :: "int \<Rightarrow> 'e tick" where
  "idle_tick n = \<lparr>now_before = \<lparr>tv_sec = n, tv_usec = 0\<rparr>, outcome = Ready [],
                  now_after = \<lparr>tv_sec = n, tv_usec = 0\<rparr>\<rparr>"

definition failed_tick :: "int \<Rightarrow> 'e tick" where
  "failed_tick errno = \<lparr>now_before = \<lparr>tv_sec = 1, tv_usec = 0\<rparr>, outcome = Failed errno,
                        now_after = \<lparr>tv_sec = 1, tv_usec = 0\<rparr>\<rparr>"

text \<open>A host whose callbacks call nothing, and one whose timeout callback does nothing
  but stop the loop when it is called for the second time.\<close>

definition quiet_host :: "('w, 'k) host" where
  "quiet_host = \<lparr>watch_cb = (\<lambda>f a d e c s. []), timeout_cb = (\<lambda>f a c s. [])\<rparr>"

definition stop_at_second_fire :: "('w, 'k) host" where
  "stop_at_second_fire =
     \<lparr>watch_cb = (\<lambda>f a d e c s. []),
      timeout_cb = (\<lambda>f a c s.
        if 2 \<le> length (filter (\<lambda>x. x = Timeout_callback a c) (trace s)) then [Stop] else [])\<rparr>"

lemmas loop_eval =
  epoll_event_manager_loop_def epoll_iteration_def epoll_ms_to_sleep_def
  kqueue_event_manager_loop_def kqueue_iteration_def kqueue_ts_def
  find_earliest.simps fire_timeouts.simps free_orphans.simps reap_def
  epoll_events_of_def timeout_new_def malloc_def timerisset_def timercmp_lt_def timersub_def int32_def
  EVENT_SIZE_def EVENT_SET_SIZE_def EINTR_def printf_def

text \<open>
  C6 says that a timeout fires at most once per arming. The sweep compares the trigger
  time with the clock and does not test \<^verbatim>\<open>timerisset\<close>, as the scan for the earliest
  deadline does; the zero time of a fired timeout is before every clock value. One timeout
  armed once at second 5, never armed again, and two iterations without events at seconds
  10 and 20: the second wait is given the default of a loop with nothing armed, and the
  callback is called in both iterations, in either backend.
\<close>

theorem disarmed_timeout_fires_again:
  "map_option (map_sum id (\<lambda>(r, s). (r, trace s)))
     (epoll_event_manager_loop stop_at_second_fire [idle_tick 10, idle_tick 20]
        (snd (timeout_new \<lparr>tv_sec = 5, tv_usec = 0\<rparr> 7 8 epoll_world0)))
   = Some (Inr (0, [Epoll_wait 0, Timeout_callback 0 8,
                    Epoll_wait 10000, Timeout_callback 0 8, Call Stop]))
   \<and> map_option (map_sum id (\<lambda>(r, s). (r, trace s)))
     (kqueue_event_manager_loop stop_at_second_fire [idle_tick 10, idle_tick 20]
        (snd (timeout_new \<lparr>tv_sec = 5, tv_usec = 0\<rparr> 7 8 kqueue_world0)))
   = Some (Inr (0, [Kevent_wait 0 0, Timeout_callback 0 8,
                    Kevent_wait 1 0, Timeout_callback 0 8, Call Stop]))"
  by (simp add: loop_eval epoll_world0_def kqueue_world0_def idle_tick_def
      stop_at_second_fire_def)

text \<open>
  C8 says that when the wait fails with an error other than \<^verbatim>\<open>EINTR\<close> the loop returns
  -1 and the descriptor is closed. The loop returns -1 from inside the \<^verbatim>\<open>while\<close>, before
  the \<^verbatim>\<open>close\<close> that follows it: with \<^verbatim>\<open>EBADF\<close> (9) from the first wait the result is
  -1, the event manager still holds descriptor 3 and the kernel object is open, in either
  backend.
\<close>

theorem wait_error_leaves_descriptor_open:
  "map_option (map_sum id (\<lambda>(r, s). (r, backend_fd s, ep_closed (kernel s), out s)))
     (epoll_event_manager_loop quiet_host [failed_tick 9] epoll_world0)
   = Some (Inr (- 1, 3, False, [''epoll_wait() error'']))
   \<and> map_option (map_sum id (\<lambda>(r, s). (r, backend_fd s, kq_closed (kernel s), out s)))
     (kqueue_event_manager_loop quiet_host [failed_tick 9] kqueue_world0)
   = Some (Inr (- 1, 3, False, [''kevent() error'']))"
  by (simp add: loop_eval epoll_world0_def kqueue_world0_def failed_tick_def quiet_host_def)

section \<open>What a call of the host changes\<close>

text \<open>
  The part of a watch both backends share, and the store of watches seen through it.
  \<open>api_effect c s s'\<close> is all that the later sections need to know about a call \<open>c\<close>
  that took \<open>s\<close> to \<open>s'\<close>: the observed actions and the descriptor are untouched,
  only \<^verbatim>\<open>watch_new\<close> adds a watch (at the next unused address, live and unlinked), and
  only \<^verbatim>\<open>watch_free\<close> changes one, by setting its tombstone and pushing it on the list
  of orphans. Both backends' calls have this effect.
\<close>

definition skeleton :: "'a MHD_Watch_scheme \<Rightarrow> MHD_Watch" where
  "skeleton w = \<lparr>fd = fd w, callback = callback w, mhd_data = mhd_data w,
                 deleted = deleted w, next = next w\<rparr>"

definition sk :: "('a MHD_Watch_scheme, 'k) world \<Rightarrow> addr \<rightharpoonup> MHD_Watch" where
  "sk s = (\<lambda>a. map_option skeleton (watch_heap s a))"

definition same_frame :: "('w, 'k) world \<Rightarrow> ('w, 'k) world \<Rightarrow> bool" where
  "same_frame s s' =
     (trace s' = trace s \<and> backend_fd s' = backend_fd s \<and>
      orphaned_watches s' = orphaned_watches s)"

fun api_effect ::
  "api_call \<Rightarrow> ('a MHD_Watch_scheme, 'k) world \<Rightarrow> ('a MHD_Watch_scheme, 'k) world \<Rightarrow> bool" where
  "api_effect (Watch_new f evs cb c) s s' =
     (same_frame s s' \<and>
      (sk s' = sk s \<and> brk s' = brk s \<or>
       sk s' = (sk s)(brk s \<mapsto> \<lparr>fd = f, callback = cb, mhd_data = c, deleted = False,
                                   next = None\<rparr>) \<and> brk s' = Suc (brk s)))"
| "api_effect (Watch_free a) s s' =
     (trace s' = trace s \<and> backend_fd s' = backend_fd s \<and> brk s' = brk s \<and>
      orphaned_watches s' = Some a \<and>
      (\<exists>w. sk s a = Some w \<and>
           sk s' = (sk s)(a \<mapsto> w\<lparr>deleted := True,
                                    next := (if orphaned_watches s \<noteq> None
                                             then orphaned_watches s else next w)\<rparr>)))"
| "api_effect (Timeout_new tv cb c) s s' =
     (same_frame s s' \<and> sk s' = sk s \<and> (brk s' = brk s \<or> brk s' = Suc (brk s)))"
| "api_effect (Watch_update a evs) s s' = (same_frame s s' \<and> sk s' = sk s \<and> brk s' = brk s)"
| "api_effect (Timeout_update a tv) s s' = (same_frame s s' \<and> sk s' = sk s \<and> brk s' = brk s)"
| "api_effect (Timeout_free a) s s' = (same_frame s s' \<and> sk s' = sk s \<and> brk s' = brk s)"
| "api_effect Stop s s' = (same_frame s s' \<and> sk s' = sk s \<and> brk s' = brk s)"

lemma sk_upd [simp]:
  "sk (s\<lparr>watch_heap := (watch_heap t)(a \<mapsto> w)\<rparr>) = (sk t)(a \<mapsto> skeleton w)"
  by (auto simp: sk_def fun_eq_iff)

lemma sk_del [simp]:
  "sk (s\<lparr>watch_heap := (watch_heap t)(a := None)\<rparr>) = (sk t)(a := None)"
  by (auto simp: sk_def fun_eq_iff)

lemma sk_fields [simp]:
  "sk (s\<lparr>trace := tr\<rparr>) = sk s"
  "sk (s\<lparr>out := ou\<rparr>) = sk s"
  "sk (s\<lparr>kernel := k\<rparr>) = sk s"
  "sk (s\<lparr>brk := b\<rparr>) = sk s"
  "sk (s\<lparr>malloc_faults := mf\<rparr>) = sk s"
  "sk (s\<lparr>stop := st\<rparr>) = sk s"
  "sk (s\<lparr>timeout_heap := th\<rparr>) = sk s"
  "sk (s\<lparr>timeout_head := p\<rparr>) = sk s"
  "sk (s\<lparr>timeout_tail := p\<rparr>) = sk s"
  "sk (s\<lparr>orphaned_watches := p\<rparr>) = sk s"
  "sk (s\<lparr>backend_fd := e\<rparr>) = sk s"
  by (simp_all add: sk_def)

lemma sk_Some: "sk s a = Some v \<longleftrightarrow> (\<exists>w. watch_heap s a = Some w \<and> skeleton w = v)"
  by (auto simp: sk_def)

lemma skeleton_simps [simp]:
  "fd (skeleton w) = fd w" "callback (skeleton w) = callback w"
  "mhd_data (skeleton w) = mhd_data w" "deleted (skeleton w) = deleted w"
  "next (skeleton w) = next w"
  "skeleton (w\<lparr>deleted := d\<rparr>) = (skeleton w)\<lparr>deleted := d\<rparr>"
  "skeleton (w\<lparr>next := n\<rparr>) = (skeleton w)\<lparr>next := n\<rparr>"
  by (simp_all add: skeleton_def)

lemma same_frame_refl [simp]: "same_frame s s"
  by (simp add: same_frame_def)

lemma orphan_effect:
  assumes "orphan a s = Inr s'"
  shows "trace s' = trace s \<and> backend_fd s' = backend_fd s \<and> brk s' = brk s \<and>
      kernel s' = kernel s \<and> out s' = out s \<and>
      orphaned_watches s' = Some a \<and>
      (\<exists>w. sk s a = Some w \<and>
           sk s' = (sk s)(a \<mapsto> w\<lparr>deleted := True,
                                    next := (if orphaned_watches s \<noteq> None
                                             then orphaned_watches s else next w)\<rparr>))"
proof (cases "watch_heap s a")
  case None
  with assms show ?thesis by (simp add: orphan_def)
next
  case (Some w)
  then have "sk s a = Some (skeleton w)" by (simp add: sk_def)
  with assms Some show ?thesis
    by (auto simp: orphan_def split: if_splits)
qed

lemma set_next_frame:
  "set_next p v s = Inr s' \<Longrightarrow> same_frame s s' \<and> sk s' = sk s \<and> brk s' = brk s"
  by (auto simp: set_next_def same_frame_def split: option.splits)

lemma set_previous_frame:
  "set_previous p v s = Inr s' \<Longrightarrow> same_frame s s' \<and> sk s' = sk s \<and> brk s' = brk s"
  by (auto simp: set_previous_def same_frame_def split: option.splits)

lemma timeout_free_frame:
  "timeout_free a s = Inr s' \<Longrightarrow> same_frame s s' \<and> sk s' = sk s \<and> brk s' = brk s"
  unfolding timeout_free_def
  by (auto simp: same_frame_def free_timeout_def
      dest!: set_next_frame set_previous_frame split: option.splits if_splits sum.splits)

lemma timeout_update_frame:
  "timeout_update a tv s = Inr s' \<Longrightarrow> same_frame s s' \<and> sk s' = sk s \<and> brk s' = brk s"
  by (auto simp: timeout_update_def same_frame_def split: option.splits)

lemma malloc_disj:
  "malloc s = (None, s\<lparr>malloc_faults := tl (malloc_faults s)\<rparr>) \<or>
   malloc s = (Some (brk s), s\<lparr>malloc_faults := tl (malloc_faults s), brk := Suc (brk s)\<rparr>)"
  by (simp add: malloc_def Let_def)

lemma malloc_cases:
  obtains (fail) "malloc s = (None, s\<lparr>malloc_faults := tl (malloc_faults s)\<rparr>)"
  | (ok) "malloc s = (Some (brk s), s\<lparr>malloc_faults := tl (malloc_faults s), brk := Suc (brk s)\<rparr>)"
  using malloc_disj [of s] by blast

lemma timeout_new_frame:
  "same_frame s (snd (timeout_new tv cb c s)) \<and> sk (snd (timeout_new tv cb c s)) = sk s \<and>
     (brk (snd (timeout_new tv cb c s)) = brk s \<or>
      brk (snd (timeout_new tv cb c s)) = Suc (brk s))"
  by (cases s rule: malloc_cases) (simp_all add: timeout_new_def same_frame_def)

lemma skeleton_events [simp]: "skeleton (w\<lparr>events := e\<rparr>) = skeleton w"
  by (simp add: skeleton_def)

lemma skeleton_enable [simp]:
  "skeleton (w\<lparr>enable_read := b\<rparr>) = skeleton w"
  "skeleton (w\<lparr>enable_write := b\<rparr>) = skeleton w"
  by (simp_all add: skeleton_def)

lemma sk_upd_same:
  "watch_heap s a = Some w \<Longrightarrow> v = skeleton w \<Longrightarrow> (sk s)(a \<mapsto> v) = sk s"
  by (auto simp: sk_def fun_eq_iff)

lemma epoll_watch_update_frame:
  assumes "epoll_watch_update a evs s = Inr s'"
  shows "same_frame s s' \<and> sk s' = sk s \<and> brk s' = brk s"
proof (cases "watch_heap s a")
  case None
  with assms show ?thesis by (simp add: epoll_watch_update_def)
next
  case (Some w)
  with assms show ?thesis
    by (auto simp: epoll_watch_update_def same_frame_def Let_def printf_def sk_upd_same
        split: if_splits prod.splits)
qed

lemma epoll_watch_free_effect:
  assumes "epoll_watch_free a s = Inr s'"
  shows "api_effect (Watch_free a) s s'"
proof (cases "watch_heap s a")
  case None
  with assms show ?thesis by (simp add: epoll_watch_free_def)
next
  case (Some w)
  with assms obtain s1 where o: "orphan a s1 = Inr s'"
    and f: "trace s1 = trace s" "backend_fd s1 = backend_fd s" "brk s1 = brk s"
      "orphaned_watches s1 = orphaned_watches s" "sk s1 = sk s"
    by (auto simp: epoll_watch_free_def Let_def printf_def split: if_splits prod.splits)
  from orphan_effect [OF o, unfolded f] show ?thesis
    unfolding api_effect.simps by blast
qed

lemma epoll_watch_new_effect:
  assumes "epoll_watch_new f evs cb c s = Inr (p, s')"
  shows "api_effect (Watch_new f evs cb c) s s'"
proof (cases s rule: malloc_cases)
  case fail
  with assms show ?thesis by (auto simp: epoll_watch_new_def same_frame_def)
next
  case ok
  let ?s2 = "s\<lparr>malloc_faults := tl (malloc_faults s), brk := Suc (brk s),
               watch_heap := (watch_heap s)(brk s \<mapsto>
                 \<lparr>fd = f, callback = cb, mhd_data = c, deleted = False,
                  next = None, events = 0\<rparr>)\<rparr>"
  from assms ok have "epoll_watch_update (brk s) evs ?s2 = Inr s'"
    by (simp add: epoll_watch_new_def split: sum.splits)
  from epoll_watch_update_frame [OF this] show ?thesis
    by (simp add: same_frame_def skeleton_def)
qed

lemma epoll_api_effect:
  assumes "epoll_api c s = Inr s'"
  shows "api_effect c s s'"
proof (cases c)
  case (Watch_new f evs cb d)
  with assms show ?thesis
    by (auto split: sum.splits prod.splits dest: epoll_watch_new_effect)
next
  case (Watch_update a evs)
  with assms epoll_watch_update_frame [of a evs s s'] show ?thesis by simp
next
  case (Watch_free a)
  with assms epoll_watch_free_effect [of a s s'] show ?thesis by simp
next
  case (Timeout_new tv cb d)
  with assms have "s' = snd (timeout_new tv cb d s)" by simp
  with Timeout_new timeout_new_frame [of s tv cb d] show ?thesis by simp
next
  case (Timeout_update a tv)
  with assms timeout_update_frame [of a tv s s'] show ?thesis by simp
next
  case (Timeout_free a)
  with assms timeout_free_frame [of a s s'] show ?thesis by simp
next
  case Stop
  with assms show ?thesis by (auto simp: same_frame_def)
qed

lemma kqueue_watch_update_frame:
  assumes "kqueue_watch_update a evs s = Inr s'"
  shows "same_frame s s' \<and> sk s' = sk s \<and> brk s' = brk s"
proof (cases "watch_heap s a")
  case None
  with assms show ?thesis by (simp add: kqueue_watch_update_def)
next
  case (Some w)
  with assms show ?thesis
    by (auto simp: kqueue_watch_update_def same_frame_def Let_def printf_def sk_upd_same
        split: if_splits prod.splits)
qed

lemma kqueue_watch_free_effect:
  assumes "kqueue_watch_free a s = Inr s'"
  shows "api_effect (Watch_free a) s s'"
proof (cases "watch_heap s a")
  case None
  with assms show ?thesis by (simp add: kqueue_watch_free_def)
next
  case (Some w)
  with assms obtain s1 where o: "orphan a s1 = Inr s'"
    and f: "trace s1 = trace s" "backend_fd s1 = backend_fd s" "brk s1 = brk s"
      "orphaned_watches s1 = orphaned_watches s" "sk s1 = sk s"
    by (auto simp: kqueue_watch_free_def Let_def printf_def split: if_splits prod.splits)
  from orphan_effect [OF o, unfolded f] show ?thesis
    unfolding api_effect.simps by blast
qed

lemma kqueue_watch_new_effect:
  assumes "kqueue_watch_new f evs cb c s = Inr (p, s')"
  shows "api_effect (Watch_new f evs cb c) s s'"
proof (cases s rule: malloc_cases)
  case fail
  with assms show ?thesis by (auto simp: kqueue_watch_new_def same_frame_def)
next
  case ok
  let ?s2 = "s\<lparr>malloc_faults := tl (malloc_faults s), brk := Suc (brk s),
               watch_heap := (watch_heap s)(brk s \<mapsto>
                 \<lparr>fd = f, callback = cb, mhd_data = c, deleted = False,
                  next = None, enable_read = False, enable_write = False\<rparr>)\<rparr>"
  from assms ok have "kqueue_watch_update (brk s) evs ?s2 = Inr s'"
    by (simp add: kqueue_watch_new_def split: sum.splits)
  from kqueue_watch_update_frame [OF this] show ?thesis
    by (simp add: same_frame_def skeleton_def)
qed

lemma kqueue_api_effect:
  assumes "kqueue_api c s = Inr s'"
  shows "api_effect c s s'"
proof (cases c)
  case (Watch_new f evs cb d)
  with assms show ?thesis
    by (auto split: sum.splits prod.splits dest: kqueue_watch_new_effect)
next
  case (Watch_update a evs)
  with assms kqueue_watch_update_frame [of a evs s s'] show ?thesis by simp
next
  case (Watch_free a)
  with assms kqueue_watch_free_effect [of a s s'] show ?thesis by simp
next
  case (Timeout_new tv cb d)
  with assms have "s' = snd (timeout_new tv cb d s)" by simp
  with Timeout_new timeout_new_frame [of s tv cb d] show ?thesis by simp
next
  case (Timeout_update a tv)
  with assms timeout_update_frame [of a tv s s'] show ?thesis by simp
next
  case (Timeout_free a)
  with assms timeout_free_frame [of a s s'] show ?thesis by simp
next
  case Stop
  with assms show ?thesis by (auto simp: same_frame_def)
qed

section \<open>The loop as a sequence of moves\<close>

text \<open>
  Everything the loop does before it frees the orphans is one of a few moves: the host
  makes a call, the callback of a live watch is called, a timeout callback is called
  (only in a sweep, \<open>tm\<close>), something is printed, or a wait is entered. A move leaves the
  watches, the list of orphans, the allocator and the descriptor alone (\<open>quiet\<close>)
  except through the call it makes.
\<close>

definition quiet :: "('a MHD_Watch_scheme, 'k) world \<Rightarrow> ('a MHD_Watch_scheme, 'k) world \<Rightarrow> bool"
  where
  "quiet s s' =
     (sk s' = sk s \<and> orphaned_watches s' = orphaned_watches s \<and> brk s' = brk s \<and>
      backend_fd s' = backend_fd s)"

inductive move ::
  "bool \<Rightarrow> ('a MHD_Watch_scheme, 'k) world \<Rightarrow> ('a MHD_Watch_scheme, 'k) world \<Rightarrow> bool"
  for tm where
    call: "quiet s s1 \<Longrightarrow> trace s1 = trace s @ [Call c] \<Longrightarrow> api_effect c s1 s' \<Longrightarrow> move tm s s'"
  | watch_cb:
      "sk s a = Some w \<Longrightarrow> \<not> deleted w \<Longrightarrow> quiet s s' \<Longrightarrow>
       trace s' = trace s @ [Watch_callback a (fd w) fl (mhd_data w)] \<Longrightarrow> move tm s s'"
  | timeout_cb:
      "tm \<Longrightarrow> quiet s s' \<Longrightarrow> trace s' = trace s @ [Timeout_callback a c] \<Longrightarrow> move tm s s'"
  | silent: "quiet s s' \<Longrightarrow> trace s' = trace s \<Longrightarrow> move tm s s'"
  | epoll_wait: "quiet s s' \<Longrightarrow> trace s' = trace s @ [Epoll_wait n] \<Longrightarrow> move tm s s'"
  | kevent_wait: "quiet s s' \<Longrightarrow> trace s' = trace s @ [Kevent_wait n m] \<Longrightarrow> move tm s s'"

abbreviation moves ::
  "bool \<Rightarrow> ('a MHD_Watch_scheme, 'k) world \<Rightarrow> ('a MHD_Watch_scheme, 'k) world \<Rightarrow> bool" where
  "moves tm \<equiv> (move tm)\<^sup>*\<^sup>*"

definition sound ::
  "(api_call \<Rightarrow> ('a MHD_Watch_scheme, 'k) world \<Rightarrow> fault + ('a MHD_Watch_scheme, 'k) world) \<Rightarrow> bool"
  where
  "sound X = (\<forall>c s s'. X c s = Inr s' \<longrightarrow> api_effect c s s')"

lemma sound_epoll: "sound epoll_api"
  by (simp add: sound_def epoll_api_effect)

lemma sound_kqueue: "sound kqueue_api"
  by (simp add: sound_def kqueue_api_effect)

lemma quiet_simps [simp]:
  "quiet s s"
  "quiet s (s\<lparr>trace := tr\<rparr>)"
  "quiet s (s\<lparr>out := ou\<rparr>)"
  "quiet s (s\<lparr>timeout_heap := th, trace := tr\<rparr>)"
  by (simp_all add: quiet_def)

lemma host_calls_moves:
  "sound X \<Longrightarrow> host_calls X cs s = Inr s' \<Longrightarrow> moves tm s s'"
proof (induction cs arbitrary: s)
  case Nil
  then show ?case by simp
next
  case (Cons c cs)
  from Cons.prems(2) obtain s1 where x: "X c (s\<lparr>trace := trace s @ [Call c]\<rparr>) = Inr s1"
    and r: "host_calls X cs s1 = Inr s'"
    by (auto split: sum.splits)
  from x Cons.prems(1) have "api_effect c (s\<lparr>trace := trace s @ [Call c]\<rparr>) s1"
    by (simp add: sound_def)
  then have "move tm s s1"
    by (rule move.call [rotated 2]) simp_all
  with Cons.IH [OF Cons.prems(1) r] show ?case
    by (rule converse_rtranclp_into_rtranclp [rotated])
qed

lemma dispatch_if_moves:
  assumes "sound X" and "dispatch_if X H p cond fl s = Inr s'"
  shows "moves tm s s'"
proof -
  from assms(2) obtain a w where p: "p = Some a" and w: "watch_heap s a = Some w"
    by (auto simp: dispatch_if_def split: option.splits)
  show ?thesis
  proof (cases "\<not> deleted w \<and> cond")
    case False
    with assms(2) p w show ?thesis by (auto simp: dispatch_if_def)
  next
    case True
    let ?s1 = "s\<lparr>trace := trace s @ [Watch_callback a (fd w) fl (mhd_data w)]\<rparr>"
    from True assms(2) p w
    have hc: "host_calls X (watch_cb H (callback w) a (fd w) fl (mhd_data w) ?s1) ?s1 = Inr s'"
      by (simp add: dispatch_if_def call_watch_callback_def Let_def)
    have "sk s a = Some (skeleton w)" using w by (simp add: sk_def)
    then have "move tm s ?s1"
      by (rule move.watch_cb [where fl = fl]) (use True in simp_all)
    with host_calls_moves [OF assms(1) hc, of tm] show ?thesis
      by (rule converse_rtranclp_into_rtranclp [rotated])
  qed
qed

lemma epoll_dispatch_moves:
  assumes "epoll_dispatch H ev s = Inr s'"
  shows "moves tm s s'"
proof -
  from assms obtain s1 where
    a: "dispatch_if epoll_api H (data_ptr ev) (ev_events ev AND EPOLLIN \<noteq> 0) MHD_WATCH_IN s
          = Inr s1"
    and b: "dispatch_if epoll_api H (data_ptr ev) (ev_events ev AND EPOLLOUT \<noteq> 0) MHD_WATCH_OUT s1
          = Inr s'"
    by (auto simp: epoll_dispatch_def split: sum.splits)
  from dispatch_if_moves [OF sound_epoll a, of tm] dispatch_if_moves [OF sound_epoll b, of tm]
  show ?thesis by (rule rtranclp_trans)
qed

lemma epoll_dispatch_all_moves:
  "epoll_dispatch_all H evs s = Inr s' \<Longrightarrow> moves tm s s'"
proof (induction evs arbitrary: s)
  case Nil
  then show ?case by simp
next
  case (Cons ev evs)
  then obtain s1 where a: "epoll_dispatch H ev s = Inr s1"
    and b: "epoll_dispatch_all H evs s1 = Inr s'"
    by (auto split: sum.splits)
  from epoll_dispatch_moves [OF a, of tm] Cons.IH [OF b] show ?case
    by (rule rtranclp_trans)
qed

lemma kqueue_dispatch_moves:
  assumes "kqueue_dispatch H ev s = Inr s'"
  shows "moves tm s s'"
proof (cases "kev_flags ev AND EV_ERROR \<noteq> 0")
  case True
  with assms have "s' = s\<lparr>out := out s @ [''kevent error'']\<rparr>"
    by (simp add: kqueue_dispatch_def printf_def)
  then have "move tm s s'" by (intro move.silent) simp_all
  then show ?thesis by (rule r_into_rtranclp)
next
  case False
  with assms obtain s1 where
    a: "dispatch_if kqueue_api H (kev_udata ev) (kev_filter ev = EVFILT_READ) MHD_WATCH_IN s
          = Inr s1"
    and b: "dispatch_if kqueue_api H (kev_udata ev) (kev_filter ev = EVFILT_WRITE) MHD_WATCH_OUT s1
          = Inr s'"
    by (auto simp: kqueue_dispatch_def split: sum.splits)
  from dispatch_if_moves [OF sound_kqueue a, of tm] dispatch_if_moves [OF sound_kqueue b, of tm]
  show ?thesis by (rule rtranclp_trans)
qed

lemma kqueue_dispatch_all_moves:
  "kqueue_dispatch_all H evs s = Inr s' \<Longrightarrow> moves tm s s'"
proof (induction evs arbitrary: s)
  case Nil
  then show ?case by simp
next
  case (Cons ev evs)
  then obtain s1 where a: "kqueue_dispatch H ev s = Inr s1"
    and b: "kqueue_dispatch_all H evs s1 = Inr s'"
    by (auto split: sum.splits)
  from kqueue_dispatch_moves [OF a, of tm] Cons.IH [OF b] show ?case
    by (rule rtranclp_trans)
qed

lemmas fire_timeouts_induct = fire_timeouts.raw_induct [rotated 1, consumes 1, case_names step]

lemma fire_timeouts_moves_aux:
  "fire_timeouts X H now p s = Some y \<Longrightarrow> sound X \<longrightarrow> (\<forall>s'. y = Inr s' \<longrightarrow> moves True s s')"
proof (induct rule: fire_timeouts_induct)
  case (step fire X H now p s y)
  note 1 = step
  show ?case
  proof (intro impI allI)
    fix s' assume snd: "sound X" and y: "y = Inr s'"
    show "moves True s s'"
    proof (cases p)
      case None
      with 1(2) y show ?thesis by simp
    next
      case (Some temp)
      show ?thesis
      proof (cases "timeout_heap s temp")
        case None
        with 1(2) Some y show ?thesis by simp
      next
        case (Some t)
        note t = this
        show ?thesis
        proof (cases "timercmp_lt (trigger_time t) now")
          case False
          with 1(2) \<open>p = Some temp\<close> t have "fire X H now (t_next t) s = Some y" by simp
          from 1(1) [OF this] snd y show ?thesis by simp
        next
          case True
          let ?s1 = "s\<lparr>timeout_heap := (timeout_heap s)(temp \<mapsto>
                          t\<lparr>trigger_time := \<lparr>tv_sec = 0, tv_usec = 0\<rparr>\<rparr>),
                        trace := trace s @ [Timeout_callback temp (t_mhd_data t)]\<rparr>"
          from True 1(2) \<open>p = Some temp\<close> t y obtain s2 where
            hc: "host_calls X (timeout_cb H (t_callback t) temp (t_mhd_data t) ?s1) ?s1 = Inr s2"
            and rec: "fire X H now (t_next t) s2 = Some y"
            by (auto split: sum.splits)
          have "move True s ?s1"
            by (rule move.timeout_cb [where a = temp and c = "t_mhd_data t"]) simp_all
          moreover have "moves True ?s1 s2" by (rule host_calls_moves [OF snd hc])
          moreover from 1(1) [OF rec] snd y have "moves True s2 s'" by simp
          ultimately show ?thesis by (meson converse_rtranclp_into_rtranclp rtranclp_trans)
        qed
      qed
    qed
  qed
qed

lemma fire_timeouts_moves:
  "sound X \<Longrightarrow> fire_timeouts X H now p s = Some (Inr s') \<Longrightarrow> moves True s s'"
  using fire_timeouts_moves_aux by blast

section \<open>The list of orphans\<close>

text \<open>
  \<open>path h p ps\<close>: following \<^verbatim>\<open>next\<close> from \<open>p\<close> visits the allocated watches \<open>ps\<close> and
  ends at \<^verbatim>\<open>NULL\<close>. \<open>orphans s ps\<close>: the list of orphans of \<open>s\<close> is \<open>ps\<close>, it holds
  exactly the tombstoned watches that are still allocated, live watches are unlinked, and
  every allocated address has been handed out by the allocator. \<open>doomed s\<close>: the list of
  orphans never reaches \<^verbatim>\<open>NULL\<close>, as after \<^verbatim>\<open>watch_free\<close> on a tombstoned watch; freeing
  such a list is undefined.
\<close>

fun path :: "(addr \<rightharpoonup> MHD_Watch) \<Rightarrow> ptr \<Rightarrow> addr list \<Rightarrow> bool" where
  "path h p [] = (p = None)"
| "path h p (a # as) =
     (p = Some a \<and> (case h a of None \<Rightarrow> False | Some w \<Rightarrow> path h (next w) as))"

definition closed :: "(addr \<rightharpoonup> MHD_Watch) \<Rightarrow> bool" where
  "closed h = (\<forall>a w b. h a = Some w \<longrightarrow> next w = Some b \<longrightarrow> h b \<noteq> None)"

definition orphans_sk ::
  "(addr \<rightharpoonup> MHD_Watch) \<Rightarrow> ptr \<Rightarrow> nat \<Rightarrow> addr list \<Rightarrow> bool" where
  "orphans_sk h p b ps =
     (path h p ps \<and>
      (\<forall>a w. h a = Some w \<longrightarrow> (deleted w \<longleftrightarrow> a \<in> set ps)) \<and>
      (\<forall>a w. h a = Some w \<longrightarrow> \<not> deleted w \<longrightarrow> next w = None) \<and>
      (\<forall>a w. h a = Some w \<longrightarrow> a < b))"

definition doomed_sk :: "(addr \<rightharpoonup> MHD_Watch) \<Rightarrow> ptr \<Rightarrow> nat \<Rightarrow> bool" where
  "doomed_sk h p b =
     ((\<forall>ps. \<not> path h p ps) \<and> closed h \<and> (\<exists>c. p = Some c \<and> h c \<noteq> None) \<and>
      (\<forall>a w. h a = Some w \<longrightarrow> a < b))"

definition orphans :: "('a MHD_Watch_scheme, 'k) world \<Rightarrow> addr list \<Rightarrow> bool" where
  "orphans s ps = orphans_sk (sk s) (orphaned_watches s) (brk s) ps"

definition doomed :: "('a MHD_Watch_scheme, 'k) world \<Rightarrow> bool" where
  "doomed s = doomed_sk (sk s) (orphaned_watches s) (brk s)"

definition reapable :: "('a MHD_Watch_scheme, 'k) world \<Rightarrow> bool" where
  "reapable s = ((\<exists>ps. orphans s ps) \<or> doomed s)"

lemma path_if_fold [simp]: "path (\<lambda>x. if x = b then v else h x) = path (h(b := v))"
  by (simp add: fun_upd_def)

lemma path_dom: "path h p ps \<Longrightarrow> a \<in> set ps \<Longrightarrow> h a \<noteq> None"
  by (induction ps arbitrary: p) (auto split: option.splits)

lemma path_upd_other: "a \<notin> set ps \<Longrightarrow> path (h(a := v)) p ps = path h p ps"
  by (induction ps arbitrary: p) (auto split: option.splits)

lemma path_unique: "path h p ps \<Longrightarrow> path h p qs \<Longrightarrow> ps = qs"
proof (induction ps arbitrary: p qs)
  case Nil
  then show ?case by (cases qs) auto
next
  case (Cons a as)
  then show ?case by (cases qs) (auto split: option.splits)
qed

lemma path_from_member:
  "path h p ps \<Longrightarrow> a \<in> set ps \<Longrightarrow> \<exists>qs. path h (Some a) qs \<and> length qs \<le> length ps"
proof (induction ps arbitrary: p)
  case Nil
  then show ?case by simp
next
  case (Cons x xs)
  show ?case
  proof (cases "x = a")
    case True
    with Cons.prems(1) have "path h (Some a) (x # xs)" by simp
    then show ?thesis by blast
  next
    case False
    with Cons.prems obtain w where "h x = Some w" "path h (next w) xs" "a \<in> set xs"
      by (auto split: option.splits)
    from Cons.IH [OF this(2,3)] show ?thesis by auto
  qed
qed

lemma path_distinct: "path h p ps \<Longrightarrow> distinct ps"
proof (induction ps arbitrary: p)
  case Nil
  then show ?case by simp
next
  case (Cons a as)
  then obtain w where w: "h a = Some w" and r: "path h (next w) as" and p: "p = Some a"
    by (auto split: option.splits)
  have "a \<notin> set as"
  proof
    assume "a \<in> set as"
    from path_from_member [OF r this] obtain qs where q: "path h (Some a) qs"
      and l: "length qs \<le> length as" by blast
    from Cons.prems p have "path h (Some a) (a # as)" by simp
    from path_unique [OF this q] l show False by auto
  qed
  with Cons.IH [OF r] show ?case by simp
qed

lemma path_closed_fresh:
  "closed h \<Longrightarrow> h b = None \<Longrightarrow> p = None \<or> (\<exists>c. p = Some c \<and> h c \<noteq> None) \<Longrightarrow>
   path (h(b \<mapsto> w)) p qs \<Longrightarrow> b \<notin> set qs"
proof (induction qs arbitrary: p)
  case Nil
  then show ?case by simp
next
  case (Cons a as)
  from Cons.prems(3,4) have pa: "p = Some a" and ha: "h a \<noteq> None" by auto
  with Cons.prems(2) have ab: "a \<noteq> b" by auto
  from ha obtain x where x: "h a = Some x" by auto
  with Cons.prems(4) ab have r: "path (h(b \<mapsto> w)) (next x) as" by simp
  from Cons.prems(1) x have "next x = None \<or> (\<exists>c. next x = Some c \<and> h c \<noteq> None)"
    by (cases "next x") (auto simp: closed_def)
  from Cons.IH [OF Cons.prems(1,2) this r] ab show ?case by simp
qed

lemma path_through_changed:
  "path h p ps \<Longrightarrow> a \<in> set ps \<Longrightarrow> path (h(a \<mapsto> w)) p qs \<Longrightarrow>
   \<exists>qs2. path (h(a \<mapsto> w)) (Some a) qs2 \<and> length qs2 \<le> length qs"
proof (induction ps arbitrary: p qs)
  case Nil
  then show ?case by simp
next
  case (Cons x xs)
  from Cons.prems(1) have p: "p = Some x" by simp
  show ?case
  proof (cases "x = a")
    case True
    with Cons.prems(3) p show ?thesis by auto
  next
    case False
    with Cons.prems(1,2) obtain v where v: "h x = Some v" and r: "path h (next v) xs"
      and m: "a \<in> set xs" by (auto split: option.splits)
    from Cons.prems(3) p False v obtain qs1 where q: "qs = x # qs1"
      and r': "path (h(a \<mapsto> w)) (next v) qs1"
      by (cases qs) auto
    from Cons.IH [OF r m r'] q show ?thesis by auto
  qed
qed

lemma sk_watch_heap: "sk s a = Some v \<Longrightarrow> \<exists>w. watch_heap s a = Some w \<and> v = skeleton w"
  by (auto simp: sk_def)

lemma sk_None: "sk s a = None \<longleftrightarrow> watch_heap s a = None"
  by (simp add: sk_def)

lemma quiet_reapable: "quiet s s' \<Longrightarrow> reapable s' = reapable s"
  by (simp add: reapable_def orphans_def doomed_def quiet_def)

lemma orphans_sk_closed: "orphans_sk h p b ps \<Longrightarrow> closed h"
proof -
  assume o: "orphans_sk h p b ps"
  have "\<And>p. path h p ps \<Longrightarrow> \<forall>a\<in>set ps. \<forall>w c. h a = Some w \<longrightarrow> next w = Some c \<longrightarrow> h c \<noteq> None"
  proof (induction ps)
    case Nil
    then show ?case by simp
  next
    case (Cons x xs)
    then obtain v where v: "h x = Some v" and r: "path h (next v) xs"
      by (auto split: option.splits)
    have "next v = Some c \<Longrightarrow> h c \<noteq> None" for c
      using r by (cases xs) (auto split: option.splits)
    with Cons.IH [OF r] v show ?case by auto
  qed
  with o show ?thesis
    unfolding closed_def orphans_sk_def by (metis option.distinct(1))
qed

lemma orphans_sk_grow: "orphans_sk h p b ps \<Longrightarrow> orphans_sk h p (Suc b) ps"
  unfolding orphans_sk_def by (meson less_Suc_eq)

lemma doomed_sk_grow: "doomed_sk h p b \<Longrightarrow> doomed_sk h p (Suc b)"
  by (auto simp: doomed_sk_def less_Suc_eq)

lemma orphans_sk_new:
  assumes "orphans_sk h p b ps" and "\<not> deleted nw" and "next nw = None"
  shows "orphans_sk (h(b \<mapsto> nw)) p (Suc b) ps"
proof -
  from assms(1) have hb: "h b = None"
    unfolding orphans_sk_def by (metis less_irrefl not_Some_eq)
  from assms(1) have pa: "path h p ps" by (simp add: orphans_sk_def)
  with hb have nb: "b \<notin> set ps" using path_dom by fastforce
  then have "path (h(b \<mapsto> nw)) p ps" using pa by (simp add: path_upd_other)
  with assms nb show ?thesis
    unfolding orphans_sk_def by (auto simp: less_Suc_eq)
qed

lemma doomed_sk_new:
  assumes "doomed_sk h p b" and "next nw = None"
  shows "doomed_sk (h(b \<mapsto> nw)) p (Suc b)"
proof -
  from assms(1) have hb: "h b = None"
    unfolding doomed_sk_def by (metis less_irrefl not_Some_eq)
  from assms(1) have cl: "closed h" and pc: "\<exists>c. p = Some c \<and> h c \<noteq> None"
    and np: "\<forall>ps. \<not> path h p ps" and bd: "\<forall>a w. h a = Some w \<longrightarrow> a < b"
    by (simp_all add: doomed_sk_def)
  have "\<not> path (h(b \<mapsto> nw)) p qs" for qs
  proof
    assume q: "path (h(b \<mapsto> nw)) p qs"
    from pc have "p = None \<or> (\<exists>c. p = Some c \<and> h c \<noteq> None)" by blast
    from path_closed_fresh [OF cl hb this q] have "b \<notin> set qs" .
    with q have "path h p qs" by (simp add: path_upd_other)
    with np show False by blast
  qed
  moreover have "closed (h(b \<mapsto> nw))"
    using cl assms(2) unfolding closed_def by auto
  moreover have "\<exists>c. p = Some c \<and> (h(b \<mapsto> nw)) c \<noteq> None"
    using pc by auto
  moreover have "\<forall>a w. (h(b \<mapsto> nw)) a = Some w \<longrightarrow> a < Suc b"
    using bd by (auto simp: less_Suc_eq)
  ultimately show ?thesis unfolding doomed_sk_def by blast
qed

lemma orphans_sk_free_live:
  assumes o: "orphans_sk h p b ps" and w: "h a = Some w" and a: "a \<notin> set ps"
  shows "orphans_sk (h(a \<mapsto> w\<lparr>deleted := True, next := (if p \<noteq> None then p else next w)\<rparr>))
           (Some a) b (a # ps)"
proof -
  from o w a have live: "\<not> deleted w" and nx: "next w = None"
    unfolding orphans_sk_def by blast+
  let ?w = "w\<lparr>deleted := True, next := (if p \<noteq> None then p else next w)\<rparr>"
  have np: "next ?w = p" using nx by auto
  from o have "path h p ps" by (simp add: orphans_sk_def)
  with a have "path (h(a \<mapsto> ?w)) p ps" by (simp add: path_upd_other)
  then have "path (h(a \<mapsto> ?w)) (Some a) (a # ps)" using np by simp
  moreover have "\<forall>x v. (h(a \<mapsto> ?w)) x = Some v \<longrightarrow> (deleted v \<longleftrightarrow> x \<in> set (a # ps))"
    using o unfolding orphans_sk_def by auto
  moreover have "\<forall>x v. (h(a \<mapsto> ?w)) x = Some v \<longrightarrow> \<not> deleted v \<longrightarrow> next v = None"
    using o unfolding orphans_sk_def by auto
  moreover have "\<forall>x v. (h(a \<mapsto> ?w)) x = Some v \<longrightarrow> x < b"
    using o w unfolding orphans_sk_def by auto
  ultimately show ?thesis unfolding orphans_sk_def by blast
qed

lemma doomed_sk_free_dead:
  assumes o: "orphans_sk h p b ps" and w: "h a = Some w" and a: "a \<in> set ps"
  shows "doomed_sk (h(a \<mapsto> w\<lparr>deleted := True, next := (if p \<noteq> None then p else next w)\<rparr>))
           (Some a) b"
proof -
  let ?w = "w\<lparr>deleted := True, next := (if p \<noteq> None then p else next w)\<rparr>"
  let ?h = "h(a \<mapsto> ?w)"
  from o have pa: "path h p ps" by (simp add: orphans_sk_def)
  with a obtain c where p: "p = Some c" by (cases ps) auto
  with pa have hc: "h c \<noteq> None" by (cases ps) (auto split: option.splits)
  have np: "next ?w = p" using p by simp
  have "\<not> path ?h (Some a) qs" for qs
  proof
    assume q: "path ?h (Some a) qs"
    then obtain qs1 where qs: "qs = a # qs1" and q1: "path ?h p qs1"
      using np by (cases qs) auto
    from path_through_changed [OF pa a q1] obtain qs2 where
      q2: "path ?h (Some a) qs2" and l: "length qs2 \<le> length qs1" by blast
    from path_unique [OF q q2] qs l show False by auto
  qed
  moreover have "closed ?h"
    using orphans_sk_closed [OF o] hc p unfolding closed_def by auto
  moreover have "\<forall>x v. ?h x = Some v \<longrightarrow> x < b"
    using o w unfolding orphans_sk_def by auto
  ultimately show ?thesis unfolding doomed_sk_def by auto
qed

lemma doomed_sk_free:
  assumes d: "doomed_sk h p b" and w: "h a = Some w"
  shows "doomed_sk (h(a \<mapsto> w\<lparr>deleted := True, next := (if p \<noteq> None then p else next w)\<rparr>))
           (Some a) b"
proof -
  let ?w = "w\<lparr>deleted := True, next := (if p \<noteq> None then p else next w)\<rparr>"
  let ?h = "h(a \<mapsto> ?w)"
  from d obtain c where p: "p = Some c" and hc: "h c \<noteq> None"
    by (auto simp: doomed_sk_def)
  have np: "next ?w = p" using p by simp
  have "\<not> path ?h (Some a) qs" for qs
  proof
    assume q: "path ?h (Some a) qs"
    then obtain qs1 where qs: "qs = a # qs1" and q1: "path ?h p qs1"
      using np by (cases qs) auto
    from path_distinct [OF q] qs have "a \<notin> set qs1" by simp
    with q1 have "path h p qs1" by (simp add: path_upd_other)
    with d show False by (simp add: doomed_sk_def)
  qed
  moreover have "closed ?h"
    using d hc p unfolding closed_def doomed_sk_def by auto
  moreover have "\<forall>x v. ?h x = Some v \<longrightarrow> x < b"
    using d w unfolding doomed_sk_def by auto
  ultimately show ?thesis unfolding doomed_sk_def by auto
qed

lemma api_effect_reapable:
  assumes e: "api_effect c s s'" and r: "reapable s"
  shows "reapable s'"
proof -
  have same: "reapable s'"
    if "sk s' = sk s" "orphaned_watches s' = orphaned_watches s" "brk s' = brk s"
    using that r by (simp add: reapable_def orphans_def doomed_def)
  have grow: "reapable s'"
    if "sk s' = sk s" "orphaned_watches s' = orphaned_watches s" "brk s' = Suc (brk s)"
    using that r orphans_sk_grow doomed_sk_grow
    unfolding reapable_def orphans_def doomed_def by metis
  show ?thesis
  proof (cases c)
    case (Watch_new f evs cb d)
    with e consider (none) "sk s' = sk s" "orphaned_watches s' = orphaned_watches s" "brk s' = brk s"
      | (new) "sk s' = (sk s)(brk s \<mapsto> \<lparr>fd = f, callback = cb, mhd_data = d, deleted = False,
                                         next = None\<rparr>)"
          "orphaned_watches s' = orphaned_watches s" "brk s' = Suc (brk s)"
      by (auto simp: same_frame_def)
    then show ?thesis
    proof cases
      case none
      then show ?thesis by (rule same)
    next
      case new
      from r show ?thesis
        unfolding reapable_def orphans_def doomed_def new
        using orphans_sk_new [where nw = "\<lparr>fd = f, callback = cb, mhd_data = d, deleted = False,
                                         next = None\<rparr>"]
          doomed_sk_new [where nw = "\<lparr>fd = f, callback = cb, mhd_data = d, deleted = False,
                                         next = None\<rparr>"]
        by (metis MHD_Watch.select_convs(4,5))
    qed
  next
    case (Watch_free a)
    with e obtain w where w: "sk s a = Some w"
      and h: "sk s' = (sk s)(a \<mapsto> w\<lparr>deleted := True,
                next := (if orphaned_watches s \<noteq> None then orphaned_watches s else next w)\<rparr>)"
      and o: "orphaned_watches s' = Some a" and b: "brk s' = brk s"
      by auto
    from r show ?thesis
    proof (unfold reapable_def, elim disjE exE)
      fix ps assume ops: "orphans s ps"
      show "(\<exists>ps. orphans s' ps) \<or> doomed s'"
      proof (cases "a \<in> set ps")
        case True
        from doomed_sk_free_dead [OF ops [unfolded orphans_def] w True]
        show ?thesis by (simp add: doomed_def h o b)
      next
        case False
        from orphans_sk_free_live [OF ops [unfolded orphans_def] w False]
        have "orphans s' (a # ps)" by (simp add: orphans_def h o b)
        then show ?thesis by blast
      qed
    next
      assume "doomed s"
      from doomed_sk_free [OF this [unfolded doomed_def] w]
      show "(\<exists>ps. orphans s' ps) \<or> doomed s'" by (simp add: doomed_def h o b)
    qed
  next
    case (Timeout_new tv cb d)
    with e show ?thesis using same grow by (auto simp: same_frame_def)
  next
    case (Watch_update a evs)
    with e show ?thesis using same by (auto simp: same_frame_def)
  next
    case (Timeout_update a tv)
    with e show ?thesis using same by (auto simp: same_frame_def)
  next
    case (Timeout_free a)
    with e show ?thesis using same by (auto simp: same_frame_def)
  next
    case Stop
    with e show ?thesis using same by (auto simp: same_frame_def)
  qed
qed

lemma move_reapable: "move tm s s' \<Longrightarrow> reapable s \<Longrightarrow> reapable s'"
proof (induction rule: move.induct)
  case (call s s1 c s')
  then show ?case using api_effect_reapable quiet_reapable by blast
qed (simp_all add: quiet_reapable)

lemma moves_reapable: "moves tm s s' \<Longrightarrow> reapable s \<Longrightarrow> reapable s'"
  by (induction rule: rtranclp_induct) (auto intro: move_reapable)

lemmas free_orphans_induct = free_orphans.raw_induct [rotated 1, consumes 1, case_names step]

lemma restrict_drop: "(h(a := None)) |` (- set ps) = h |` (- set (a # ps))"
  by (auto simp: restrict_map_def fun_eq_iff)

lemma free_orphans_path_aux:
  "free_orphans p s = Some y \<Longrightarrow>
   \<forall>s'. y = Inr s' \<longrightarrow>
     (\<exists>ps. path (sk s) p ps \<and> sk s' = sk s |` (- set ps) \<and> trace s' = trace s \<and>
           brk s' = brk s \<and> backend_fd s' = backend_fd s)"
proof (induct rule: free_orphans_induct)
  case (step free p s y)
  show ?case
  proof (intro allI impI)
    fix s' assume y: "y = Inr s'"
    show "\<exists>ps. path (sk s) p ps \<and> sk s' = sk s |` (- set ps) \<and> trace s' = trace s \<and>
           brk s' = brk s \<and> backend_fd s' = backend_fd s"
    proof (cases p)
      case None
      with step(2) y have "s' = s" by simp
      with None have "path (sk s) p [] \<and> sk s' = sk s |` (- set []) \<and> trace s' = trace s \<and>
           brk s' = brk s \<and> backend_fd s' = backend_fd s" by (simp add: restrict_map_def)
      then show ?thesis by blast
    next
      case (Some tmp)
      show ?thesis
      proof (cases "watch_heap s tmp")
        case None
        with step(2) Some y show ?thesis by simp
      next
        case (Some w)
        let ?s2 = "s\<lparr>watch_heap := (watch_heap s)(tmp := None)\<rparr>"
        from step(2) \<open>p = Some tmp\<close> Some have "free (next w) ?s2 = Some y" by simp
        from step(1) [OF this] y obtain ps where
          pa: "path (sk ?s2) (next w) ps" and sk': "sk s' = sk ?s2 |` (- set ps)"
          and fr0: "trace s' = trace ?s2" "brk s' = brk ?s2" "backend_fd s' = backend_fd ?s2"
          by blast
        from fr0 have fr: "trace s' = trace s" "brk s' = brk s" "backend_fd s' = backend_fd s"
          by simp_all
        have s2: "sk ?s2 = (sk s)(tmp := None)" by simp
        from pa have nt: "tmp \<notin> set ps"
          using path_dom [of "sk ?s2" "next w" ps tmp] by (auto simp: s2)
        with pa have "path (sk s) (next w) ps" by (simp add: s2 path_upd_other)
        moreover have "sk s tmp = Some (skeleton w)" using Some by (simp add: sk_def)
        ultimately have "path (sk s) p (tmp # ps)" using \<open>p = Some tmp\<close> by simp
        moreover have "sk s' = sk s |` (- set (tmp # ps))"
          using sk' by (simp only: s2 restrict_drop)
        ultimately show ?thesis using fr by blast
      qed
    qed
  qed
qed

lemma reap_result:
  assumes "reap s = Some (Inr s')"
  shows "\<exists>ps. path (sk s) (orphaned_watches s) ps \<and> sk s' = sk s |` (- set ps) \<and>
           orphaned_watches s' = None \<and> trace s' = trace s \<and> brk s' = brk s \<and>
           backend_fd s' = backend_fd s"
proof -
  from assms obtain s1 where f: "free_orphans (orphaned_watches s) s = Some (Inr s1)"
    and s': "s' = s1\<lparr>orphaned_watches := None\<rparr>"
    by (auto simp: reap_def split: option.splits sum.splits)
  from free_orphans_path_aux [OF f] s' show ?thesis by auto
qed

lemma reap_reapable:
  assumes r: "reapable s" and "reap s = Some (Inr s')"
  shows "orphans s' []"
proof -
  from reap_result [OF assms(2)] obtain ps where
    pa: "path (sk s) (orphaned_watches s) ps" and sk': "sk s' = sk s |` (- set ps)"
    and o: "orphaned_watches s' = None" and b: "brk s' = brk s"
    by blast
  from pa have "\<not> doomed s" by (auto simp: doomed_def doomed_sk_def)
  with r obtain qs where q: "orphans s qs" by (auto simp: reapable_def)
  then have "path (sk s) (orphaned_watches s) qs" by (simp add: orphans_def orphans_sk_def)
  from path_unique [OF this pa] q have ops: "orphans_sk (sk s) (orphaned_watches s) (brk s) ps"
    by (simp add: orphans_def)
  have "orphans_sk (sk s |` (- set ps)) None (brk s) []"
    using ops unfolding orphans_sk_def by (auto simp: restrict_map_def split: if_splits)
  then show ?thesis by (simp add: orphans_def sk' o b)
qed

lemma orphans_Nil:
  assumes "orphans s []"
  shows "orphaned_watches s = None \<and> (\<forall>a w. watch_heap s a = Some w \<longrightarrow> \<not> deleted w)"
proof (intro conjI allI impI)
  from assms show "orphaned_watches s = None" by (simp add: orphans_def orphans_sk_def)
next
  fix a w assume "watch_heap s a = Some w"
  then have "sk s a = Some (skeleton w)" by (simp add: sk_def)
  with assms have "\<not> deleted (skeleton w)"
    unfolding orphans_def orphans_sk_def by fastforce
  then show "\<not> deleted w" by simp
qed

lemma epoll_iteration_Failed:
  assumes "outcome tk = Failed e" and "epoll_iteration H tk s = Some (Inr (fl, s'))"
  shows "moves False s s' \<and> quiet s s' \<and> fl = (if e = EINTR then Next else Return (- 1)) \<and>
         kernel s' = kernel s \<and> watch_heap s' = watch_heap s"
proof -
  from assms obtain n where
    "s' = s\<lparr>trace := trace s @ [Epoll_wait n]\<rparr> \<or>
     s' = s\<lparr>trace := trace s @ [Epoll_wait n], out := out s @ [''epoll_wait() error'']\<rparr>"
    and fl: "fl = (if e = EINTR then Next else Return (- 1))"
    by (auto simp: epoll_iteration_def Let_def printf_def
        split: option.splits sum.splits if_splits)
  then have q: "quiet s s'" and t: "trace s' = trace s @ [Epoll_wait n]"
    and k: "kernel s' = kernel s \<and> watch_heap s' = watch_heap s"
    by (auto simp: quiet_def)
  then have "move False s s'" by (intro move.epoll_wait)
  with q fl k show ?thesis by blast
qed

lemma epoll_iteration_Ready:
  assumes "outcome tk = Ready evs" and "epoll_iteration H tk s = Some (Inr (fl, s'))"
  shows "fl = Next \<and> (\<exists>s1. moves (evs = []) s s1 \<and> reap s1 = Some (Inr s'))"
proof -
  from assms obtain found where
    "find_earliest (timeout_head s) None s = Some (Inr found)"
    by (auto simp: epoll_iteration_def split: option.splits sum.splits)
  let ?s1 = "s\<lparr>trace := trace s @ [Epoll_wait (epoll_ms_to_sleep found (now_before tk))]\<rparr>"
  from assms \<open>find_earliest (timeout_head s) None s = Some (Inr found)\<close>
  obtain s2 s3 where
    f: "(if take EVENT_SIZE evs = []
         then fire_timeouts epoll_api H (now_after tk) (timeout_head ?s1) ?s1
         else Some (Inr ?s1)) = Some (Inr s2)"
    and d: "epoll_dispatch_all H (take EVENT_SIZE evs) s2 = Inr s3"
    and r: "reap s3 = Some (Inr s')" and fl: "fl = Next"
    by (auto simp: epoll_iteration_def Let_def split: option.splits sum.splits)
  have e: "take EVENT_SIZE evs = [] \<longleftrightarrow> evs = []" by (simp add: EVENT_SIZE_def)
  have m1: "move (evs = []) s ?s1" by (rule move.epoll_wait) simp_all
  have m2: "moves (evs = []) ?s1 s2"
  proof (cases "evs = []")
    case True
    with f e have "fire_timeouts epoll_api H (now_after tk) (timeout_head ?s1) ?s1 = Some (Inr s2)"
      by simp
    from fire_timeouts_moves [OF sound_epoll this] True show ?thesis by simp
  next
    case False
    with f e show ?thesis by simp
  qed
  have m3: "moves (evs = []) s2 s3" by (rule epoll_dispatch_all_moves [OF d])
  from m1 m2 m3 have "moves (evs = []) s s3"
    by (meson converse_rtranclp_into_rtranclp rtranclp_trans)
  with r fl show ?thesis by blast
qed

lemma kqueue_iteration_Failed:
  assumes "outcome tk = Failed e" and "kqueue_iteration H tk s = Some (Inr (fl, s'))"
  shows "moves False s s' \<and> quiet s s' \<and> fl = (if e = EINTR then Next else Return (- 1)) \<and>
         kernel s' = kernel s \<and> watch_heap s' = watch_heap s"
proof -
  from assms obtain n m where
    "s' = s\<lparr>trace := trace s @ [Kevent_wait n m]\<rparr> \<or>
     s' = s\<lparr>trace := trace s @ [Kevent_wait n m], out := out s @ [''kevent() error'']\<rparr>"
    and fl: "fl = (if e = EINTR then Next else Return (- 1))"
    by (auto simp: kqueue_iteration_def Let_def printf_def
        split: option.splits sum.splits if_splits)
  then have q: "quiet s s'" and t: "trace s' = trace s @ [Kevent_wait n m]"
    and k: "kernel s' = kernel s \<and> watch_heap s' = watch_heap s"
    by (auto simp: quiet_def)
  then have "move False s s'" by (intro move.kevent_wait)
  with q fl k show ?thesis by blast
qed

lemma kqueue_iteration_Ready:
  assumes "outcome tk = Ready evs" and "kqueue_iteration H tk s = Some (Inr (fl, s'))"
  shows "fl = Next \<and> (\<exists>s1. moves (evs = []) s s1 \<and> reap s1 = Some (Inr s'))"
proof -
  from assms obtain found where
    "find_earliest (timeout_head s) None s = Some (Inr found)"
    by (auto simp: kqueue_iteration_def split: option.splits sum.splits)
  let ?s1 = "s\<lparr>trace := trace s @ [Kevent_wait (fst (kqueue_ts found (now_before tk)))
                                                  (snd (kqueue_ts found (now_before tk)))]\<rparr>"
  from assms \<open>find_earliest (timeout_head s) None s = Some (Inr found)\<close>
  obtain s2 s3 where
    f: "(if take EVENT_SET_SIZE evs = []
         then fire_timeouts kqueue_api H (now_after tk) (timeout_head ?s1) ?s1
         else Some (Inr ?s1)) = Some (Inr s2)"
    and d: "kqueue_dispatch_all H (take EVENT_SET_SIZE evs) s2 = Inr s3"
    and r: "reap s3 = Some (Inr s')" and fl: "fl = Next"
    by (auto simp: kqueue_iteration_def Let_def split: option.splits sum.splits)
  have e: "take EVENT_SET_SIZE evs = [] \<longleftrightarrow> evs = []" by (simp add: EVENT_SET_SIZE_def)
  have m1: "move (evs = []) s ?s1" by (rule move.kevent_wait) simp_all
  have m2: "moves (evs = []) ?s1 s2"
  proof (cases "evs = []")
    case True
    with f e have "fire_timeouts kqueue_api H (now_after tk) (timeout_head ?s1) ?s1 = Some (Inr s2)"
      by simp
    from fire_timeouts_moves [OF sound_kqueue this] True show ?thesis by simp
  next
    case False
    with f e show ?thesis by simp
  qed
  have m3: "moves (evs = []) s2 s3" by (rule kqueue_dispatch_all_moves [OF d])
  from m1 m2 m3 have "moves (evs = []) s s3"
    by (meson converse_rtranclp_into_rtranclp rtranclp_trans)
  with r fl show ?thesis by blast
qed

section \<open>Freeing the orphans\<close>

text \<open>One watch on descriptor 5, created and freed by the host before the loop runs.\<close>

definition epoll_one_orphan :: epoll_world where
  "epoll_one_orphan =
     (case host_calls epoll_api [Watch_new 5 {MHD_WATCH_IN} 1 2, Watch_free 0] epoll_world0 of
        Inr s \<Rightarrow> s | Inl e \<Rightarrow> epoll_world0)"

definition kqueue_one_orphan :: kqueue_world where
  "kqueue_one_orphan =
     (case host_calls kqueue_api [Watch_new 5 {MHD_WATCH_IN} 1 2, Watch_free 0] kqueue_world0 of
        Inr s \<Rightarrow> s | Inl e \<Rightarrow> kqueue_world0)"

lemmas watch_eval =
  epoll_watch_new_def epoll_watch_update_def epoll_watch_free_def epoll_ctl_def
  epoll_events_of_def EPOLLIN_def EPOLLOUT_def
  kqueue_watch_new_def kqueue_watch_update_def kqueue_watch_free_def kevent_apply_def
  EV_SET_def EV_ADD_def EV_DELETE_def EVFILT_READ_def EVFILT_WRITE_def
  orphan_def malloc_def printf_def

lemma epoll_one_orphan_eq:
  "epoll_one_orphan =
     \<lparr>backend_fd = 3, timeout_head = None, timeout_tail = None, orphaned_watches = Some 0,
      stop = False,
      watch_heap = [0 \<mapsto> \<lparr>fd = 5, callback = 1, mhd_data = 2, deleted = True, next = None,
                             events = 1\<rparr>],
      timeout_heap = Map.empty, brk = 1, malloc_faults = [],
      kernel = \<lparr>ep_closed = False, interest = Map.empty, ctl_faults = []\<rparr>,
      out = [], trace = [Call (Watch_new 5 {MHD_WATCH_IN} 1 2), Call (Watch_free 0)]\<rparr>"
  by (simp add: epoll_one_orphan_def epoll_world0_def watch_eval Let_def)

lemma kqueue_one_orphan_eq:
  "kqueue_one_orphan =
     \<lparr>backend_fd = 3, timeout_head = None, timeout_tail = None, orphaned_watches = Some 0,
      stop = False,
      watch_heap = [0 \<mapsto> \<lparr>fd = 5, callback = 1, mhd_data = 2, deleted = True, next = None,
                             enable_read = True, enable_write = False\<rparr>],
      timeout_heap = Map.empty, brk = 1, malloc_faults = [],
      kernel = \<lparr>kq_closed = False, filters = Map.empty, kev_faults = []\<rparr>,
      out = [], trace = [Call (Watch_new 5 {MHD_WATCH_IN} 1 2), Call (Watch_free 0)]\<rparr>"
  by (simp add: kqueue_one_orphan_def kqueue_world0_def watch_eval Let_def)

text \<open>
  C9, as the code has it. An iteration whose wait returns (with or without events) ends by
  freeing the orphans: from a state whose list of orphans holds exactly the tombstoned
  watches, whatever the callbacks and the host's calls do in between, a defined iteration
  leaves the list empty and no tombstoned watch allocated, in either backend. An iteration
  whose wait fails reaches neither the callbacks nor the freeing: \<^verbatim>\<open>continue\<close> and
  \<^verbatim>\<open>return\<close> leave the list of orphans and the watches as they were.
\<close>

theorem reap_after_iteration:
  "(orphans s ps \<and> outcome tk = Ready evs \<and> epoll_iteration H tk s = Some (Inr (fl, s')) \<longrightarrow>
      fl = Next \<and> orphans s' [] \<and> orphaned_watches s' = None \<and>
      (\<forall>a w. watch_heap s' a = Some w \<longrightarrow> \<not> deleted w)) \<and>
   (orphans k qs \<and> outcome tk' = Ready evs' \<and>
    kqueue_iteration H' tk' k = Some (Inr (fl', k')) \<longrightarrow>
      fl' = Next \<and> orphans k' [] \<and> orphaned_watches k' = None \<and>
      (\<forall>a w. watch_heap k' a = Some w \<longrightarrow> \<not> deleted w)) \<and>
   (outcome tk = Failed e \<and> epoll_iteration H tk s = Some (Inr (fl, s')) \<longrightarrow>
      orphaned_watches s' = orphaned_watches s \<and> watch_heap s' = watch_heap s) \<and>
   (outcome tk' = Failed e' \<and> kqueue_iteration H' tk' k = Some (Inr (fl', k')) \<longrightarrow>
      orphaned_watches k' = orphaned_watches k \<and> watch_heap k' = watch_heap k)"
proof (intro conjI impI)
  assume a: "orphans s ps \<and> outcome tk = Ready evs \<and>
             epoll_iteration H tk s = Some (Inr (fl, s'))"
  then have r: "reapable s" by (auto simp: reapable_def)
  from a epoll_iteration_Ready [of tk evs H s fl s'] obtain s1 where
    fl: "fl = Next" and m: "moves (evs = []) s s1" and rp: "reap s1 = Some (Inr s')"
    by blast
  from reap_reapable [OF moves_reapable [OF m r] rp] have o: "orphans s' []" .
  from fl show "fl = Next" .
  from o show "orphans s' []" .
  from orphans_Nil [OF o] show "orphaned_watches s' = None" by simp
  from orphans_Nil [OF o] show "\<forall>a w. watch_heap s' a = Some w \<longrightarrow> \<not> deleted w" by simp
next
  assume a: "orphans k qs \<and> outcome tk' = Ready evs' \<and>
             kqueue_iteration H' tk' k = Some (Inr (fl', k'))"
  then have r: "reapable k" by (auto simp: reapable_def)
  from a kqueue_iteration_Ready [of tk' evs' H' k fl' k'] obtain s1 where
    fl: "fl' = Next" and m: "moves (evs' = []) k s1" and rp: "reap s1 = Some (Inr k')"
    by blast
  from reap_reapable [OF moves_reapable [OF m r] rp] have o: "orphans k' []" .
  from fl show "fl' = Next" .
  from o show "orphans k' []" .
  from orphans_Nil [OF o] show "orphaned_watches k' = None" by simp
  from orphans_Nil [OF o] show "\<forall>a w. watch_heap k' a = Some w \<longrightarrow> \<not> deleted w" by simp
next
  assume a: "outcome tk = Failed e \<and> epoll_iteration H tk s = Some (Inr (fl, s'))"
  with epoll_iteration_Failed [of tk e H s fl s']
  show "orphaned_watches s' = orphaned_watches s" "watch_heap s' = watch_heap s"
    by (simp_all add: quiet_def)
next
  assume a: "outcome tk' = Failed e' \<and> kqueue_iteration H' tk' k = Some (Inr (fl', k'))"
  with kqueue_iteration_Failed [of tk' e' H' k fl' k']
  show "orphaned_watches k' = orphaned_watches k" "watch_heap k' = watch_heap k"
    by (simp_all add: quiet_def)
qed

text \<open>
  C9 as stated fails on an iteration interrupted by a signal: the watch freed before the
  loop is still on the list of orphans, allocated and tombstoned, when the iteration ends.
\<close>

theorem reap_skipped_counterexample:
  "map_option (map_sum id (\<lambda>(fl, s). (fl, orphaned_watches s, map_option deleted (watch_heap s 0))))
     (epoll_iteration quiet_host (failed_tick EINTR) epoll_one_orphan)
   = Some (Inr (Next, Some 0, Some True))
   \<and> map_option (map_sum id (\<lambda>(fl, s). (fl, orphaned_watches s, map_option deleted (watch_heap s 0))))
     (kqueue_iteration quiet_host (failed_tick EINTR) kqueue_one_orphan)
   = Some (Inr (Next, Some 0, Some True))"
  by (simp add: epoll_one_orphan_eq kqueue_one_orphan_eq loop_eval failed_tick_def quiet_host_def)

lemma orphans_one_epoll: "orphans epoll_one_orphan [0]"
  by (auto simp: orphans_def orphans_sk_def sk_def epoll_one_orphan_eq skeleton_def
      split: if_splits)

lemma orphans_one_kqueue: "orphans kqueue_one_orphan [0]"
  by (auto simp: orphans_def orphans_sk_def sk_def kqueue_one_orphan_eq skeleton_def
      split: if_splits)

lemma epoll_idle_iteration:
  "epoll_iteration quiet_host (idle_tick 1) epoll_one_orphan =
     Some (Inr (Next, epoll_one_orphan\<lparr>orphaned_watches := None, watch_heap := Map.empty,
                        trace := trace epoll_one_orphan @ [Epoll_wait 10000]\<rparr>))"
  by (simp add: epoll_one_orphan_eq loop_eval idle_tick_def quiet_host_def)

lemma kqueue_idle_iteration:
  "kqueue_iteration quiet_host (idle_tick 1) kqueue_one_orphan =
     Some (Inr (Next, kqueue_one_orphan\<lparr>orphaned_watches := None, watch_heap := Map.empty,
                        trace := trace kqueue_one_orphan @ [Kevent_wait 1 0]\<rparr>))"
  by (simp add: kqueue_one_orphan_eq loop_eval idle_tick_def quiet_host_def)

text \<open>The iteration without events on the same state: the orphan is freed.\<close>

theorem reap_after_iteration_witness:
  "orphans epoll_one_orphan [0] \<and>
   orphans (epoll_one_orphan\<lparr>orphaned_watches := None, watch_heap := Map.empty,
              trace := trace epoll_one_orphan @ [Epoll_wait 10000]\<rparr>) [] \<and>
   orphans kqueue_one_orphan [0] \<and>
   orphans (kqueue_one_orphan\<lparr>orphaned_watches := None, watch_heap := Map.empty,
              trace := trace kqueue_one_orphan @ [Kevent_wait 1 0]\<rparr>) []"
  using reap_after_iteration [of epoll_one_orphan "[0]" "idle_tick 1" "[]" quiet_host Next
      "epoll_one_orphan\<lparr>orphaned_watches := None, watch_heap := Map.empty,
              trace := trace epoll_one_orphan @ [Epoll_wait 10000]\<rparr>"
      kqueue_one_orphan "[0]" "idle_tick 1" "[]" quiet_host Next
      "kqueue_one_orphan\<lparr>orphaned_watches := None, watch_heap := Map.empty,
              trace := trace kqueue_one_orphan @ [Kevent_wait 1 0]\<rparr>" 0 0]
    orphans_one_epoll orphans_one_kqueue epoll_idle_iteration kqueue_idle_iteration
  by (simp add: idle_tick_def)

section \<open>When timeouts fire\<close>

lemma api_effect_trace: "api_effect c s s' \<Longrightarrow> trace s' = trace s"
  by (cases c) (auto simp: same_frame_def)

definition no_timeout_callback :: "nat \<Rightarrow> ('w, 'k) world \<Rightarrow> bool" where
  "no_timeout_callback n s =
     (n \<le> length (trace s) \<and> (\<forall>a c. Timeout_callback a c \<notin> set (drop n (trace s))))"

lemma move_no_timeout_callback:
  "move False s s' \<Longrightarrow> no_timeout_callback n s \<Longrightarrow> no_timeout_callback n s'"
proof (induction rule: move.induct)
  case (call s s1 c s')
  then show ?case by (auto simp: no_timeout_callback_def dest!: api_effect_trace)
qed (auto simp: no_timeout_callback_def)

lemma moves_no_timeout_callback:
  "moves False s s' \<Longrightarrow> no_timeout_callback n s \<Longrightarrow> no_timeout_callback n s'"
  by (induction rule: rtranclp_induct) (auto intro: move_no_timeout_callback)

lemma reap_trace: "reap s = Some (Inr s') \<Longrightarrow> trace s' = trace s"
  using reap_result by blast

text \<open>A timeout armed at second 5 and a watch on descriptor 5, and an iteration at
  second \<open>n\<close> whose wait returns the events \<open>evs\<close>.\<close>

definition epoll_busy :: epoll_world where
  "epoll_busy =
     (case host_calls epoll_api
             [Timeout_new \<lparr>tv_sec = 5, tv_usec = 0\<rparr> 7 8, Watch_new 5 {MHD_WATCH_IN} 1 2]
             epoll_world0 of
        Inr s \<Rightarrow> s | Inl e \<Rightarrow> epoll_world0)"

definition kqueue_busy :: kqueue_world where
  "kqueue_busy =
     (case host_calls kqueue_api
             [Timeout_new \<lparr>tv_sec = 5, tv_usec = 0\<rparr> 7 8, Watch_new 5 {MHD_WATCH_IN} 1 2]
             kqueue_world0 of
        Inr s \<Rightarrow> s | Inl e \<Rightarrow> kqueue_world0)"

definition ready_tick :: "int \<Rightarrow> 'e list \<Rightarrow> 'e tick" where
  "ready_tick n evs = \<lparr>now_before = \<lparr>tv_sec = n, tv_usec = 0\<rparr>, outcome = Ready evs,
                       now_after = \<lparr>tv_sec = n, tv_usec = 0\<rparr>\<rparr>"

text \<open>
  C7. In an iteration whose wait does not return zero events (it returns events, or
  fails), no timeout callback is among the actions of the iteration, whatever the trigger
  times are, in either backend.
\<close>

theorem timeouts_fire_only_when_idle:
  "(outcome tk \<noteq> Ready [] \<and> epoll_iteration H tk s = Some (Inr (fl, s')) \<longrightarrow>
      length (trace s) \<le> length (trace s') \<and>
      (\<forall>a c. Timeout_callback a c \<notin> set (drop (length (trace s)) (trace s')))) \<and>
   (outcome tk' \<noteq> Ready [] \<and> kqueue_iteration H' tk' k = Some (Inr (fl', k')) \<longrightarrow>
      length (trace k) \<le> length (trace k') \<and>
      (\<forall>a c. Timeout_callback a c \<notin> set (drop (length (trace k)) (trace k'))))"
proof (intro conjI impI)
  assume a: "outcome tk \<noteq> Ready [] \<and> epoll_iteration H tk s = Some (Inr (fl, s'))"
  have n0: "no_timeout_callback (length (trace s)) s" by (simp add: no_timeout_callback_def)
  have "no_timeout_callback (length (trace s)) s'"
  proof (cases "outcome tk")
    case (Failed e)
    with a epoll_iteration_Failed [of tk e H s fl s'] have "moves False s s'" by simp
    from moves_no_timeout_callback [OF this n0] show ?thesis .
  next
    case (Ready evs)
    with a have ne: "evs \<noteq> []" by simp
    from Ready a epoll_iteration_Ready [of tk evs H s fl s'] obtain s1 where
      m: "moves (evs = []) s s1" and r: "reap s1 = Some (Inr s')" by blast
    from m ne have "moves False s s1" by simp
    from moves_no_timeout_callback [OF this n0] reap_trace [OF r] show ?thesis
      by (simp add: no_timeout_callback_def)
  qed
  then show "length (trace s) \<le> length (trace s')"
    "\<forall>a c. Timeout_callback a c \<notin> set (drop (length (trace s)) (trace s'))"
    by (simp_all add: no_timeout_callback_def)
next
  assume a: "outcome tk' \<noteq> Ready [] \<and> kqueue_iteration H' tk' k = Some (Inr (fl', k'))"
  have n0: "no_timeout_callback (length (trace k)) k" by (simp add: no_timeout_callback_def)
  have "no_timeout_callback (length (trace k)) k'"
  proof (cases "outcome tk'")
    case (Failed e)
    with a kqueue_iteration_Failed [of tk' e H' k fl' k'] have "moves False k k'" by simp
    from moves_no_timeout_callback [OF this n0] show ?thesis .
  next
    case (Ready evs)
    with a have ne: "evs \<noteq> []" by simp
    from Ready a kqueue_iteration_Ready [of tk' evs H' k fl' k'] obtain s1 where
      m: "moves (evs = []) k s1" and r: "reap s1 = Some (Inr k')" by blast
    from m ne have "moves False k s1" by simp
    from moves_no_timeout_callback [OF this n0] reap_trace [OF r] show ?thesis
      by (simp add: no_timeout_callback_def)
  qed
  then show "length (trace k) \<le> length (trace k')"
    "\<forall>a c. Timeout_callback a c \<notin> set (drop (length (trace k)) (trace k'))"
    by (simp_all add: no_timeout_callback_def)
qed

lemma epoll_busy_iteration:
  "map_option (map_sum id (\<lambda>(fl, s). (fl, trace s, map_option trigger_time (timeout_heap s 0))))
     (epoll_iteration quiet_host
        (ready_tick 10 [\<lparr>ev_events = EPOLLIN, data_ptr = Some 1\<rparr>]) epoll_busy)
   = Some (Inr (Next,
        [Call (Timeout_new \<lparr>tv_sec = 5, tv_usec = 0\<rparr> 7 8),
         Call (Watch_new 5 {MHD_WATCH_IN} 1 2),
         Epoll_wait 0, Watch_callback 1 5 MHD_WATCH_IN 2],
        Some \<lparr>tv_sec = 5, tv_usec = 0\<rparr>))"
  by (simp add: epoll_busy_def epoll_world0_def watch_eval loop_eval Let_def ready_tick_def
      quiet_host_def dispatch_if_def call_watch_callback_def epoll_dispatch_def)

lemma kqueue_busy_iteration:
  "map_option (map_sum id (\<lambda>(fl, s). (fl, trace s, map_option trigger_time (timeout_heap s 0))))
     (kqueue_iteration quiet_host
        (ready_tick 10 [\<lparr>kev_ident = 5, kev_filter = EVFILT_READ, kev_flags = 0,
                         kev_fflags = 0, kev_data = 0, kev_udata = Some 1\<rparr>]) kqueue_busy)
   = Some (Inr (Next,
        [Call (Timeout_new \<lparr>tv_sec = 5, tv_usec = 0\<rparr> 7 8),
         Call (Watch_new 5 {MHD_WATCH_IN} 1 2),
         Kevent_wait 0 0, Watch_callback 1 5 MHD_WATCH_IN 2],
        Some \<lparr>tv_sec = 5, tv_usec = 0\<rparr>))"
  by (simp add: kqueue_busy_def kqueue_world0_def watch_eval loop_eval Let_def ready_tick_def
      quiet_host_def dispatch_if_def call_watch_callback_def kqueue_dispatch_def EV_ERROR_def)

text \<open>At second 10 the timeout armed at second 5 has expired; the wait returns one
  event, the watch's callback is called and the timeout stays armed and is not fired.\<close>

theorem timeouts_fire_only_when_idle_witness:
  "(\<exists>s'. epoll_iteration quiet_host
            (ready_tick 10 [\<lparr>ev_events = EPOLLIN, data_ptr = Some 1\<rparr>]) epoll_busy
          = Some (Inr (Next, s')) \<and>
         timercmp_lt \<lparr>tv_sec = 5, tv_usec = 0\<rparr> \<lparr>tv_sec = 10, tv_usec = 0\<rparr> \<and>
         map_option trigger_time (timeout_heap s' 0) = Some \<lparr>tv_sec = 5, tv_usec = 0\<rparr> \<and>
         Timeout_callback 0 8 \<notin> set (drop (length (trace epoll_busy)) (trace s'))) \<and>
   (\<exists>k'. kqueue_iteration quiet_host
            (ready_tick 10 [\<lparr>kev_ident = 5, kev_filter = EVFILT_READ, kev_flags = 0,
                             kev_fflags = 0, kev_data = 0, kev_udata = Some 1\<rparr>]) kqueue_busy
          = Some (Inr (Next, k')) \<and>
         map_option trigger_time (timeout_heap k' 0) = Some \<lparr>tv_sec = 5, tv_usec = 0\<rparr> \<and>
         Timeout_callback 0 8 \<notin> set (drop (length (trace kqueue_busy)) (trace k')))"
proof -
  let ?tk = "ready_tick 10 [\<lparr>ev_events = EPOLLIN, data_ptr = Some 1\<rparr>] :: epoll_event tick"
  let ?tk' = "ready_tick 10 [\<lparr>kev_ident = 5, kev_filter = EVFILT_READ, kev_flags = 0,
                             kev_fflags = 0, kev_data = 0, kev_udata = Some 1\<rparr>] :: kevent tick"
  from epoll_busy_iteration obtain s' where
    i: "epoll_iteration quiet_host ?tk epoll_busy = Some (Inr (Next, s'))"
    and t: "map_option trigger_time (timeout_heap s' 0) = Some \<lparr>tv_sec = 5, tv_usec = 0\<rparr>"
    by (cases "epoll_iteration quiet_host ?tk epoll_busy") (auto simp: map_sum_def split: sum.splits)
  from kqueue_busy_iteration obtain k' where
    i': "kqueue_iteration quiet_host ?tk' kqueue_busy = Some (Inr (Next, k'))"
    and t': "map_option trigger_time (timeout_heap k' 0) = Some \<lparr>tv_sec = 5, tv_usec = 0\<rparr>"
    by (cases "kqueue_iteration quiet_host ?tk' kqueue_busy") (auto simp: map_sum_def split: sum.splits)
  have o: "outcome ?tk \<noteq> Ready []" "outcome ?tk' \<noteq> Ready []"
    by (simp_all add: ready_tick_def)
  from timeouts_fire_only_when_idle [where tk = ?tk and H = quiet_host and s = epoll_busy
      and fl = Next and s' = s' and tk' = ?tk' and H' = quiet_host and k = kqueue_busy
      and fl' = Next and k' = k'] i i' o
  have "Timeout_callback 0 8 \<notin> set (drop (length (trace epoll_busy)) (trace s'))"
    "Timeout_callback 0 8 \<notin> set (drop (length (trace kqueue_busy)) (trace k'))"
    by blast+
  with i i' t t' show ?thesis by (simp add: timercmp_lt_def)
qed

section \<open>Entering the loop again\<close>

lemma api_effect_fd: "api_effect c s s' \<Longrightarrow> backend_fd s' = backend_fd s"
  by (cases c) (auto simp: same_frame_def)

lemma move_fd: "move tm s s' \<Longrightarrow> backend_fd s' = backend_fd s"
  by (induction rule: move.induct) (auto simp: quiet_def dest: api_effect_fd)

lemma moves_fd: "moves tm s s' \<Longrightarrow> backend_fd s' = backend_fd s"
  by (induction rule: rtranclp_induct) (auto dest: move_fd)

lemma epoll_iteration_fd:
  assumes "epoll_iteration H tk s = Some (Inr (fl, s'))"
  shows "backend_fd s' = backend_fd s \<and> (fl = Next \<or> fl = Return (- 1))"
proof (cases "outcome tk")
  case (Failed e)
  from epoll_iteration_Failed [OF this assms] show ?thesis by (simp add: quiet_def)
next
  case (Ready evs)
  from epoll_iteration_Ready [OF this assms] obtain s1 where
    "fl = Next" "moves (evs = []) s s1" "reap s1 = Some (Inr s')" by blast
  with moves_fd [of "evs = []" s s1] reap_result [of s1 s'] show ?thesis by auto
qed

lemma kqueue_iteration_fd:
  assumes "kqueue_iteration H tk s = Some (Inr (fl, s'))"
  shows "backend_fd s' = backend_fd s \<and> (fl = Next \<or> fl = Return (- 1))"
proof (cases "outcome tk")
  case (Failed e)
  from kqueue_iteration_Failed [OF this assms] show ?thesis by (simp add: quiet_def)
next
  case (Ready evs)
  from kqueue_iteration_Ready [OF this assms] obtain s1 where
    "fl = Next" "moves (evs = []) s s1" "reap s1 = Some (Inr s')" by blast
  with moves_fd [of "evs = []" s s1] reap_result [of s1 s'] show ?thesis by auto
qed

lemma epoll_while_result:
  "epoll_while H ticks s = Some (Inr (r, s')) \<Longrightarrow>
     (r = 0 \<and> backend_fd s' = - 1 \<and> ep_closed (kernel s')) \<or>
     (r = - 1 \<and> backend_fd s' = backend_fd s)"
proof (induction ticks arbitrary: s)
  case Nil
  then show ?case by (auto split: if_splits)
next
  case (Cons tk ticks)
  show ?case
  proof (cases "stop s")
    case True
    with Cons.prems show ?thesis by auto
  next
    case False
    with Cons.prems obtain fl s1 where i: "epoll_iteration H tk s = Some (Inr (fl, s1))"
      and rest: "(fl = Next \<and> epoll_while H ticks s1 = Some (Inr (r, s'))) \<or>
                 (fl = Return r \<and> s' = s1)"
      by (auto split: option.splits sum.splits flow.splits)
    from epoll_iteration_fd [OF i] rest Cons.IH [of s1] show ?thesis by auto
  qed
qed

lemma kqueue_while_result:
  "kqueue_while H ticks s = Some (Inr (r, s')) \<Longrightarrow>
     (r = 0 \<and> backend_fd s' = - 1 \<and> kq_closed (kernel s')) \<or>
     (r = - 1 \<and> backend_fd s' = backend_fd s)"
proof (induction ticks arbitrary: s)
  case Nil
  then show ?case by (auto split: if_splits)
next
  case (Cons tk ticks)
  show ?case
  proof (cases "stop s")
    case True
    with Cons.prems show ?thesis by auto
  next
    case False
    with Cons.prems obtain fl s1 where i: "kqueue_iteration H tk s = Some (Inr (fl, s1))"
      and rest: "(fl = Next \<and> kqueue_while H ticks s1 = Some (Inr (r, s'))) \<or>
                 (fl = Return r \<and> s' = s1)"
      by (auto split: option.splits sum.splits flow.splits)
    from kqueue_iteration_fd [OF i] rest Cons.IH [of s1] show ?thesis by auto
  qed
qed

text \<open>
  C10. When \<^verbatim>\<open>event_manager_loop\<close> has returned 0 the descriptor is closed and the event
  manager holds -1; whatever calls the host makes afterwards, every further
  \<^verbatim>\<open>event_manager_loop\<close> returns -1 at once: it clears \<^verbatim>\<open>stop\<close> and changes nothing
  else, so it neither waits nor calls a callback, whatever watches and timeouts exist.
\<close>

theorem loop_not_reenterable:
  "(epoll_event_manager_loop H ticks s = Some (Inr (0, s1)) \<and>
    host_calls epoll_api cs s1 = Inr s2 \<longrightarrow>
      backend_fd s1 = - 1 \<and> ep_closed (kernel s1) \<and>
      epoll_event_manager_loop H2 ticks2 s2 = Some (Inr (- 1, s2\<lparr>stop := False\<rparr>))) \<and>
   (kqueue_event_manager_loop H' ticks' k = Some (Inr (0, k1)) \<and>
    host_calls kqueue_api cs' k1 = Inr k2 \<longrightarrow>
      backend_fd k1 = - 1 \<and> kq_closed (kernel k1) \<and>
      kqueue_event_manager_loop H2' ticks2' k2 = Some (Inr (- 1, k2\<lparr>stop := False\<rparr>)))"
proof (intro conjI impI)
  assume a: "epoll_event_manager_loop H ticks s = Some (Inr (0, s1)) \<and>
             host_calls epoll_api cs s1 = Inr s2"
  then have "epoll_while H ticks (s\<lparr>stop := False\<rparr>) = Some (Inr (0, s1))"
    by (auto simp: epoll_event_manager_loop_def Let_def split: if_splits)
  from epoll_while_result [OF this] show fd: "backend_fd s1 = - 1" and "ep_closed (kernel s1)"
    by auto
  from a have "moves False s1 s2" by (auto intro: host_calls_moves [OF sound_epoll])
  from moves_fd [OF this] fd have "backend_fd s2 = - 1" by simp
  then show "epoll_event_manager_loop H2 ticks2 s2 = Some (Inr (- 1, s2\<lparr>stop := False\<rparr>))"
    by (simp add: epoll_event_manager_loop_def)
next
  assume a: "kqueue_event_manager_loop H' ticks' k = Some (Inr (0, k1)) \<and>
             host_calls kqueue_api cs' k1 = Inr k2"
  then have "kqueue_while H' ticks' (k\<lparr>stop := False\<rparr>) = Some (Inr (0, k1))"
    by (auto simp: kqueue_event_manager_loop_def Let_def split: if_splits)
  from kqueue_while_result [OF this] show fd: "backend_fd k1 = - 1" and "kq_closed (kernel k1)"
    by auto
  from a have "moves False k1 k2" by (auto intro: host_calls_moves [OF sound_kqueue])
  from moves_fd [OF this] fd have "backend_fd k2 = - 1" by simp
  then show "kqueue_event_manager_loop H2' ticks2' k2 = Some (Inr (- 1, k2\<lparr>stop := False\<rparr>))"
    by (simp add: kqueue_event_manager_loop_def)
qed

text \<open>A host whose watch callback stops the loop.\<close>

definition stopping_host :: "('w, 'k) host" where
  "stopping_host = \<lparr>watch_cb = (\<lambda>f a d e c s. [Stop]), timeout_cb = (\<lambda>f a c s. [])\<rparr>"

lemma epoll_busy_loop:
  "map_option (map_sum id (\<lambda>(r, s). (r, map_option fd (watch_heap s 1), timeout_head s)))
     (epoll_event_manager_loop stopping_host
        [ready_tick 1 [\<lparr>ev_events = EPOLLIN, data_ptr = Some 1\<rparr>]] epoll_busy)
   = Some (Inr (0, Some 5, Some 0))"
  by (simp add: epoll_busy_def epoll_world0_def watch_eval loop_eval Let_def ready_tick_def
      stopping_host_def dispatch_if_def call_watch_callback_def epoll_dispatch_def)

lemma kqueue_busy_loop:
  "map_option (map_sum id (\<lambda>(r, s). (r, map_option fd (watch_heap s 1), timeout_head s)))
     (kqueue_event_manager_loop stopping_host
        [ready_tick 1 [\<lparr>kev_ident = 5, kev_filter = EVFILT_READ, kev_flags = 0,
                        kev_fflags = 0, kev_data = 0, kev_udata = Some 1\<rparr>]] kqueue_busy)
   = Some (Inr (0, Some 5, Some 0))"
  by (simp add: kqueue_busy_def kqueue_world0_def watch_eval loop_eval Let_def ready_tick_def
      stopping_host_def dispatch_if_def call_watch_callback_def kqueue_dispatch_def EV_ERROR_def)

text \<open>A loop stopped from a callback, with a watch and a timeout still registered, and
  a second call of the loop.\<close>

theorem loop_not_reenterable_witness:
  "(\<exists>s1. epoll_event_manager_loop stopping_host
            [ready_tick 1 [\<lparr>ev_events = EPOLLIN, data_ptr = Some 1\<rparr>]] epoll_busy
          = Some (Inr (0, s1)) \<and>
         map_option fd (watch_heap s1 1) = Some 5 \<and> timeout_head s1 = Some 0 \<and>
         backend_fd s1 = - 1 \<and>
         epoll_event_manager_loop stopping_host
            [ready_tick 2 [\<lparr>ev_events = EPOLLIN, data_ptr = Some 1\<rparr>]] s1
          = Some (Inr (- 1, s1\<lparr>stop := False\<rparr>))) \<and>
   (\<exists>k1. kqueue_event_manager_loop stopping_host
            [ready_tick 1 [\<lparr>kev_ident = 5, kev_filter = EVFILT_READ, kev_flags = 0,
                            kev_fflags = 0, kev_data = 0, kev_udata = Some 1\<rparr>]] kqueue_busy
          = Some (Inr (0, k1)) \<and>
         map_option fd (watch_heap k1 1) = Some 5 \<and> timeout_head k1 = Some 0 \<and>
         backend_fd k1 = - 1 \<and>
         kqueue_event_manager_loop stopping_host
            [ready_tick 2 [\<lparr>kev_ident = 5, kev_filter = EVFILT_READ, kev_flags = 0,
                            kev_fflags = 0, kev_data = 0, kev_udata = Some 1\<rparr>]] k1
          = Some (Inr (- 1, k1\<lparr>stop := False\<rparr>)))"
proof -
  let ?t1 = "[ready_tick 1 [\<lparr>ev_events = EPOLLIN, data_ptr = Some 1\<rparr>]] :: epoll_event tick list"
  let ?t2 = "[ready_tick 2 [\<lparr>ev_events = EPOLLIN, data_ptr = Some 1\<rparr>]] :: epoll_event tick list"
  let ?u1 = "[ready_tick 1 [\<lparr>kev_ident = 5, kev_filter = EVFILT_READ, kev_flags = 0,
                 kev_fflags = 0, kev_data = 0, kev_udata = Some 1\<rparr>]] :: kevent tick list"
  let ?u2 = "[ready_tick 2 [\<lparr>kev_ident = 5, kev_filter = EVFILT_READ, kev_flags = 0,
                 kev_fflags = 0, kev_data = 0, kev_udata = Some 1\<rparr>]] :: kevent tick list"
  from epoll_busy_loop obtain s1 where
    l: "epoll_event_manager_loop stopping_host ?t1 epoll_busy = Some (Inr (0, s1))"
    and w: "map_option fd (watch_heap s1 1) = Some 5" "timeout_head s1 = Some 0"
    by (cases "epoll_event_manager_loop stopping_host ?t1 epoll_busy")
       (auto simp: map_sum_def split: sum.splits)
  from kqueue_busy_loop obtain k1 where
    l': "kqueue_event_manager_loop stopping_host ?u1 kqueue_busy = Some (Inr (0, k1))"
    and w': "map_option fd (watch_heap k1 1) = Some 5" "timeout_head k1 = Some 0"
    by (cases "kqueue_event_manager_loop stopping_host ?u1 kqueue_busy")
       (auto simp: map_sum_def split: sum.splits)
  have h: "host_calls epoll_api [] s1 = Inr s1" "host_calls kqueue_api [] k1 = Inr k1"
    by simp_all
  from loop_not_reenterable [where H = stopping_host and ticks = ?t1 and s = epoll_busy
      and ?s1.0 = s1 and cs = "[]" and ?s2.0 = s1 and ?H2.0 = stopping_host and ?ticks2.0 = ?t2
      and H' = stopping_host and ticks' = ?u1 and k = kqueue_busy
      and ?k1.0 = k1 and cs' = "[]" and ?k2.0 = k1 and H2' = stopping_host and ticks2' = ?u2]
    l l' h
  have "backend_fd s1 = - 1 \<and>
      epoll_event_manager_loop stopping_host ?t2 s1 = Some (Inr (- 1, s1\<lparr>stop := False\<rparr>))"
    "backend_fd k1 = - 1 \<and>
      kqueue_event_manager_loop stopping_host ?u2 k1 = Some (Inr (- 1, k1\<lparr>stop := False\<rparr>))"
    by blast+
  with l l' w w' show ?thesis by blast
qed

section \<open>No callback after a free\<close>

text \<open>
  \<open>gone s a\<close>: the watch at \<open>a\<close> is tombstoned, or \<open>a\<close> has been handed out and
  released. \<open>bounded s\<close>: every allocated watch sits at an address the allocator has
  handed out. \<open>no_callback_after_free F t\<close>: among the actions \<open>t\<close> there is no callback
  of a watch of \<open>F\<close>, and none of a watch after the call that frees it. \<open>tracked\<close> ties
  the actions since position \<open>n\<close> to the state: it holds along every move and across
  the freeing of the orphans. \<open>since s s'\<close> are the actions from \<open>s\<close> to \<open>s'\<close>.
\<close>

definition gone :: "('a MHD_Watch_scheme, 'k) world \<Rightarrow> addr \<Rightarrow> bool" where
  "gone s a =
     ((\<exists>w. watch_heap s a = Some w \<and> deleted w) \<or> (watch_heap s a = None \<and> a < brk s))"

definition bounded :: "('w, 'k) world \<Rightarrow> bool" where
  "bounded s = (\<forall>a w. watch_heap s a = Some w \<longrightarrow> a < brk s)"

definition freed :: "action list \<Rightarrow> addr set" where
  "freed t = {a. Call (Watch_free a) \<in> set t}"

definition no_callback_after_free :: "addr set \<Rightarrow> action list \<Rightarrow> bool" where
  "no_callback_after_free F t =
     ((\<forall>a f e c. a \<in> F \<longrightarrow> Watch_callback a f e c \<notin> set t) \<and>
      (\<forall>t1 t2 a f e c. t = t1 @ Call (Watch_free a) # t2 \<longrightarrow> Watch_callback a f e c \<notin> set t2))"

lemma no_callback_after_free_snoc:
  assumes "no_callback_after_free F t"
    and "\<And>a f e c. x = Watch_callback a f e c \<Longrightarrow> a \<notin> F \<and> a \<notin> freed t"
  shows "no_callback_after_free F (t @ [x])"
  unfolding no_callback_after_free_def
proof (intro conjI allI impI)
  fix a f e c assume "a \<in> F"
  with assms show "Watch_callback a f e c \<notin> set (t @ [x])"
    by (auto simp: no_callback_after_free_def)
next
  fix t1 t2 a f e c
  assume eq: "t @ [x] = t1 @ Call (Watch_free a) # t2"
  show "Watch_callback a f e c \<notin> set t2"
  proof (cases t2 rule: rev_cases)
    case Nil
    then show ?thesis by simp
  next
    case (snoc t2' y)
    with eq have t: "t = t1 @ Call (Watch_free a) # t2'" and y: "y = x" by auto
    from t have "a \<in> freed t" by (simp add: freed_def)
    with assms(2) have "x \<noteq> Watch_callback a f e c" by blast
    moreover from assms(1) t have "Watch_callback a f e c \<notin> set t2'"
      unfolding no_callback_after_free_def by blast
    ultimately show ?thesis using snoc y by auto
  qed
qed

lemma freed_snoc: "freed (t @ [x]) = freed t \<union> (case x of Call (Watch_free a) \<Rightarrow> {a} | _ \<Rightarrow> {})"
  by (auto simp: freed_def split: action.splits api_call.splits)

definition tracked :: "nat \<Rightarrow> addr set \<Rightarrow> ('a MHD_Watch_scheme, 'k) world \<Rightarrow> bool" where
  "tracked n F s =
     (n \<le> length (trace s) \<and> bounded s \<and>
      (\<forall>a. a \<in> F \<or> a \<in> freed (drop n (trace s)) \<longrightarrow> gone s a) \<and>
      no_callback_after_free F (drop n (trace s)))"

lemma gone_sk:
  "gone s a = ((\<exists>w. sk s a = Some w \<and> deleted w) \<or> (sk s a = None \<and> a < brk s))"
  by (auto simp: gone_def sk_def)

lemma bounded_sk: "bounded s = (\<forall>a w. sk s a = Some w \<longrightarrow> a < brk s)"
  by (auto simp: bounded_def sk_def)

lemma quiet_gone: "quiet s s' \<Longrightarrow> gone s' a = gone s a"
  by (simp add: gone_sk quiet_def)

lemma quiet_bounded: "quiet s s' \<Longrightarrow> bounded s' = bounded s"
  by (simp add: bounded_sk quiet_def)

lemma api_effect_bounded: "api_effect c s s' \<Longrightarrow> bounded s \<Longrightarrow> bounded s'"
  by (cases c) (auto simp: bounded_sk same_frame_def less_Suc_eq split: if_splits)

lemma api_effect_gone: "api_effect c s s' \<Longrightarrow> bounded s \<Longrightarrow> gone s a \<Longrightarrow> gone s' a"
  by (cases c)
     (auto simp: gone_sk bounded_sk same_frame_def less_Suc_eq split: option.splits if_splits)

lemma api_effect_free_gone: "api_effect (Watch_free a) s s' \<Longrightarrow> gone s' a"
  by (auto simp: gone_sk)

lemma tracked_snoc:
  assumes t: "tracked n F s" and q: "quiet s s'" and tr: "trace s' = trace s @ [x]"
    and x: "\<And>a f e c. x = Watch_callback a f e c \<Longrightarrow> \<not> gone s a"
    and nf: "\<And>a. x \<noteq> Call (Watch_free a)"
  shows "tracked n F s'"
proof -
  from t have n: "n \<le> length (trace s)" by (simp add: tracked_def)
  then have d: "drop n (trace s') = drop n (trace s) @ [x]" by (simp add: tr)
  have f: "freed (drop n (trace s) @ [x]) = freed (drop n (trace s))"
    using nf by (auto simp: freed_snoc split: action.splits api_call.splits)
  have "no_callback_after_free F (drop n (trace s) @ [x])"
  proof (rule no_callback_after_free_snoc)
    from t show "no_callback_after_free F (drop n (trace s))" by (simp add: tracked_def)
  next
    fix a f e c assume "x = Watch_callback a f e c"
    from x [OF this] t show "a \<notin> F \<and> a \<notin> freed (drop n (trace s))"
      by (auto simp: tracked_def)
  qed
  with t n show ?thesis
    by (simp add: tracked_def d f quiet_gone [OF q] quiet_bounded [OF q] tr)
qed

lemma tracked_call:
  assumes t: "tracked n F s" and q: "quiet s s1" and tr: "trace s1 = trace s @ [Call c]"
    and e: "api_effect c s1 s'"
  shows "tracked n F s'"
proof -
  from t have n: "n \<le> length (trace s)" and b: "bounded s" by (simp_all add: tracked_def)
  from e have tr': "trace s' = trace s @ [Call c]" using tr by (simp add: api_effect_trace)
  then have d: "drop n (trace s') = drop n (trace s) @ [Call c]" using n by simp
  from b q have b1: "bounded s1" by (simp add: quiet_bounded)
  have g: "gone s' a" if "a \<in> F \<or> a \<in> freed (drop n (trace s) @ [Call c])" for a
  proof (cases "a \<in> F \<or> a \<in> freed (drop n (trace s))")
    case True
    with t have "gone s a" by (auto simp: tracked_def)
    then have "gone s1 a" by (simp add: quiet_gone [OF q])
    from api_effect_gone [OF e b1 this] show ?thesis .
  next
    case False
    with that have "c = Watch_free a"
      by (auto simp: freed_snoc split: api_call.splits)
    with e show ?thesis using api_effect_free_gone by blast
  qed
  have "no_callback_after_free F (drop n (trace s) @ [Call c])"
    by (rule no_callback_after_free_snoc) (use t in \<open>simp_all add: tracked_def\<close>)
  with g n api_effect_bounded [OF e b1] show ?thesis
    by (simp add: tracked_def d tr')
qed

lemma move_tracked: "move tm s s' \<Longrightarrow> tracked n F s \<Longrightarrow> tracked n F s'"
proof (induction rule: move.induct)
  case (call s s1 c s')
  from call.prems call.hyps show ?case by (rule tracked_call)
next
  case (watch_cb s a w s' fl)
  from watch_cb.hyps(1,2) have g: "\<not> gone s a" by (simp add: gone_sk)
  show ?case
  proof (rule tracked_snoc [OF watch_cb.prems watch_cb.hyps(3,4)])
    fix a' f e c assume "Watch_callback a (fd w) fl (mhd_data w) = Watch_callback a' f e c"
    with g show "\<not> gone s a'" by simp
  qed simp
next
  case (timeout_cb s s' a c)
  show ?case
    by (rule tracked_snoc [OF timeout_cb.prems timeout_cb.hyps(2,3)]) simp_all
next
  case (silent s s')
  then show ?case
    by (simp add: tracked_def quiet_gone quiet_bounded)
next
  case (epoll_wait s s' n)
  show ?case
    by (rule tracked_snoc [OF epoll_wait.prems epoll_wait.hyps]) simp_all
next
  case (kevent_wait s s' n m)
  show ?case
    by (rule tracked_snoc [OF kevent_wait.prems kevent_wait.hyps]) simp_all
qed

lemma moves_tracked: "moves tm s s' \<Longrightarrow> tracked n F s \<Longrightarrow> tracked n F s'"
  by (induction rule: rtranclp_induct) (auto intro: move_tracked)

lemma reap_tracked:
  assumes "reap s = Some (Inr s')" and t: "tracked n F s"
  shows "tracked n F s'"
proof -
  from reap_result [OF assms(1)] obtain ps where
    sk': "sk s' = sk s |` (- set ps)" and tr: "trace s' = trace s" and b: "brk s' = brk s"
    by blast
  from t have bd: "\<forall>a w. sk s a = Some w \<longrightarrow> a < brk s" by (simp add: tracked_def bounded_sk)
  have sub: "sk s' a = Some w \<Longrightarrow> sk s a = Some w" for a w
    by (simp add: sk' restrict_map_def split: if_splits)
  have g: "gone s' a" if "gone s a" for a
  proof (cases "sk s' a")
    case None
    from that bd have "a < brk s" by (auto simp: gone_sk)
    with None show ?thesis by (simp add: gone_sk b)
  next
    case (Some w)
    from sub [OF this] that Some show ?thesis by (auto simp: gone_sk)
  qed
  have "bounded s'" using bd sub by (auto simp: bounded_sk b)
  with t g show ?thesis by (simp add: tracked_def tr)
qed

lemma epoll_iteration_tracked:
  assumes "epoll_iteration H tk s = Some (Inr (fl, s'))" and t: "tracked n F s"
  shows "tracked n F s'"
proof (cases "outcome tk")
  case (Failed e)
  from epoll_iteration_Failed [OF this assms(1)] have "moves False s s'" by simp
  from moves_tracked [OF this t] show ?thesis .
next
  case (Ready evs)
  from epoll_iteration_Ready [OF this assms(1)] obtain s1 where
    m: "moves (evs = []) s s1" and r: "reap s1 = Some (Inr s')" by blast
  from reap_tracked [OF r moves_tracked [OF m t]] show ?thesis .
qed

lemma kqueue_iteration_tracked:
  assumes "kqueue_iteration H tk s = Some (Inr (fl, s'))" and t: "tracked n F s"
  shows "tracked n F s'"
proof (cases "outcome tk")
  case (Failed e)
  from kqueue_iteration_Failed [OF this assms(1)] have "moves False s s'" by simp
  from moves_tracked [OF this t] show ?thesis .
next
  case (Ready evs)
  from kqueue_iteration_Ready [OF this assms(1)] obtain s1 where
    m: "moves (evs = []) s s1" and r: "reap s1 = Some (Inr s')" by blast
  from reap_tracked [OF r moves_tracked [OF m t]] show ?thesis .
qed

lemma tracked_frame:
  "tracked n F s \<Longrightarrow> tracked n F (s\<lparr>kernel := k, backend_fd := e\<rparr>)"
  "tracked n F s \<Longrightarrow> tracked n F (s\<lparr>stop := b\<rparr>)"
  by (simp_all add: tracked_def bounded_def gone_def)

lemma epoll_while_tracked:
  "epoll_while H ticks s = Some (Inr (r, s')) \<Longrightarrow> tracked n F s \<Longrightarrow> tracked n F s'"
proof (induction ticks arbitrary: s)
  case Nil
  then show ?case by (auto split: if_splits intro: tracked_frame)
next
  case (Cons tk ticks)
  show ?case
  proof (cases "stop s")
    case True
    with Cons.prems show ?thesis by (auto intro: tracked_frame)
  next
    case False
    with Cons.prems obtain fl s1 where i: "epoll_iteration H tk s = Some (Inr (fl, s1))"
      and rest: "(fl = Next \<and> epoll_while H ticks s1 = Some (Inr (r, s'))) \<or>
                 (fl = Return r \<and> s' = s1)"
      by (auto split: option.splits sum.splits flow.splits)
    from epoll_iteration_tracked [OF i Cons.prems(2)] rest Cons.IH [of s1] show ?thesis by auto
  qed
qed

lemma kqueue_while_tracked:
  "kqueue_while H ticks s = Some (Inr (r, s')) \<Longrightarrow> tracked n F s \<Longrightarrow> tracked n F s'"
proof (induction ticks arbitrary: s)
  case Nil
  then show ?case by (auto split: if_splits intro: tracked_frame)
next
  case (Cons tk ticks)
  show ?case
  proof (cases "stop s")
    case True
    with Cons.prems show ?thesis by (auto intro: tracked_frame)
  next
    case False
    with Cons.prems obtain fl s1 where i: "kqueue_iteration H tk s = Some (Inr (fl, s1))"
      and rest: "(fl = Next \<and> kqueue_while H ticks s1 = Some (Inr (r, s'))) \<or>
                 (fl = Return r \<and> s' = s1)"
      by (auto split: option.splits sum.splits flow.splits)
    from kqueue_iteration_tracked [OF i Cons.prems(2)] rest Cons.IH [of s1] show ?thesis by auto
  qed
qed

lemma tracked_start: "bounded s \<Longrightarrow> tracked (length (trace s)) {a. gone s a} s"
  by (simp add: tracked_def no_callback_after_free_def freed_def)

lemma epoll_loop_tracked:
  assumes "bounded s" and "epoll_event_manager_loop H ticks s = Some (Inr (r, s'))"
  shows "tracked (length (trace s)) {a. gone s a} s'"
proof -
  let ?s0 = "s\<lparr>stop := False\<rparr>"
  have t0: "tracked (length (trace s)) {a. gone s a} ?s0"
    by (rule tracked_frame) (rule tracked_start [OF assms(1)])
  show ?thesis
  proof (cases "backend_fd s < 0")
    case True
    with assms(2) t0 show ?thesis by (simp add: epoll_event_manager_loop_def)
  next
    case False
    with assms(2) have "epoll_while H ticks ?s0 = Some (Inr (r, s'))"
      by (simp add: epoll_event_manager_loop_def)
    from epoll_while_tracked [OF this t0] show ?thesis .
  qed
qed

lemma kqueue_loop_tracked:
  assumes "bounded s" and "kqueue_event_manager_loop H ticks s = Some (Inr (r, s'))"
  shows "tracked (length (trace s)) {a. gone s a} s'"
proof -
  let ?s0 = "s\<lparr>stop := False\<rparr>"
  have t0: "tracked (length (trace s)) {a. gone s a} ?s0"
    by (rule tracked_frame) (rule tracked_start [OF assms(1)])
  show ?thesis
  proof (cases "backend_fd s < 0")
    case True
    with assms(2) t0 show ?thesis by (simp add: kqueue_event_manager_loop_def)
  next
    case False
    with assms(2) have "kqueue_while H ticks ?s0 = Some (Inr (r, s'))"
      by (simp add: kqueue_event_manager_loop_def)
    from kqueue_while_tracked [OF this t0] show ?thesis .
  qed
qed

definition since :: "('w, 'k) world \<Rightarrow> ('w, 'k) world \<Rightarrow> action list" where
  "since s s' = drop (length (trace s)) (trace s')"

text \<open>
  An event whose cookie points to a tombstone: the watch is read, neither callback is
  called, and nothing changes (\<^verbatim>\<open>kevent\<close> errors are printed before the watch is read).
\<close>

lemma epoll_dispatch_tombstone:
  assumes "watch_heap s a = Some w" "deleted w" "data_ptr ev = Some a"
  shows "epoll_dispatch H ev s = Inr s"
  using assms by (simp add: epoll_dispatch_def dispatch_if_def)

lemma kqueue_dispatch_tombstone:
  assumes "watch_heap s a = Some w" "deleted w" "kev_udata ev = Some a"
  shows "kqueue_dispatch H ev s =
           Inr (if kev_flags ev AND EV_ERROR \<noteq> 0 then printf ''kevent error'' s else s)"
  using assms by (simp add: kqueue_dispatch_def dispatch_if_def)

text \<open>
  Nothing the dispatch does releases a watch: a cookie that points to an allocated watch
  when the dispatch begins points to one throughout.
\<close>

lemma api_effect_persist:
  assumes e: "api_effect c s s'" and b: "bounded s" and w: "watch_heap s a \<noteq> None"
  shows "watch_heap s' a \<noteq> None"
proof -
  from w obtain v where sa: "sk s a = Some v" by (auto simp: sk_def)
  with b have lt: "a < brk s" by (auto simp: bounded_sk)
  have "sk s' a \<noteq> None"
  proof (cases c)
    case (Watch_new f evs cb d)
    with e sa lt show ?thesis by (auto simp: same_frame_def)
  next
    case (Watch_free x)
    with e sa show ?thesis by (cases "x = a") auto
  qed (use e sa in \<open>auto simp: same_frame_def\<close>)
  then show ?thesis by (simp add: sk_None)
qed

lemma quiet_persist: "quiet s s' \<Longrightarrow> watch_heap s a \<noteq> None \<Longrightarrow> watch_heap s' a \<noteq> None"
  by (simp add: quiet_def sk_None [symmetric])

lemma quiet_keeps:
  "quiet s s' \<Longrightarrow> bounded s \<Longrightarrow>
   bounded s' \<and> (watch_heap s a \<noteq> None \<longrightarrow> watch_heap s' a \<noteq> None)"
  by (simp add: quiet_bounded quiet_persist)

lemma move_persist:
  assumes "move tm s s'" and "bounded s"
  shows "bounded s' \<and> (watch_heap s a \<noteq> None \<longrightarrow> watch_heap s' a \<noteq> None)"
  using assms
proof (cases rule: move.cases)
  case (call s1 c)
  from call(1) assms(2) have b1: "bounded s1" by (simp add: quiet_bounded)
  from api_effect_bounded [OF call(3) b1] api_effect_persist [OF call(3) b1, of a]
    quiet_persist [OF call(1), of a]
  show ?thesis by blast
qed (rule quiet_keeps, assumption, rule assms(2))+

lemma moves_persist:
  "moves tm s s' \<Longrightarrow> bounded s \<Longrightarrow>
   bounded s' \<and> (watch_heap s a \<noteq> None \<longrightarrow> watch_heap s' a \<noteq> None)"
proof (induction rule: rtranclp_induct)
  case base
  then show ?case by simp
next
  case (step y z)
  from step.IH [OF step.prems] move_persist [OF step.hyps(2), of a] show ?case by blast
qed

text \<open>
  The only undefined behaviour in the dispatch of such events is inside a callback, which
  is called on a watch that is not tombstoned. \<open>callback_fault X H s s1\<close>: in \<open>s1\<close> the
  callback of a watch that is allocated, not tombstoned and not freed since \<open>s\<close> has
  undefined behaviour.
\<close>

lemma dispatch_if_cases:
  assumes X: "sound X" and w: "watch_heap s a = Some w"
  shows "(\<exists>s'. dispatch_if X H (Some a) cond fl s = Inr s' \<and> moves tm s s') \<or>
         (dispatch_if X H (Some a) cond fl s = Inl Wild_pointer \<and> \<not> deleted w \<and>
          call_watch_callback X H a w fl s = Inl Wild_pointer)"
proof (cases "dispatch_if X H (Some a) cond fl s")
  case (Inr s')
  with dispatch_if_moves [OF X Inr, of tm] show ?thesis by simp
next
  case (Inl e)
  have e: "e = Wild_pointer" by (cases e) simp
  from Inl w have "\<not> deleted w \<and> call_watch_callback X H a w fl s = Inl e"
    by (auto simp: dispatch_if_def split: if_splits)
  with Inl e show ?thesis by simp
qed

definition callback_fault ::
  "(api_call \<Rightarrow> ('a MHD_Watch_scheme, 'k) world \<Rightarrow> fault + ('a MHD_Watch_scheme, 'k) world) \<Rightarrow>
   ('a MHD_Watch_scheme, 'k) host \<Rightarrow> ('a MHD_Watch_scheme, 'k) world \<Rightarrow>
   ('a MHD_Watch_scheme, 'k) world \<Rightarrow> bool" where
  "callback_fault X H s s1 =
     (\<exists>a w fl. watch_heap s1 a = Some w \<and> \<not> deleted w \<and> a \<notin> freed (since s s1) \<and>
        call_watch_callback X H a w fl s1 = Inl Wild_pointer)"

lemma epoll_dispatch_cases:
  assumes b: "bounded s" and p: "data_ptr ev = Some a" and w: "watch_heap s a \<noteq> None"
  shows "(\<exists>s'. epoll_dispatch H ev s = Inr s' \<and> moves False s s') \<or>
         (\<exists>s1 v fl. epoll_dispatch H ev s = Inl Wild_pointer \<and> moves False s s1 \<and>
            watch_heap s1 a = Some v \<and> \<not> deleted v \<and>
            call_watch_callback epoll_api H a v fl s1 = Inl Wild_pointer)"
proof -
  from w obtain v where v: "watch_heap s a = Some v" by auto
  from dispatch_if_cases [OF sound_epoll v, of H "ev_events ev AND EPOLLIN \<noteq> 0" MHD_WATCH_IN False]
  show ?thesis
  proof (elim disjE exE conjE)
    fix s1
    assume d1: "dispatch_if epoll_api H (Some a) (ev_events ev AND EPOLLIN \<noteq> 0) MHD_WATCH_IN s
                  = Inr s1"
      and m1: "moves False s s1"
    from moves_persist [OF m1 b, of a] w obtain v1 where v1: "watch_heap s1 a = Some v1"
      by auto
    from dispatch_if_cases [OF sound_epoll v1, of H "ev_events ev AND EPOLLOUT \<noteq> 0"
        MHD_WATCH_OUT False]
    show ?thesis
    proof (elim disjE exE conjE)
      fix s2
      assume "dispatch_if epoll_api H (Some a) (ev_events ev AND EPOLLOUT \<noteq> 0) MHD_WATCH_OUT s1
                = Inr s2"
        and "moves False s1 s2"
      with d1 m1 p show ?thesis
        by (auto simp: epoll_dispatch_def intro: rtranclp_trans)
    next
      assume "dispatch_if epoll_api H (Some a) (ev_events ev AND EPOLLOUT \<noteq> 0) MHD_WATCH_OUT s1
                = Inl Wild_pointer"
        and "\<not> deleted v1"
        and "call_watch_callback epoll_api H a v1 MHD_WATCH_OUT s1 = Inl Wild_pointer"
      with d1 m1 p v1 show ?thesis
        by (auto simp: epoll_dispatch_def)
    qed
  next
    assume "dispatch_if epoll_api H (Some a) (ev_events ev AND EPOLLIN \<noteq> 0) MHD_WATCH_IN s
              = Inl Wild_pointer"
      and "\<not> deleted v"
      and "call_watch_callback epoll_api H a v MHD_WATCH_IN s = Inl Wild_pointer"
    with p v show ?thesis
      by (auto simp: epoll_dispatch_def)
  qed
qed

lemma kqueue_dispatch_cases:
  assumes b: "bounded s"
    and p: "kev_flags ev AND EV_ERROR = 0 \<longrightarrow> kev_udata ev = Some a \<and> watch_heap s a \<noteq> None"
  shows "(\<exists>s'. kqueue_dispatch H ev s = Inr s' \<and> moves False s s') \<or>
         (\<exists>s1 v fl. kqueue_dispatch H ev s = Inl Wild_pointer \<and> moves False s s1 \<and>
            watch_heap s1 a = Some v \<and> \<not> deleted v \<and>
            call_watch_callback kqueue_api H a v fl s1 = Inl Wild_pointer)"
proof (cases "kev_flags ev AND EV_ERROR = 0")
  case False
  then have r: "kqueue_dispatch H ev s = Inr (printf ''kevent error'' s)"
    by (simp add: kqueue_dispatch_def)
  from kqueue_dispatch_moves [OF r, of False] r show ?thesis by simp
next
  case True
  from p True obtain v where pa: "kev_udata ev = Some a" and v: "watch_heap s a = Some v"
    by auto
  from dispatch_if_cases [OF sound_kqueue v, of H "kev_filter ev = EVFILT_READ" MHD_WATCH_IN False]
  show ?thesis
  proof (elim disjE exE conjE)
    fix s1
    assume d1: "dispatch_if kqueue_api H (Some a) (kev_filter ev = EVFILT_READ) MHD_WATCH_IN s
                  = Inr s1"
      and m1: "moves False s s1"
    from moves_persist [OF m1 b, of a] v obtain v1 where v1: "watch_heap s1 a = Some v1"
      by auto
    from dispatch_if_cases [OF sound_kqueue v1, of H "kev_filter ev = EVFILT_WRITE"
        MHD_WATCH_OUT False]
    show ?thesis
    proof (elim disjE exE conjE)
      fix s2
      assume "dispatch_if kqueue_api H (Some a) (kev_filter ev = EVFILT_WRITE) MHD_WATCH_OUT s1
                = Inr s2"
        and "moves False s1 s2"
      with d1 m1 pa True show ?thesis
        by (auto simp: kqueue_dispatch_def intro: rtranclp_trans)
    next
      assume "dispatch_if kqueue_api H (Some a) (kev_filter ev = EVFILT_WRITE) MHD_WATCH_OUT s1
                = Inl Wild_pointer"
        and "\<not> deleted v1"
        and "call_watch_callback kqueue_api H a v1 MHD_WATCH_OUT s1 = Inl Wild_pointer"
      with d1 m1 pa v1 True show ?thesis
        by (auto simp: kqueue_dispatch_def)
    qed
  next
    assume "dispatch_if kqueue_api H (Some a) (kev_filter ev = EVFILT_READ) MHD_WATCH_IN s
              = Inl Wild_pointer"
      and "\<not> deleted v"
      and "call_watch_callback kqueue_api H a v MHD_WATCH_IN s = Inl Wild_pointer"
    with pa v True show ?thesis
      by (auto simp: kqueue_dispatch_def)
  qed
qed

lemma epoll_dispatch_all_cases:
  "bounded s \<Longrightarrow> \<forall>ev\<in>set evs. \<exists>a. data_ptr ev = Some a \<and> watch_heap s a \<noteq> None \<Longrightarrow>
   (\<exists>s'. epoll_dispatch_all H evs s = Inr s' \<and> moves False s s') \<or>
   (\<exists>s1 a v fl. epoll_dispatch_all H evs s = Inl Wild_pointer \<and> moves False s s1 \<and>
      watch_heap s1 a = Some v \<and> \<not> deleted v \<and>
      call_watch_callback epoll_api H a v fl s1 = Inl Wild_pointer)"
proof (induction evs arbitrary: s)
  case Nil
  then show ?case by simp
next
  case (Cons ev evs)
  from Cons.prems(2) obtain a where p: "data_ptr ev = Some a" and w: "watch_heap s a \<noteq> None"
    by auto
  from epoll_dispatch_cases [OF Cons.prems(1) p w, of H]
  show ?case
  proof (elim disjE exE conjE)
    fix s1
    assume d: "epoll_dispatch H ev s = Inr s1" and m: "moves False s s1"
    from moves_persist [OF m Cons.prems(1)] have b1: "bounded s1" by simp
    have c1: "\<forall>ev\<in>set evs. \<exists>a. data_ptr ev = Some a \<and> watch_heap s1 a \<noteq> None"
    proof
      fix e assume "e \<in> set evs"
      with Cons.prems(2) obtain c where "data_ptr e = Some c" "watch_heap s c \<noteq> None" by auto
      with moves_persist [OF m Cons.prems(1), of c]
      show "\<exists>a. data_ptr e = Some a \<and> watch_heap s1 a \<noteq> None" by auto
    qed
    from Cons.IH [OF b1 c1]
    show ?thesis
    proof (elim disjE exE conjE)
      fix s'
      assume "epoll_dispatch_all H evs s1 = Inr s'" "moves False s1 s'"
      with d m show ?thesis by (auto intro: rtranclp_trans)
    next
      fix s2 c v fl
      assume "epoll_dispatch_all H evs s1 = Inl Wild_pointer" "moves False s1 s2"
        "watch_heap s2 c = Some v" "\<not> deleted v"
        "call_watch_callback epoll_api H c v fl s2 = Inl Wild_pointer"
      with d m show ?thesis
        by (intro disjI2 exI [of _ s2] exI [of _ c] exI [of _ v] exI [of _ fl])
           (auto intro: rtranclp_trans)
    qed
  next
    fix s1 v fl
    assume "epoll_dispatch H ev s = Inl Wild_pointer" "moves False s s1"
      "watch_heap s1 a = Some v" "\<not> deleted v"
      "call_watch_callback epoll_api H a v fl s1 = Inl Wild_pointer"
    then show ?thesis
      by (intro disjI2 exI [of _ s1] exI [of _ a] exI [of _ v] exI [of _ fl]) auto
  qed
qed

lemma kqueue_dispatch_all_cases:
  "bounded s \<Longrightarrow>
   \<forall>ev\<in>set evs. kev_flags ev AND EV_ERROR = 0 \<longrightarrow>
      (\<exists>a. kev_udata ev = Some a \<and> watch_heap s a \<noteq> None) \<Longrightarrow>
   (\<exists>s'. kqueue_dispatch_all H evs s = Inr s' \<and> moves False s s') \<or>
   (\<exists>s1 a v fl. kqueue_dispatch_all H evs s = Inl Wild_pointer \<and> moves False s s1 \<and>
      watch_heap s1 a = Some v \<and> \<not> deleted v \<and>
      call_watch_callback kqueue_api H a v fl s1 = Inl Wild_pointer)"
proof (induction evs arbitrary: s)
  case Nil
  then show ?case by simp
next
  case (Cons ev evs)
  obtain a where p: "kev_flags ev AND EV_ERROR = 0 \<longrightarrow>
      kev_udata ev = Some a \<and> watch_heap s a \<noteq> None"
    using Cons.prems(2) by (cases "kev_flags ev AND EV_ERROR = 0") auto
  from kqueue_dispatch_cases [OF Cons.prems(1) p, of H]
  show ?case
  proof (elim disjE exE conjE)
    fix s1
    assume d: "kqueue_dispatch H ev s = Inr s1" and m: "moves False s s1"
    from moves_persist [OF m Cons.prems(1)] have b1: "bounded s1" by simp
    have c1: "\<forall>ev\<in>set evs. kev_flags ev AND EV_ERROR = 0 \<longrightarrow>
                (\<exists>a. kev_udata ev = Some a \<and> watch_heap s1 a \<noteq> None)"
    proof (intro ballI impI)
      fix e assume "e \<in> set evs" "kev_flags e AND EV_ERROR = 0"
      with Cons.prems(2) obtain c where "kev_udata e = Some c" "watch_heap s c \<noteq> None" by auto
      with moves_persist [OF m Cons.prems(1), of c]
      show "\<exists>a. kev_udata e = Some a \<and> watch_heap s1 a \<noteq> None" by auto
    qed
    from Cons.IH [OF b1 c1]
    show ?thesis
    proof (elim disjE exE conjE)
      fix s'
      assume "kqueue_dispatch_all H evs s1 = Inr s'" "moves False s1 s'"
      with d m show ?thesis by (auto intro: rtranclp_trans)
    next
      fix s2 c v fl
      assume "kqueue_dispatch_all H evs s1 = Inl Wild_pointer" "moves False s1 s2"
        "watch_heap s2 c = Some v" "\<not> deleted v"
        "call_watch_callback kqueue_api H c v fl s2 = Inl Wild_pointer"
      with d m show ?thesis
        by (intro disjI2 exI [of _ s2] exI [of _ c] exI [of _ v] exI [of _ fl])
           (auto intro: rtranclp_trans)
    qed
  next
    fix s1 v fl
    assume "kqueue_dispatch H ev s = Inl Wild_pointer" "moves False s s1"
      "watch_heap s1 a = Some v" "\<not> deleted v"
      "call_watch_callback kqueue_api H a v fl s1 = Inl Wild_pointer"
    then show ?thesis
      by (intro disjI2 exI [of _ s1] exI [of _ a] exI [of _ v] exI [of _ fl]) auto
  qed
qed

lemma moves_clean:
  assumes m: "moves tm s s1" and b: "bounded s"
  shows "no_callback_after_free {a. gone s a} (since s s1) \<and>
         (\<forall>a v. watch_heap s1 a = Some v \<and> \<not> deleted v \<longrightarrow> a \<notin> freed (since s s1))"
proof -
  from moves_tracked [OF m tracked_start [OF b]]
  have t: "tracked (length (trace s)) {a. gone s a} s1" .
  then have g: "\<And>a. a \<in> freed (since s s1) \<Longrightarrow> gone s1 a"
    and n: "no_callback_after_free {a. gone s a} (since s s1)"
    by (simp_all add: tracked_def since_def)
  have "a \<notin> freed (since s s1)" if "watch_heap s1 a = Some v" "\<not> deleted v" for a v
  proof
    assume "a \<in> freed (since s s1)"
    from g [OF this] that show False by (simp add: gone_def)
  qed
  with n show ?thesis by blast
qed

lemma epoll_dispatch_all_clean:
  assumes b: "bounded s"
    and c: "\<forall>ev\<in>set evs. \<exists>a. data_ptr ev = Some a \<and> watch_heap s a \<noteq> None"
  shows "(\<exists>s'. epoll_dispatch_all H evs s = Inr s' \<and>
            no_callback_after_free {a. gone s a} (since s s')) \<or>
         (\<exists>s1. epoll_dispatch_all H evs s = Inl Wild_pointer \<and> moves False s s1 \<and>
            no_callback_after_free {a. gone s a} (since s s1) \<and>
            callback_fault epoll_api H s s1)"
  using epoll_dispatch_all_cases [OF b c, of H]
proof (elim disjE exE conjE)
  fix s' assume "epoll_dispatch_all H evs s = Inr s'" "moves False s s'"
  with moves_clean [OF _ b] show ?thesis by blast
next
  fix s1 a v fl
  assume r: "epoll_dispatch_all H evs s = Inl Wild_pointer" and m: "moves False s s1"
    and v: "watch_heap s1 a = Some v" "\<not> deleted v"
    and f: "call_watch_callback epoll_api H a v fl s1 = Inl Wild_pointer"
  from moves_clean [OF m b] v have "no_callback_after_free {a. gone s a} (since s s1)"
    "a \<notin> freed (since s s1)" by blast+
  with r m v f show ?thesis unfolding callback_fault_def by blast
qed

lemma kqueue_dispatch_all_clean:
  assumes b: "bounded s"
    and c: "\<forall>ev\<in>set evs. kev_flags ev AND EV_ERROR = 0 \<longrightarrow>
              (\<exists>a. kev_udata ev = Some a \<and> watch_heap s a \<noteq> None)"
  shows "(\<exists>s'. kqueue_dispatch_all H evs s = Inr s' \<and>
            no_callback_after_free {a. gone s a} (since s s')) \<or>
         (\<exists>s1. kqueue_dispatch_all H evs s = Inl Wild_pointer \<and> moves False s s1 \<and>
            no_callback_after_free {a. gone s a} (since s s1) \<and>
            callback_fault kqueue_api H s s1)"
  using kqueue_dispatch_all_cases [OF b c, of H]
proof (elim disjE exE conjE)
  fix s' assume "kqueue_dispatch_all H evs s = Inr s'" "moves False s s'"
  with moves_clean [OF _ b] show ?thesis by blast
next
  fix s1 a v fl
  assume r: "kqueue_dispatch_all H evs s = Inl Wild_pointer" and m: "moves False s s1"
    and v: "watch_heap s1 a = Some v" "\<not> deleted v"
    and f: "call_watch_callback kqueue_api H a v fl s1 = Inl Wild_pointer"
  from moves_clean [OF m b] v have "no_callback_after_free {a. gone s a} (since s s1)"
    "a \<notin> freed (since s s1)" by blast+
  with r m v f show ?thesis unfolding callback_fault_def by blast
qed

text \<open>
  C2, as the code has it.

  \<^item> An event whose cookie points to a tombstoned watch is dropped: the dispatch of the
    event returns with the state unchanged (in kqueue, after printing when the event
    carries \<^verbatim>\<open>EV_ERROR\<close>).
  \<^item> The dispatch of a wait result whose cookies all point to allocated watches, live or
    tombstoned, whatever the callbacks do: it returns, and among its actions there is no
    callback of a watch that was tombstoned or released when it began, and none of a watch
    after the call of \<^verbatim>\<open>watch_free\<close> on it, also when later events of the same wait result
    carry its cookie; or the undefined behaviour is inside the callback of a watch that is
    allocated, not tombstoned and not freed, and the same holds of the actions up to there.
  \<^item> The same holds of the actions of every iteration that completes and of every run of
    \<^verbatim>\<open>event_manager_loop\<close> that returns.
\<close>

theorem no_dispatch_after_free:
  "(watch_heap s a = Some w \<and> deleted w \<and> data_ptr ev = Some a \<longrightarrow>
      epoll_dispatch H ev s = Inr s) \<and>
   (watch_heap k a = Some v \<and> deleted v \<and> kev_udata kev = Some a \<longrightarrow>
      kqueue_dispatch H' kev k =
        Inr (if kev_flags kev AND EV_ERROR \<noteq> 0 then printf ''kevent error'' k else k)) \<and>
   (bounded s \<and> (\<forall>ev\<in>set evs. \<exists>a. data_ptr ev = Some a \<and> watch_heap s a \<noteq> None) \<longrightarrow>
      (\<exists>s'. epoll_dispatch_all H evs s = Inr s' \<and>
            no_callback_after_free {a. gone s a} (since s s')) \<or>
      (\<exists>s1. epoll_dispatch_all H evs s = Inl Wild_pointer \<and> moves False s s1 \<and>
            no_callback_after_free {a. gone s a} (since s s1) \<and>
            callback_fault epoll_api H s s1)) \<and>
   (bounded k \<and>
    (\<forall>ev\<in>set kevs. kev_flags ev AND EV_ERROR = 0 \<longrightarrow>
       (\<exists>a. kev_udata ev = Some a \<and> watch_heap k a \<noteq> None)) \<longrightarrow>
      (\<exists>k'. kqueue_dispatch_all H' kevs k = Inr k' \<and>
            no_callback_after_free {a. gone k a} (since k k')) \<or>
      (\<exists>k1. kqueue_dispatch_all H' kevs k = Inl Wild_pointer \<and> moves False k k1 \<and>
            no_callback_after_free {a. gone k a} (since k k1) \<and>
            callback_fault kqueue_api H' k k1)) \<and>
   (bounded s \<and> epoll_iteration H tk s = Some (Inr (fl, s'')) \<longrightarrow>
      no_callback_after_free {a. gone s a} (since s s'')) \<and>
   (bounded k \<and> kqueue_iteration H' tk' k = Some (Inr (fl', k'')) \<longrightarrow>
      no_callback_after_free {a. gone k a} (since k k'')) \<and>
   (bounded s \<and> epoll_event_manager_loop H ticks s = Some (Inr (r, s')) \<longrightarrow>
      no_callback_after_free {a. gone s a} (since s s')) \<and>
   (bounded k \<and> kqueue_event_manager_loop H' ticks' k = Some (Inr (r', k')) \<longrightarrow>
      no_callback_after_free {a. gone k a} (since k k'))"
proof (intro conjI impI; (elim conjE)?)
  assume "watch_heap s a = Some w" "deleted w" "data_ptr ev = Some a"
  then show "epoll_dispatch H ev s = Inr s" by (rule epoll_dispatch_tombstone)
next
  assume "watch_heap k a = Some v" "deleted v" "kev_udata kev = Some a"
  then show "kqueue_dispatch H' kev k =
        Inr (if kev_flags kev AND EV_ERROR \<noteq> 0 then printf ''kevent error'' k else k)"
    by (rule kqueue_dispatch_tombstone)
next
  assume "bounded s" "\<forall>ev\<in>set evs. \<exists>a. data_ptr ev = Some a \<and> watch_heap s a \<noteq> None"
  then show "(\<exists>s'. epoll_dispatch_all H evs s = Inr s' \<and>
            no_callback_after_free {a. gone s a} (since s s')) \<or>
      (\<exists>s1. epoll_dispatch_all H evs s = Inl Wild_pointer \<and> moves False s s1 \<and>
            no_callback_after_free {a. gone s a} (since s s1) \<and>
            callback_fault epoll_api H s s1)"
    by (rule epoll_dispatch_all_clean)
next
  assume "bounded k" "\<forall>ev\<in>set kevs. kev_flags ev AND EV_ERROR = 0 \<longrightarrow>
       (\<exists>a. kev_udata ev = Some a \<and> watch_heap k a \<noteq> None)"
  then show "(\<exists>k'. kqueue_dispatch_all H' kevs k = Inr k' \<and>
            no_callback_after_free {a. gone k a} (since k k')) \<or>
      (\<exists>k1. kqueue_dispatch_all H' kevs k = Inl Wild_pointer \<and> moves False k k1 \<and>
            no_callback_after_free {a. gone k a} (since k k1) \<and>
            callback_fault kqueue_api H' k k1)"
    by (rule kqueue_dispatch_all_clean)
next
  assume b: "bounded s" and i: "epoll_iteration H tk s = Some (Inr (fl, s''))"
  from epoll_iteration_tracked [OF i tracked_start [OF b]]
  show "no_callback_after_free {a. gone s a} (since s s'')"
    by (simp add: tracked_def since_def)
next
  assume b: "bounded k" and i: "kqueue_iteration H' tk' k = Some (Inr (fl', k''))"
  from kqueue_iteration_tracked [OF i tracked_start [OF b]]
  show "no_callback_after_free {a. gone k a} (since k k'')"
    by (simp add: tracked_def since_def)
next
  assume "bounded s" "epoll_event_manager_loop H ticks s = Some (Inr (r, s'))"
  from epoll_loop_tracked [OF this]
  show "no_callback_after_free {a. gone s a} (since s s')"
    by (simp add: tracked_def since_def)
next
  assume "bounded k" "kqueue_event_manager_loop H' ticks' k = Some (Inr (r', k'))"
  from kqueue_loop_tracked [OF this]
  show "no_callback_after_free {a. gone k a} (since k k')"
    by (simp add: tracked_def since_def)
qed

text \<open>Two watches, both readable in the same wait; the callback of the first frees
  the second and stops the loop.\<close>

definition epoll_two :: epoll_world where
  "epoll_two =
     (case host_calls epoll_api
             [Watch_new 5 {MHD_WATCH_IN} 1 2, Watch_new 6 {MHD_WATCH_IN} 1 3] epoll_world0 of
        Inr s \<Rightarrow> s | Inl e \<Rightarrow> epoll_world0)"

definition kqueue_two :: kqueue_world where
  "kqueue_two =
     (case host_calls kqueue_api
             [Watch_new 5 {MHD_WATCH_IN} 1 2, Watch_new 6 {MHD_WATCH_IN} 1 3] kqueue_world0 of
        Inr s \<Rightarrow> s | Inl e \<Rightarrow> kqueue_world0)"

definition freeing_host :: "('w, 'k) host" where
  "freeing_host =
     \<lparr>watch_cb = (\<lambda>f a d e c s. if a = 0 then [Watch_free 1, Stop] else []),
      timeout_cb = (\<lambda>f a c s. [])\<rparr>"

definition both_readable :: "epoll_event tick" where
  "both_readable = ready_tick 1 [\<lparr>ev_events = EPOLLIN, data_ptr = Some 0\<rparr>,
                                 \<lparr>ev_events = EPOLLIN, data_ptr = Some 1\<rparr>]"

definition both_readable_kq :: "kevent tick" where
  "both_readable_kq =
     ready_tick 1 [\<lparr>kev_ident = 5, kev_filter = EVFILT_READ, kev_flags = 0, kev_fflags = 0,
                     kev_data = 0, kev_udata = Some 0\<rparr>,
                   \<lparr>kev_ident = 6, kev_filter = EVFILT_READ, kev_flags = 0, kev_fflags = 0,
                     kev_data = 0, kev_udata = Some 1\<rparr>]"

lemma bounded_two: "bounded epoll_two" "bounded kqueue_two"
  by (auto simp: bounded_def epoll_two_def kqueue_two_def epoll_world0_def kqueue_world0_def
      watch_eval Let_def split: if_splits)

lemma trace_two: "length (trace epoll_two) = 2" "length (trace kqueue_two) = 2"
  by (simp_all add: epoll_two_def kqueue_two_def epoll_world0_def kqueue_world0_def
      watch_eval Let_def)

lemma epoll_two_loop:
  "map_option (map_sum id (\<lambda>(r, s). (r, drop 2 (trace s), watch_heap s 1)))
     (epoll_event_manager_loop freeing_host [both_readable] epoll_two)
   = Some (Inr (0, [Epoll_wait 10000, Watch_callback 0 5 MHD_WATCH_IN 2,
                    Call (Watch_free 1), Call Stop], None))"
  by (simp add: epoll_two_def epoll_world0_def watch_eval loop_eval Let_def ready_tick_def
      freeing_host_def both_readable_def dispatch_if_def call_watch_callback_def
      epoll_dispatch_def)

lemma kqueue_two_loop:
  "map_option (map_sum id (\<lambda>(r, s). (r, drop 2 (trace s), watch_heap s 1)))
     (kqueue_event_manager_loop freeing_host [both_readable_kq] kqueue_two)
   = Some (Inr (0, [Kevent_wait 1 0, Watch_callback 0 5 MHD_WATCH_IN 2,
                    Call (Watch_free 1), Call Stop], None))"
  by (simp add: kqueue_two_def kqueue_world0_def watch_eval loop_eval Let_def ready_tick_def
      freeing_host_def both_readable_kq_def dispatch_if_def call_watch_callback_def
      kqueue_dispatch_def EV_ERROR_def)

lemma epoll_two_iteration:
  "map_option (map_sum id (\<lambda>(fl, s). (fl, drop 2 (trace s))))
     (epoll_iteration freeing_host both_readable epoll_two)
   = Some (Inr (Next, [Epoll_wait 10000, Watch_callback 0 5 MHD_WATCH_IN 2,
                    Call (Watch_free 1), Call Stop]))"
  by (simp add: epoll_two_def epoll_world0_def watch_eval loop_eval Let_def ready_tick_def
      freeing_host_def both_readable_def dispatch_if_def call_watch_callback_def
      epoll_dispatch_def)

lemma kqueue_two_iteration:
  "map_option (map_sum id (\<lambda>(fl, s). (fl, drop 2 (trace s))))
     (kqueue_iteration freeing_host both_readable_kq kqueue_two)
   = Some (Inr (Next, [Kevent_wait 1 0, Watch_callback 0 5 MHD_WATCH_IN 2,
                    Call (Watch_free 1), Call Stop]))"
  by (simp add: kqueue_two_def kqueue_world0_def watch_eval loop_eval Let_def ready_tick_def
      freeing_host_def both_readable_kq_def dispatch_if_def call_watch_callback_def
      kqueue_dispatch_def EV_ERROR_def)

text \<open>
  The dispatch of the wait result alone, and a tombstone from an earlier section.
\<close>

lemma two_allocated:
  "watch_heap epoll_two 0 \<noteq> None" "watch_heap epoll_two 1 \<noteq> None"
  "watch_heap kqueue_two 0 \<noteq> None" "watch_heap kqueue_two 1 \<noteq> None"
  by (simp_all add: epoll_two_def kqueue_two_def epoll_world0_def kqueue_world0_def
      watch_eval Let_def)

lemma one_orphan_tombstone:
  "watch_heap epoll_one_orphan 0 =
     Some \<lparr>fd = 5, callback = 1, mhd_data = 2, deleted = True, next = None, events = 1\<rparr>"
  "watch_heap kqueue_one_orphan 0 =
     Some \<lparr>fd = 5, callback = 1, mhd_data = 2, deleted = True, next = None,
           enable_read = True, enable_write = False\<rparr>"
  by (simp_all add: epoll_one_orphan_eq kqueue_one_orphan_eq)

lemma epoll_two_dispatch:
  "map_sum id (\<lambda>s. drop 2 (trace s))
     (epoll_dispatch_all freeing_host
        [\<lparr>ev_events = EPOLLIN, data_ptr = Some 0\<rparr>, \<lparr>ev_events = EPOLLIN, data_ptr = Some 1\<rparr>]
        epoll_two)
   = Inr [Watch_callback 0 5 MHD_WATCH_IN 2, Call (Watch_free 1), Call Stop]"
  by (simp add: epoll_two_def epoll_world0_def watch_eval Let_def
      freeing_host_def dispatch_if_def call_watch_callback_def epoll_dispatch_def)

lemma kqueue_two_dispatch:
  "map_sum id (\<lambda>s. drop 2 (trace s))
     (kqueue_dispatch_all freeing_host
        [\<lparr>kev_ident = 5, kev_filter = EVFILT_READ, kev_flags = 0, kev_fflags = 0,
          kev_data = 0, kev_udata = Some 0\<rparr>,
         \<lparr>kev_ident = 6, kev_filter = EVFILT_READ, kev_flags = 0, kev_fflags = 0,
          kev_data = 0, kev_udata = Some 1\<rparr>]
        kqueue_two)
   = Inr [Watch_callback 0 5 MHD_WATCH_IN 2, Call (Watch_free 1), Call Stop]"
  by (simp add: kqueue_two_def kqueue_world0_def watch_eval Let_def
      freeing_host_def dispatch_if_def call_watch_callback_def kqueue_dispatch_def EV_ERROR_def)


text \<open>
  A tombstone's event is dropped; and with the second watch's event in the same wait
  result its callback is not called after the first watch's callback has freed it: in the
  dispatch, in the iteration and in the run of the loop, which releases it at the end.
\<close>

theorem no_dispatch_after_free_witness:
  "epoll_dispatch freeing_host \<lparr>ev_events = EPOLLIN, data_ptr = Some 0\<rparr> epoll_one_orphan
     = Inr epoll_one_orphan \<and>
   kqueue_dispatch freeing_host
     \<lparr>kev_ident = 5, kev_filter = EVFILT_READ, kev_flags = 0, kev_fflags = 0,
       kev_data = 0, kev_udata = Some 0\<rparr> kqueue_one_orphan
     = Inr kqueue_one_orphan \<and>
   (\<exists>s'. epoll_dispatch_all freeing_host
           [\<lparr>ev_events = EPOLLIN, data_ptr = Some 0\<rparr>, \<lparr>ev_events = EPOLLIN, data_ptr = Some 1\<rparr>]
           epoll_two = Inr s' \<and>
         since epoll_two s' = [Watch_callback 0 5 MHD_WATCH_IN 2, Call (Watch_free 1), Call Stop] \<and>
         no_callback_after_free {a. gone epoll_two a} (since epoll_two s')) \<and>
   (\<exists>k'. kqueue_dispatch_all freeing_host
           [\<lparr>kev_ident = 5, kev_filter = EVFILT_READ, kev_flags = 0, kev_fflags = 0,
             kev_data = 0, kev_udata = Some 0\<rparr>,
            \<lparr>kev_ident = 6, kev_filter = EVFILT_READ, kev_flags = 0, kev_fflags = 0,
             kev_data = 0, kev_udata = Some 1\<rparr>]
           kqueue_two = Inr k' \<and>
         since kqueue_two k' = [Watch_callback 0 5 MHD_WATCH_IN 2, Call (Watch_free 1), Call Stop] \<and>
         no_callback_after_free {a. gone kqueue_two a} (since kqueue_two k')) \<and>
   (\<exists>s'. epoll_iteration freeing_host both_readable epoll_two = Some (Inr (Next, s')) \<and>
         since epoll_two s' = [Epoll_wait 10000, Watch_callback 0 5 MHD_WATCH_IN 2,
                               Call (Watch_free 1), Call Stop] \<and>
         no_callback_after_free {a. gone epoll_two a} (since epoll_two s')) \<and>
   (\<exists>k'. kqueue_iteration freeing_host both_readable_kq kqueue_two = Some (Inr (Next, k')) \<and>
         since kqueue_two k' = [Kevent_wait 1 0, Watch_callback 0 5 MHD_WATCH_IN 2,
                                Call (Watch_free 1), Call Stop] \<and>
         no_callback_after_free {a. gone kqueue_two a} (since kqueue_two k')) \<and>
   (\<exists>s'. epoll_event_manager_loop freeing_host [both_readable] epoll_two = Some (Inr (0, s')) \<and>
         since epoll_two s' = [Epoll_wait 10000, Watch_callback 0 5 MHD_WATCH_IN 2,
                               Call (Watch_free 1), Call Stop] \<and>
         no_callback_after_free {a. gone epoll_two a} (since epoll_two s')) \<and>
   (\<exists>k'. kqueue_event_manager_loop freeing_host [both_readable_kq] kqueue_two
           = Some (Inr (0, k')) \<and>
         since kqueue_two k' = [Kevent_wait 1 0, Watch_callback 0 5 MHD_WATCH_IN 2,
                                Call (Watch_free 1), Call Stop] \<and>
         no_callback_after_free {a. gone kqueue_two a} (since kqueue_two k'))"
proof -
  let ?e0 = "\<lparr>ev_events = EPOLLIN, data_ptr = Some 0\<rparr>"
  let ?e1 = "\<lparr>ev_events = EPOLLIN, data_ptr = Some 1\<rparr>"
  let ?k0 = "\<lparr>kev_ident = 5, kev_filter = EVFILT_READ, kev_flags = 0, kev_fflags = 0,
              kev_data = 0, kev_udata = Some 0\<rparr>"
  let ?k1 = "\<lparr>kev_ident = 6, kev_filter = EVFILT_READ, kev_flags = 0, kev_fflags = 0,
              kev_data = 0, kev_udata = Some 1\<rparr>"
  from epoll_two_dispatch obtain sd where
    d: "epoll_dispatch_all freeing_host [?e0, ?e1] epoll_two = Inr sd"
    and td: "drop 2 (trace sd) = [Watch_callback 0 5 MHD_WATCH_IN 2, Call (Watch_free 1), Call Stop]"
    by (cases "epoll_dispatch_all freeing_host [?e0, ?e1] epoll_two") simp_all
  from kqueue_two_dispatch obtain kd where
    d': "kqueue_dispatch_all freeing_host [?k0, ?k1] kqueue_two = Inr kd"
    and td': "drop 2 (trace kd) = [Watch_callback 0 5 MHD_WATCH_IN 2, Call (Watch_free 1), Call Stop]"
    by (cases "kqueue_dispatch_all freeing_host [?k0, ?k1] kqueue_two") simp_all
  from epoll_two_loop obtain sl where
    l: "epoll_event_manager_loop freeing_host [both_readable] epoll_two = Some (Inr (0, sl))"
    and tl: "drop 2 (trace sl) = [Epoll_wait 10000, Watch_callback 0 5 MHD_WATCH_IN 2,
                                 Call (Watch_free 1), Call Stop]"
    by (cases "epoll_event_manager_loop freeing_host [both_readable] epoll_two")
       (auto simp: map_sum_def split: sum.splits)
  from kqueue_two_loop obtain kl where
    l': "kqueue_event_manager_loop freeing_host [both_readable_kq] kqueue_two = Some (Inr (0, kl))"
    and tl': "drop 2 (trace kl) = [Kevent_wait 1 0, Watch_callback 0 5 MHD_WATCH_IN 2,
                                 Call (Watch_free 1), Call Stop]"
    by (cases "kqueue_event_manager_loop freeing_host [both_readable_kq] kqueue_two")
       (auto simp: map_sum_def split: sum.splits)
  from epoll_two_iteration obtain si where
    i: "epoll_iteration freeing_host both_readable epoll_two = Some (Inr (Next, si))"
    and ti: "drop 2 (trace si) = [Epoll_wait 10000, Watch_callback 0 5 MHD_WATCH_IN 2,
                                 Call (Watch_free 1), Call Stop]"
    by (cases "epoll_iteration freeing_host both_readable epoll_two")
       (auto simp: map_sum_def split: sum.splits)
  from kqueue_two_iteration obtain ki where
    i': "kqueue_iteration freeing_host both_readable_kq kqueue_two = Some (Inr (Next, ki))"
    and ti': "drop 2 (trace ki) = [Kevent_wait 1 0, Watch_callback 0 5 MHD_WATCH_IN 2,
                                 Call (Watch_free 1), Call Stop]"
    by (cases "kqueue_iteration freeing_host both_readable_kq kqueue_two")
       (auto simp: map_sum_def split: sum.splits)
  note inst = no_dispatch_after_free [where s = epoll_two and H = freeing_host and evs = "[?e0, ?e1]"
      and ticks = "[both_readable]" and r = 0 and s' = sl
      and tk = both_readable and fl = Next and s'' = si
      and k = kqueue_two and H' = freeing_host and kevs = "[?k0, ?k1]"
      and ticks' = "[both_readable_kq]" and r' = 0 and k' = kl
      and tk' = both_readable_kq and fl' = Next and k'' = ki]
  note rest = inst [THEN conjunct2, THEN conjunct2, THEN conjunct2, THEN conjunct2]
  note drop = no_dispatch_after_free [where s = epoll_one_orphan and H = freeing_host and ev = ?e0
      and a = 0 and k = kqueue_one_orphan and H' = freeing_host and kev = ?k0
      and w = "\<lparr>fd = 5, callback = 1, mhd_data = 2, deleted = True, next = None, events = 1\<rparr>"
      and v = "\<lparr>fd = 5, callback = 1, mhd_data = 2, deleted = True, next = None,
                enable_read = True, enable_write = False\<rparr>"]
  from drop [THEN conjunct1] one_orphan_tombstone(1)
  have A: "epoll_dispatch freeing_host ?e0 epoll_one_orphan = Inr epoll_one_orphan" by simp
  from drop [THEN conjunct2, THEN conjunct1] one_orphan_tombstone(2)
  have B: "kqueue_dispatch freeing_host ?k0 kqueue_one_orphan = Inr kqueue_one_orphan"
    by (simp add: EV_ERROR_def)
  from inst [THEN conjunct2, THEN conjunct2, THEN conjunct1] bounded_two(1) two_allocated d
  have C0: "no_callback_after_free {a. gone epoll_two a} (since epoll_two sd)" by simp
  from inst [THEN conjunct2, THEN conjunct2, THEN conjunct2, THEN conjunct1]
    bounded_two(2) two_allocated d'
  have D0: "no_callback_after_free {a. gone kqueue_two a} (since kqueue_two kd)" by simp
  from rest [THEN conjunct1] bounded_two(1) i
  have G0: "no_callback_after_free {a. gone epoll_two a} (since epoll_two si)" by simp
  from rest [THEN conjunct2, THEN conjunct1] bounded_two(2) i'
  have H0: "no_callback_after_free {a. gone kqueue_two a} (since kqueue_two ki)" by simp
  from rest [THEN conjunct2, THEN conjunct2, THEN conjunct1] bounded_two(1) l
  have E0: "no_callback_after_free {a. gone epoll_two a} (since epoll_two sl)" by simp
  from rest [THEN conjunct2, THEN conjunct2, THEN conjunct2] bounded_two(2) l'
  have F0: "no_callback_after_free {a. gone kqueue_two a} (since kqueue_two kl)" by simp
  have C: "\<exists>s'. epoll_dispatch_all freeing_host [?e0, ?e1] epoll_two = Inr s' \<and>
         since epoll_two s' = [Watch_callback 0 5 MHD_WATCH_IN 2, Call (Watch_free 1), Call Stop] \<and>
         no_callback_after_free {a. gone epoll_two a} (since epoll_two s')"
    using d td C0 by (intro exI [of _ sd]) (simp add: since_def trace_two)
  have D: "\<exists>k'. kqueue_dispatch_all freeing_host [?k0, ?k1] kqueue_two = Inr k' \<and>
         since kqueue_two k' = [Watch_callback 0 5 MHD_WATCH_IN 2, Call (Watch_free 1), Call Stop] \<and>
         no_callback_after_free {a. gone kqueue_two a} (since kqueue_two k')"
    using d' td' D0 by (intro exI [of _ kd]) (simp add: since_def trace_two)
  have E: "\<exists>s'. epoll_event_manager_loop freeing_host [both_readable] epoll_two
           = Some (Inr (0, s')) \<and>
         since epoll_two s' = [Epoll_wait 10000, Watch_callback 0 5 MHD_WATCH_IN 2,
                               Call (Watch_free 1), Call Stop] \<and>
         no_callback_after_free {a. gone epoll_two a} (since epoll_two s')"
    using l tl E0 by (intro exI [of _ sl]) (simp add: since_def trace_two)
  have F: "\<exists>k'. kqueue_event_manager_loop freeing_host [both_readable_kq] kqueue_two
           = Some (Inr (0, k')) \<and>
         since kqueue_two k' = [Kevent_wait 1 0, Watch_callback 0 5 MHD_WATCH_IN 2,
                                Call (Watch_free 1), Call Stop] \<and>
         no_callback_after_free {a. gone kqueue_two a} (since kqueue_two k')"
    using l' tl' F0 by (intro exI [of _ kl]) (simp add: since_def trace_two)
  have G: "\<exists>s'. epoll_iteration freeing_host both_readable epoll_two = Some (Inr (Next, s')) \<and>
         since epoll_two s' = [Epoll_wait 10000, Watch_callback 0 5 MHD_WATCH_IN 2,
                               Call (Watch_free 1), Call Stop] \<and>
         no_callback_after_free {a. gone epoll_two a} (since epoll_two s')"
    using i ti G0 by (intro exI [of _ si]) (simp add: since_def trace_two)
  have H: "\<exists>k'. kqueue_iteration freeing_host both_readable_kq kqueue_two
           = Some (Inr (Next, k')) \<and>
         since kqueue_two k' = [Kevent_wait 1 0, Watch_callback 0 5 MHD_WATCH_IN 2,
                                Call (Watch_free 1), Call Stop] \<and>
         no_callback_after_free {a. gone kqueue_two a} (since kqueue_two k')"
    using i' ti' H0 by (intro exI [of _ ki]) (simp add: since_def trace_two)
  from A B C D G H E F show ?thesis by (intro conjI)
qed

text \<open>
  An event manager with one watch, registered for reading, in which the kernel will refuse
  the next change; a host whose callback frees the watch it is called on; and waits that
  return one event for that watch.
\<close>

definition epoll_kept :: epoll_world where
  "epoll_kept =
     (case host_calls epoll_api [Watch_new 5 {MHD_WATCH_IN} 1 2]
             (epoll_world0\<lparr>kernel := \<lparr>ep_closed = False, interest = Map.empty,
                                     ctl_faults = [False, True]\<rparr>\<rparr>) of
        Inr s \<Rightarrow> s | Inl e \<Rightarrow> epoll_world0)"

definition kqueue_kept :: kqueue_world where
  "kqueue_kept =
     (case host_calls kqueue_api [Watch_new 5 {MHD_WATCH_IN} 1 2]
             (kqueue_world0\<lparr>kernel := \<lparr>kq_closed = False, filters = Map.empty,
                                      kev_faults = [False, True]\<rparr>\<rparr>) of
        Inr s \<Rightarrow> s | Inl e \<Rightarrow> kqueue_world0)"

definition self_freeing :: "('w, 'k) host" where
  "self_freeing =
     \<lparr>watch_cb = (\<lambda>f a d e c s. [Watch_free a]), timeout_cb = (\<lambda>f a c s. [])\<rparr>"

definition readable :: "int \<Rightarrow> epoll_event tick" where
  "readable n = ready_tick n [\<lparr>ev_events = EPOLLIN, data_ptr = Some 0\<rparr>]"

definition readable_kq :: "int \<Rightarrow> kevent tick" where
  "readable_kq n =
     ready_tick n [\<lparr>kev_ident = 5, kev_filter = EVFILT_READ, kev_flags = 0, kev_fflags = 0,
                     kev_data = 0, kev_udata = Some 0\<rparr>]"

text \<open>
  C2 as stated fails. The callback frees its watch; the removal from the kernel fails and
  is printed; the tombstone is released at the end of the iteration, and the kernel still
  holds the registration with the cookie. The next wait returns an event with that cookie,
  as the kernel can, and the loop reads the released watch: the event is not dropped, and
  after the read of released memory nothing is promised of what the loop calls.
\<close>

theorem no_dispatch_after_free_counterexample:
  "map_option (map_sum id (\<lambda>(fl, s). (fl, drop 1 (trace s), watch_heap s 0,
                                       interest (kernel s) 5, out s)))
     (epoll_iteration self_freeing (readable 1) epoll_kept)
   = Some (Inr (Next, [Epoll_wait 10000, Watch_callback 0 5 MHD_WATCH_IN 2, Call (Watch_free 0)],
                None, Some \<lparr>ev_events = EPOLLIN, data_ptr = Some 0\<rparr>, [''epoll_ctl failed''])) \<and>
   epoll_event_manager_loop self_freeing [readable 1, readable 2] epoll_kept
   = Some (Inl Wild_pointer) \<and>
   map_option (map_sum id (\<lambda>(fl, s). (fl, drop 1 (trace s), watch_heap s 0,
                                       filters (kernel s) (5, EVFILT_READ), out s)))
     (kqueue_iteration self_freeing (readable_kq 1) kqueue_kept)
   = Some (Inr (Next, [Kevent_wait 1 0, Watch_callback 0 5 MHD_WATCH_IN 2, Call (Watch_free 0)],
                None, Some (Some 0), [''Failed to apply kqueue changes''])) \<and>
   kqueue_event_manager_loop self_freeing [readable_kq 1, readable_kq 2] kqueue_kept
   = Some (Inl Wild_pointer)"
  by (simp add: epoll_kept_def kqueue_kept_def epoll_world0_def kqueue_world0_def watch_eval
      loop_eval Let_def ready_tick_def self_freeing_def readable_def readable_kq_def
      dispatch_if_def call_watch_callback_def epoll_dispatch_def kqueue_dispatch_def EV_ERROR_def)

section \<open>Creating a watch when the backend fails\<close>

text \<open>Event managers whose next backend call fails.\<close>

definition epoll_failing :: epoll_world where
  "epoll_failing =
     epoll_world0\<lparr>kernel := \<lparr>ep_closed = False, interest = Map.empty, ctl_faults = [True]\<rparr>\<rparr>"

definition kqueue_failing :: kqueue_world where
  "kqueue_failing =
     kqueue_world0\<lparr>kernel := \<lparr>kq_closed = False, filters = Map.empty, kev_faults = [True]\<rparr>\<rparr>"

text \<open>The changes \<^verbatim>\<open>watch_update\<close> hands to \<^verbatim>\<open>kevent\<close> for a new watch.\<close>

definition kqueue_new_changes :: "int \<Rightarrow> MHD_WatchEvent set \<Rightarrow> addr \<Rightarrow> kevent list" where
  "kqueue_new_changes f evs a =
     (if MHD_WATCH_IN \<in> evs then [EV_SET f EVFILT_READ EV_ADD 0 0 (Some a)] else []) @
     (if MHD_WATCH_OUT \<in> evs then [EV_SET f EVFILT_WRITE EV_ADD 0 0 (Some a)] else [])"

lemma epoll_watch_new_outcome:
  "\<exists>p s'. epoll_watch_new f evs cb c s = Inr (p, s') \<and>
      (p = None \<longleftrightarrow> fst (malloc s) = None) \<and>
      (p = None \<longrightarrow> watch_heap s' = watch_heap s \<and> kernel s' = kernel s \<and> out s' = out s) \<and>
      (\<forall>a. p = Some a \<longrightarrow>
         a = brk s \<and>
         watch_heap s' = (watch_heap s)(a \<mapsto>
           \<lparr>fd = f, callback = cb, mhd_data = c, deleted = False, next = None,
            events = epoll_events_of evs\<rparr>) \<and>
         (epoll_events_of evs \<noteq> 0 \<and>
          fst (epoll_ctl (backend_fd s) EPOLL_CTL_ADD f
                 \<lparr>ev_events = epoll_events_of evs, data_ptr = Some a\<rparr> (kernel s)) < 0 \<longrightarrow>
            out s' = out s @ [''epoll_ctl failed''] \<and>
            interest (kernel s') = interest (kernel s)))"
proof (cases s rule: malloc_cases)
  case fail
  then show ?thesis by (simp add: epoll_watch_new_def)
next
  case ok
  show ?thesis
  proof (cases "epoll_events_of evs = 0")
    case True
    with ok show ?thesis
      by (simp add: epoll_watch_new_def epoll_watch_update_def Let_def)
  next
    case False
    obtain r k where c: "epoll_ctl (backend_fd s) EPOLL_CTL_ADD f
                 \<lparr>ev_events = epoll_events_of evs, data_ptr = Some (brk s)\<rparr> (kernel s) = (r, k)"
      by (cases "epoll_ctl (backend_fd s) EPOLL_CTL_ADD f
                 \<lparr>ev_events = epoll_events_of evs, data_ptr = Some (brk s)\<rparr> (kernel s)")
    have i: "r < 0 \<Longrightarrow> interest k = interest (kernel s)"
      using c by (auto simp: epoll_ctl_def Let_def split: if_splits)
    from ok False c i show ?thesis
      by (simp add: epoll_watch_new_def epoll_watch_update_def Let_def printf_def)
  qed
qed

lemma kqueue_watch_new_outcome:
  "\<exists>p s'. kqueue_watch_new f evs cb c s = Inr (p, s') \<and>
      (p = None \<longleftrightarrow> fst (malloc s) = None) \<and>
      (p = None \<longrightarrow> watch_heap s' = watch_heap s \<and> kernel s' = kernel s \<and> out s' = out s) \<and>
      (\<forall>a. p = Some a \<longrightarrow>
         a = brk s \<and>
         watch_heap s' = (watch_heap s)(a \<mapsto>
           \<lparr>fd = f, callback = cb, mhd_data = c, deleted = False, next = None,
            enable_read = (MHD_WATCH_IN \<in> evs), enable_write = (MHD_WATCH_OUT \<in> evs)\<rparr>) \<and>
         (fst (kevent_apply (backend_fd s) (kqueue_new_changes f evs a) (kernel s)) < 0 \<longrightarrow>
            out s' = out s @ [''Failed to apply kqueue changes'']))"
proof (cases s rule: malloc_cases)
  case fail
  then show ?thesis by (simp add: kqueue_watch_new_def)
next
  case ok
  obtain r k where c: "kevent_apply (backend_fd s) (kqueue_new_changes f evs (brk s)) (kernel s)
      = (r, k)"
    by (cases "kevent_apply (backend_fd s) (kqueue_new_changes f evs (brk s)) (kernel s)")
  from ok c show ?thesis
    by (cases "MHD_WATCH_IN \<in> evs"; cases "MHD_WATCH_OUT \<in> evs")
       (simp_all add: kqueue_watch_new_def kqueue_watch_update_def Let_def printf_def
        kqueue_new_changes_def)
qed

text \<open>
  C5, as the code has it. \<^verbatim>\<open>watch_new\<close> returns \<^verbatim>\<open>NULL\<close> exactly when \<^verbatim>\<open>malloc\<close>
  fails, and then no watch is stored, the backend is not called and nothing is printed.
  Otherwise it returns the new watch, stored live with the requested interest recorded,
  whatever the backend call returns; when that call fails the failure is printed (and the
  epoll interest list is as before), and the watch is returned all the same.
\<close>

theorem watch_new_outcome:
  "(\<exists>p s'. epoll_watch_new f evs cb c s = Inr (p, s') \<and>
      (p = None \<longleftrightarrow> fst (malloc s) = None) \<and>
      (p = None \<longrightarrow> watch_heap s' = watch_heap s \<and> kernel s' = kernel s \<and> out s' = out s) \<and>
      (\<forall>a. p = Some a \<longrightarrow>
         a = brk s \<and>
         watch_heap s' = (watch_heap s)(a \<mapsto>
           \<lparr>fd = f, callback = cb, mhd_data = c, deleted = False, next = None,
            events = epoll_events_of evs\<rparr>) \<and>
         (epoll_events_of evs \<noteq> 0 \<and>
          fst (epoll_ctl (backend_fd s) EPOLL_CTL_ADD f
                 \<lparr>ev_events = epoll_events_of evs, data_ptr = Some a\<rparr> (kernel s)) < 0 \<longrightarrow>
            out s' = out s @ [''epoll_ctl failed''] \<and>
            interest (kernel s') = interest (kernel s)))) \<and>
   (\<exists>p k'. kqueue_watch_new f evs cb c k = Inr (p, k') \<and>
      (p = None \<longleftrightarrow> fst (malloc k) = None) \<and>
      (p = None \<longrightarrow> watch_heap k' = watch_heap k \<and> kernel k' = kernel k \<and> out k' = out k) \<and>
      (\<forall>a. p = Some a \<longrightarrow>
         a = brk k \<and>
         watch_heap k' = (watch_heap k)(a \<mapsto>
           \<lparr>fd = f, callback = cb, mhd_data = c, deleted = False, next = None,
            enable_read = (MHD_WATCH_IN \<in> evs), enable_write = (MHD_WATCH_OUT \<in> evs)\<rparr>) \<and>
         (fst (kevent_apply (backend_fd k) (kqueue_new_changes f evs a) (kernel k)) < 0 \<longrightarrow>
            out k' = out k @ [''Failed to apply kqueue changes''])))"
  using epoll_watch_new_outcome [of f evs cb c s] kqueue_watch_new_outcome [of f evs cb c k]
  by (rule conjI)

text \<open>
  C5 as stated fails: with the backend call failing, \<^verbatim>\<open>watch_new\<close> returns the watch at
  address 0, which is stored with the interest recorded, although nothing is registered
  for descriptor 5.
\<close>

theorem watch_new_failure_counterexample:
  "map_sum id (\<lambda>(p, s). (p, watch_heap s 0, out s, interest (kernel s) 5))
     (epoll_watch_new 5 {MHD_WATCH_IN} 1 2 epoll_failing)
   = Inr (Some 0,
          Some \<lparr>fd = 5, callback = 1, mhd_data = 2, deleted = False, next = None,
                events = EPOLLIN\<rparr>,
          [''epoll_ctl failed''], None) \<and>
   map_sum id (\<lambda>(p, s). (p, watch_heap s 0, out s, filters (kernel s) (5, EVFILT_READ)))
     (kqueue_watch_new 5 {MHD_WATCH_IN} 1 2 kqueue_failing)
   = Inr (Some 0,
          Some \<lparr>fd = 5, callback = 1, mhd_data = 2, deleted = False, next = None,
                enable_read = True, enable_write = False\<rparr>,
          [''Failed to apply kqueue changes''], None)"
  by (simp add: epoll_failing_def kqueue_failing_def epoll_world0_def kqueue_world0_def
      watch_eval Let_def)

text \<open>The same call, as an instance of the theorem.\<close>

theorem watch_new_outcome_witness:
  "(\<exists>s'. epoll_watch_new 5 {MHD_WATCH_IN} 1 2 epoll_failing = Inr (Some 0, s') \<and>
         out s' = [''epoll_ctl failed''] \<and>
         watch_heap s' 0 = Some \<lparr>fd = 5, callback = 1, mhd_data = 2, deleted = False,
                                 next = None, events = EPOLLIN\<rparr>) \<and>
   (\<exists>k'. kqueue_watch_new 5 {MHD_WATCH_IN} 1 2 kqueue_failing = Inr (Some 0, k') \<and>
         out k' = [''Failed to apply kqueue changes''] \<and>
         watch_heap k' 0 = Some \<lparr>fd = 5, callback = 1, mhd_data = 2, deleted = False,
                                 next = None, enable_read = True, enable_write = False\<rparr>)"
proof -
  note inst = watch_new_outcome [of 5 "{MHD_WATCH_IN}" 1 2 epoll_failing kqueue_failing]
  have m: "fst (malloc epoll_failing) = Some 0" "fst (malloc kqueue_failing) = Some 0"
    "brk epoll_failing = 0" "brk kqueue_failing = 0"
    "out epoll_failing = []" "out kqueue_failing = []"
    by (simp_all add: malloc_def epoll_failing_def kqueue_failing_def epoll_world0_def
        kqueue_world0_def)
  have e: "epoll_events_of {MHD_WATCH_IN} = EPOLLIN" "EPOLLIN \<noteq> 0"
    by (simp_all add: epoll_events_of_def EPOLLIN_def)
  have f: "fst (epoll_ctl (backend_fd epoll_failing) EPOLL_CTL_ADD 5
                 \<lparr>ev_events = EPOLLIN, data_ptr = Some 0\<rparr> (kernel epoll_failing)) < 0"
    "fst (kevent_apply (backend_fd kqueue_failing) (kqueue_new_changes 5 {MHD_WATCH_IN} 0)
            (kernel kqueue_failing)) < 0"
    by (simp_all add: epoll_ctl_def kevent_apply_def kqueue_new_changes_def epoll_failing_def
        kqueue_failing_def epoll_world0_def kqueue_world0_def)
  obtain p s' where X:
    "epoll_watch_new 5 {MHD_WATCH_IN} 1 2 epoll_failing = Inr (p, s') \<and>
      (p = None \<longleftrightarrow> fst (malloc epoll_failing) = None) \<and>
      (p = None \<longrightarrow> watch_heap s' = watch_heap epoll_failing \<and>
         kernel s' = kernel epoll_failing \<and> out s' = out epoll_failing) \<and>
      (\<forall>a. p = Some a \<longrightarrow>
         a = brk epoll_failing \<and>
         watch_heap s' = (watch_heap epoll_failing)(a \<mapsto>
           \<lparr>fd = 5, callback = 1, mhd_data = 2, deleted = False, next = None,
            events = epoll_events_of {MHD_WATCH_IN}\<rparr>) \<and>
         (epoll_events_of {MHD_WATCH_IN} \<noteq> 0 \<and>
          fst (epoll_ctl (backend_fd epoll_failing) EPOLL_CTL_ADD 5
                 \<lparr>ev_events = epoll_events_of {MHD_WATCH_IN}, data_ptr = Some a\<rparr>
                 (kernel epoll_failing)) < 0 \<longrightarrow>
            out s' = out epoll_failing @ [''epoll_ctl failed''] \<and>
            interest (kernel s') = interest (kernel epoll_failing)))"
    using inst [THEN conjunct1] by (elim exE) (erule that)
  from X have 1: "epoll_watch_new 5 {MHD_WATCH_IN} 1 2 epoll_failing = Inr (p, s')"
    by (rule conjunct1)
  from X have 2: "p = None \<longleftrightarrow> fst (malloc epoll_failing) = None"
    by (rule conjunct2 [THEN conjunct1])
  from X have 3: "\<forall>a. p = Some a \<longrightarrow>
         a = brk epoll_failing \<and>
         watch_heap s' = (watch_heap epoll_failing)(a \<mapsto>
           \<lparr>fd = 5, callback = 1, mhd_data = 2, deleted = False, next = None,
            events = epoll_events_of {MHD_WATCH_IN}\<rparr>) \<and>
         (epoll_events_of {MHD_WATCH_IN} \<noteq> 0 \<and>
          fst (epoll_ctl (backend_fd epoll_failing) EPOLL_CTL_ADD 5
                 \<lparr>ev_events = epoll_events_of {MHD_WATCH_IN}, data_ptr = Some a\<rparr>
                 (kernel epoll_failing)) < 0 \<longrightarrow>
            out s' = out epoll_failing @ [''epoll_ctl failed''] \<and>
            interest (kernel s') = interest (kernel epoll_failing))"
    by (rule conjunct2 [THEN conjunct2, THEN conjunct2])
  from 2 m obtain a where pa: "p = Some a" by auto
  with 3 m have a0: "a = 0" by simp
  from 3 pa a0 e f m have "out s' = [''epoll_ctl failed'']"
    and "watch_heap s' 0 = Some \<lparr>fd = 5, callback = 1, mhd_data = 2, deleted = False,
                                 next = None, events = EPOLLIN\<rparr>"
    by simp_all
  with 1 pa a0 have A: "\<exists>s'. epoll_watch_new 5 {MHD_WATCH_IN} 1 2 epoll_failing = Inr (Some 0, s') \<and>
         out s' = [''epoll_ctl failed''] \<and>
         watch_heap s' 0 = Some \<lparr>fd = 5, callback = 1, mhd_data = 2, deleted = False,
                                 next = None, events = EPOLLIN\<rparr>"
    by blast
  obtain q k' where Y:
    "kqueue_watch_new 5 {MHD_WATCH_IN} 1 2 kqueue_failing = Inr (q, k') \<and>
      (q = None \<longleftrightarrow> fst (malloc kqueue_failing) = None) \<and>
      (q = None \<longrightarrow> watch_heap k' = watch_heap kqueue_failing \<and>
         kernel k' = kernel kqueue_failing \<and> out k' = out kqueue_failing) \<and>
      (\<forall>a. q = Some a \<longrightarrow>
         a = brk kqueue_failing \<and>
         watch_heap k' = (watch_heap kqueue_failing)(a \<mapsto>
           \<lparr>fd = 5, callback = 1, mhd_data = 2, deleted = False, next = None,
            enable_read = (MHD_WATCH_IN \<in> {MHD_WATCH_IN}),
            enable_write = (MHD_WATCH_OUT \<in> {MHD_WATCH_IN})\<rparr>) \<and>
         (fst (kevent_apply (backend_fd kqueue_failing) (kqueue_new_changes 5 {MHD_WATCH_IN} a)
                 (kernel kqueue_failing)) < 0 \<longrightarrow>
            out k' = out kqueue_failing @ [''Failed to apply kqueue changes'']))"
    using inst [THEN conjunct2] by (elim exE) (erule that)
  from Y have 1: "kqueue_watch_new 5 {MHD_WATCH_IN} 1 2 kqueue_failing = Inr (q, k')"
    by (rule conjunct1)
  from Y have 2: "q = None \<longleftrightarrow> fst (malloc kqueue_failing) = None"
    by (rule conjunct2 [THEN conjunct1])
  from Y have 3: "\<forall>a. q = Some a \<longrightarrow>
         a = brk kqueue_failing \<and>
         watch_heap k' = (watch_heap kqueue_failing)(a \<mapsto>
           \<lparr>fd = 5, callback = 1, mhd_data = 2, deleted = False, next = None,
            enable_read = (MHD_WATCH_IN \<in> {MHD_WATCH_IN}),
            enable_write = (MHD_WATCH_OUT \<in> {MHD_WATCH_IN})\<rparr>) \<and>
         (fst (kevent_apply (backend_fd kqueue_failing) (kqueue_new_changes 5 {MHD_WATCH_IN} a)
                 (kernel kqueue_failing)) < 0 \<longrightarrow>
            out k' = out kqueue_failing @ [''Failed to apply kqueue changes''])"
    by (rule conjunct2 [THEN conjunct2, THEN conjunct2])
  from 2 m obtain b where qb: "q = Some b" by auto
  with 3 m have b0: "b = 0" by simp
  from 3 qb b0 f m have "out k' = [''Failed to apply kqueue changes'']"
    and "watch_heap k' 0 = Some \<lparr>fd = 5, callback = 1, mhd_data = 2, deleted = False,
                                 next = None, enable_read = True, enable_write = False\<rparr>"
    by simp_all
  with 1 qb b0 have B: "\<exists>k'. kqueue_watch_new 5 {MHD_WATCH_IN} 1 2 kqueue_failing = Inr (Some 0, k') \<and>
         out k' = [''Failed to apply kqueue changes''] \<and>
         watch_heap k' 0 = Some \<lparr>fd = 5, callback = 1, mhd_data = 2, deleted = False,
                                 next = None, enable_read = True, enable_write = False\<rparr>"
    by blast
  from A B show ?thesis by (rule conjI)
qed

section \<open>The recorded and the registered mask\<close>

subsection \<open>The epoll backend\<close>

text \<open>
  The mask the kernel holds for a descriptor (nothing registered is the empty mask), and
  mask parity: every watch that is not tombstoned records the mask that is registered for
  its descriptor. For kqueue the mask is the pair of the read and the write filter.
\<close>

definition epoll_registered :: "epoll_kernel \<Rightarrow> int \<Rightarrow> 32 word" where
  "epoll_registered k f = (case interest k f of None \<Rightarrow> 0 | Some e \<Rightarrow> ev_events e)"

definition epoll_parity :: "epoll_world \<Rightarrow> bool" where
  "epoll_parity s =
     (\<forall>a w. watch_heap s a = Some w \<longrightarrow> \<not> deleted w \<longrightarrow>
        epoll_registered (kernel s) (fd w) = events w)"

definition kqueue_parity :: "kqueue_world \<Rightarrow> bool" where
  "kqueue_parity s =
     (\<forall>a w. watch_heap s a = Some w \<longrightarrow> \<not> deleted w \<longrightarrow>
        (filters (kernel s) (fd w, EVFILT_READ) \<noteq> None \<longleftrightarrow> enable_read w) \<and>
        (filters (kernel s) (fd w, EVFILT_WRITE) \<noteq> None \<longleftrightarrow> enable_write w))"

text \<open>
  What the interface asks of its caller. \<^verbatim>\<open>watch_update\<close> and \<^verbatim>\<open>watch_free\<close> are called
  on a watch that has not been freed, and \<^verbatim>\<open>watch_new\<close> on a descriptor that no watch
  that has not been freed is for: the kernel keys registrations by descriptor. A
  descriptor may be watched again once its watch has been freed, before the tombstone is
  released. \<open>orderly X cs s\<close>: every call of \<open>cs\<close>, made in order from \<open>s\<close>, is allowed in
  the state it is made in.
\<close>

definition live :: "('a MHD_Watch_scheme, 'k) world \<Rightarrow> addr \<Rightarrow> bool" where
  "live s a = (case watch_heap s a of None \<Rightarrow> False | Some w \<Rightarrow> \<not> deleted w)"

definition watched :: "('a MHD_Watch_scheme, 'k) world \<Rightarrow> int \<Rightarrow> bool" where
  "watched s f = (\<exists>a w. watch_heap s a = Some w \<and> \<not> deleted w \<and> fd w = f)"

fun allowed :: "api_call \<Rightarrow> ('a MHD_Watch_scheme, 'k) world \<Rightarrow> bool" where
  "allowed (Watch_new f evs cb d) s = (\<not> watched s f)"
| "allowed (Watch_update a evs) s = live s a"
| "allowed (Watch_free a) s = live s a"
| "allowed (Timeout_new tv cb d) s = True"
| "allowed (Timeout_update t tv) s = True"
| "allowed (Timeout_free t) s = True"
| "allowed Stop s = True"

fun orderly ::
  "(api_call \<Rightarrow> ('a MHD_Watch_scheme, 'k) world \<Rightarrow> fault + ('a MHD_Watch_scheme, 'k) world) \<Rightarrow>
   api_call list \<Rightarrow> ('a MHD_Watch_scheme, 'k) world \<Rightarrow> bool" where
  "orderly X [] s = True"
| "orderly X (c # cs) s =
     (allowed c s \<and>
      (case X c (s\<lparr>trace := trace s @ [Call c]\<rparr>) of
         Inl e \<Rightarrow> False
       | Inr s1 \<Rightarrow> orderly X cs s1))"

text \<open>
  What holds along such calls as long as no backend call fails: no two watches that are not
  tombstoned are for the same descriptor, such a watch records exactly what is registered
  for its descriptor, and every registration is for the descriptor of such a watch.
\<close>

definition live_distinct :: "('a MHD_Watch_scheme, 'k) world \<Rightarrow> bool" where
  "live_distinct s =
     (\<forall>a b w v. watch_heap s a = Some w \<longrightarrow> watch_heap s b = Some v \<longrightarrow> a \<noteq> b \<longrightarrow>
        \<not> deleted w \<longrightarrow> \<not> deleted v \<longrightarrow> fd w \<noteq> fd v)"

definition epoll_exact :: "epoll_world \<Rightarrow> bool" where
  "epoll_exact s =
     (\<forall>a w. watch_heap s a = Some w \<longrightarrow> \<not> deleted w \<longrightarrow>
        epoll_registered (kernel s) (fd w) = events w \<and>
        (events w = 0 \<longrightarrow> interest (kernel s) (fd w) = None))"

definition epoll_owned :: "epoll_world \<Rightarrow> bool" where
  "epoll_owned s = (\<forall>f. interest (kernel s) f \<noteq> None \<longrightarrow> watched s f)"

definition epoll_synced :: "epoll_world \<Rightarrow> bool" where
  "epoll_synced s = (epoll_exact s \<and> epoll_owned s \<and> live_distinct s \<and> bounded s)"

lemma allowed_trace [simp]: "allowed c (s\<lparr>trace := t\<rparr>) = allowed c s"
  by (cases c) (simp_all add: live_def watched_def)

text \<open>
  One watch and the registration of its descriptor change together.
\<close>

lemma epoll_synced_step:
  assumes E: "epoll_synced s"
    and h: "watch_heap s' = (watch_heap s)(a \<mapsto> w')"
    and i: "interest (kernel s') = (interest (kernel s))(fd w' := X)"
    and p: "\<not> deleted w' \<Longrightarrow>
              (case X of None \<Rightarrow> 0 | Some e \<Rightarrow> ev_events e) = events w' \<and>
              (events w' = 0 \<longrightarrow> X = None)"
    and q: "deleted w' \<Longrightarrow> X = None"
    and old: "\<And>w. watch_heap s a = Some w \<Longrightarrow> fd w = fd w' \<and> \<not> deleted w"
    and fresh: "watch_heap s a = None \<Longrightarrow> \<not> watched s (fd w')"
    and b: "a < brk s'" "brk s \<le> brk s'"
  shows "epoll_synced s'"
proof -
  from E have ex: "epoll_exact s" and ow: "epoll_owned s" and ld: "live_distinct s"
    and bd: "bounded s"
    by (simp_all add: epoll_synced_def)
  have other: "fd v \<noteq> fd w'" if "watch_heap s b = Some v" "b \<noteq> a" "\<not> deleted v" for b v
  proof (cases "watch_heap s a")
    case None
    from fresh [OF None] that show ?thesis by (auto simp: watched_def)
  next
    case (Some w)
    from old [OF Some] have "fd w = fd w'" "\<not> deleted w" by simp_all
    with ld Some that show ?thesis unfolding live_distinct_def by metis
  qed
  have ex': "epoll_exact s'"
    unfolding epoll_exact_def
  proof (intro allI impI)
    fix b v assume v: "watch_heap s' b = Some v" and l: "\<not> deleted v"
    show "epoll_registered (kernel s') (fd v) = events v \<and>
          (events v = 0 \<longrightarrow> interest (kernel s') (fd v) = None)"
    proof (cases "b = a")
      case True
      with v h have "v = w'" by simp
      with p l show ?thesis by (simp add: epoll_registered_def i)
    next
      case False
      with v h have v0: "watch_heap s b = Some v" by simp
      from other [OF v0 False l] have "interest (kernel s') (fd v) = interest (kernel s) (fd v)"
        by (simp add: i)
      moreover from ex v0 l have "epoll_registered (kernel s) (fd v) = events v \<and>
          (events v = 0 \<longrightarrow> interest (kernel s) (fd v) = None)"
        by (simp add: epoll_exact_def)
      ultimately show ?thesis by (simp add: epoll_registered_def)
    qed
  qed
  have ow': "epoll_owned s'"
    unfolding epoll_owned_def
  proof (intro allI impI)
    fix f assume f: "interest (kernel s') f \<noteq> None"
    show "watched s' f"
    proof (cases "f = fd w'")
      case True
      with f i have "X \<noteq> None" by simp
      with q have "\<not> deleted w'" by blast
      with h True show ?thesis by (auto simp: watched_def)
    next
      case False
      with f i have "interest (kernel s) f \<noteq> None" by simp
      with ow obtain b v where v: "watch_heap s b = Some v" "\<not> deleted v" "fd v = f"
        unfolding epoll_owned_def watched_def by blast
      with old False have "b \<noteq> a" by auto
      with v h show ?thesis by (auto simp: watched_def)
    qed
  qed
  have ld': "live_distinct s'"
    unfolding live_distinct_def
  proof (intro allI impI)
    fix c d w v
    assume c: "watch_heap s' c = Some w" and d: "watch_heap s' d = Some v" and ne: "c \<noteq> d"
      and lw: "\<not> deleted w" and lv: "\<not> deleted v"
    consider (ca) "c = a" "d \<noteq> a" | (da) "d = a" "c \<noteq> a" | (none) "c \<noteq> a" "d \<noteq> a"
      using ne by blast
    then show "fd w \<noteq> fd v"
    proof cases
      case ca
      with c d h have "w = w'" "watch_heap s d = Some v" by simp_all
      with other [OF _ ca(2) lv] show ?thesis by simp
    next
      case da
      with c d h have "v = w'" "watch_heap s c = Some w" by simp_all
      with other [OF _ da(2) lw] show ?thesis by simp
    next
      case none
      with c d h have "watch_heap s c = Some w" "watch_heap s d = Some v" by simp_all
      with ld ne lw lv show ?thesis unfolding live_distinct_def by blast
    qed
  qed
  have "bounded s'"
    using bd h b unfolding bounded_def
    by (auto split: if_splits intro: less_le_trans)
  with ex' ow' ld' show ?thesis by (simp add: epoll_synced_def)
qed

lemma epoll_synced_same:
  "epoll_synced s \<Longrightarrow> watch_heap s' = watch_heap s \<Longrightarrow> kernel s' = kernel s \<Longrightarrow>
   brk s \<le> brk s' \<Longrightarrow> epoll_synced s'"
  unfolding epoll_synced_def epoll_exact_def epoll_owned_def live_distinct_def bounded_def
    watched_def
  by (auto intro: less_le_trans)

text \<open>
  What \<^verbatim>\<open>epoll_ctl\<close> does when it does not fail, and what \<^verbatim>\<open>watch_update\<close> does when
  it prints nothing.
\<close>

lemma epoll_ctl_ok:
  assumes "epoll_ctl e op f ev k = (r, k')" and "\<not> r < 0"
  shows "interest k' =
           (case op of
              EPOLL_CTL_ADD \<Rightarrow> (interest k)(f \<mapsto> ev)
            | EPOLL_CTL_DEL \<Rightarrow> (interest k)(f := None)
            | EPOLL_CTL_MOD \<Rightarrow> (interest k)(f \<mapsto> ev))"
  using assms by (auto simp: epoll_ctl_def Let_def split: if_splits epoll_op.splits)

lemma printed_or_not:
  assumes "Inr ((if r < 0 then printf m (s\<lparr>kernel := k\<rparr>) else s\<lparr>kernel := k\<rparr>)
                \<lparr>watch_heap := H\<rparr>) = Inr s'"
    and "out s' = out s"
  shows "\<not> r < 0 \<and> s' = s\<lparr>kernel := k, watch_heap := H\<rparr>"
  using assms by (cases "r < 0") (auto simp: printf_def)

lemma epoll_watch_update_quiet:
  assumes u: "epoll_watch_update a evs s = Inr s'" and o: "out s' = out s"
    and w: "watch_heap s a = Some w"
  shows "(epoll_events_of evs = events w \<and> s' = s) \<or>
         (watch_heap s' = (watch_heap s)(a \<mapsto> w\<lparr>events := epoll_events_of evs\<rparr>) \<and>
          interest (kernel s') = (interest (kernel s))(fd w :=
            (if epoll_events_of evs = 0 then None
             else Some \<lparr>ev_events = epoll_events_of evs, data_ptr = Some a\<rparr>)) \<and>
          brk s' = brk s)"
proof -
  let ?ev = "\<lparr>ev_events = epoll_events_of evs, data_ptr = Some a\<rparr>"
  let ?H = "(watch_heap s)(a \<mapsto> w\<lparr>events := epoll_events_of evs\<rparr>)"
  consider (same) "epoll_events_of evs = events w"
    | (add) "events w = 0" "epoll_events_of evs \<noteq> 0"
    | (del) "events w \<noteq> 0" "epoll_events_of evs = 0"
    | (mod) "events w \<noteq> 0" "epoll_events_of evs \<noteq> 0" "epoll_events_of evs \<noteq> events w"
    by fastforce
  then show ?thesis
  proof cases
    case same
    with u w show ?thesis by (simp add: epoll_watch_update_def)
  next
    case add
    obtain r k where c: "epoll_ctl (backend_fd s) EPOLL_CTL_ADD (fd w) ?ev (kernel s) = (r, k)"
      by (cases "epoll_ctl (backend_fd s) EPOLL_CTL_ADD (fd w) ?ev (kernel s)")
    from u w add c
    have "Inr ((if r < 0 then printf ''epoll_ctl failed'' (s\<lparr>kernel := k\<rparr>)
                else s\<lparr>kernel := k\<rparr>)\<lparr>watch_heap := ?H\<rparr>) = Inr s'"
      by (simp add: epoll_watch_update_def Let_def printf_def split: if_splits)
    from printed_or_not [OF this o] epoll_ctl_ok [OF c] add show ?thesis by simp
  next
    case del
    obtain r k where c: "epoll_ctl (backend_fd s) EPOLL_CTL_DEL (fd w) ?ev (kernel s) = (r, k)"
      by (cases "epoll_ctl (backend_fd s) EPOLL_CTL_DEL (fd w) ?ev (kernel s)")
    from u w del c
    have "Inr ((if r < 0 then printf ''epoll_ctl failed'' (s\<lparr>kernel := k\<rparr>)
                else s\<lparr>kernel := k\<rparr>)\<lparr>watch_heap := ?H\<rparr>) = Inr s'"
      by (simp add: epoll_watch_update_def Let_def printf_def split: if_splits)
    from printed_or_not [OF this o] epoll_ctl_ok [OF c] del show ?thesis by simp
  next
    case mod
    obtain r k where c: "epoll_ctl (backend_fd s) EPOLL_CTL_MOD (fd w) ?ev (kernel s) = (r, k)"
      by (cases "epoll_ctl (backend_fd s) EPOLL_CTL_MOD (fd w) ?ev (kernel s)")
    from u w mod c
    have "Inr ((if r < 0 then printf ''epoll_ctl failed'' (s\<lparr>kernel := k\<rparr>)
                else s\<lparr>kernel := k\<rparr>)\<lparr>watch_heap := ?H\<rparr>) = Inr s'"
      by (simp add: epoll_watch_update_def Let_def printf_def split: if_splits)
    from printed_or_not [OF this o] epoll_ctl_ok [OF c] mod show ?thesis by simp
  qed
qed

lemma epoll_update_synced:
  assumes u: "epoll_watch_update a evs s = Inr s'" and o: "out s' = out s"
    and E: "epoll_synced s" and l: "live s a"
  shows "epoll_synced s'"
proof -
  from l obtain w where w: "watch_heap s a = Some w" and lw: "\<not> deleted w"
    by (auto simp: live_def split: option.splits)
  from epoll_watch_update_quiet [OF u o w] show ?thesis
  proof (elim disjE conjE)
    assume "s' = s"
    with E show ?thesis by simp
  next
    assume h: "watch_heap s' = (watch_heap s)(a \<mapsto> w\<lparr>events := epoll_events_of evs\<rparr>)"
      and i: "interest (kernel s') = (interest (kernel s))(fd w :=
            (if epoll_events_of evs = 0 then None
             else Some \<lparr>ev_events = epoll_events_of evs, data_ptr = Some a\<rparr>))"
      and b: "brk s' = brk s"
    from E w have "a < brk s" by (auto simp: epoll_synced_def bounded_def)
    with b show ?thesis
      by (intro epoll_synced_step [OF E h, where X = "if epoll_events_of evs = 0 then None
             else Some \<lparr>ev_events = epoll_events_of evs, data_ptr = Some a\<rparr>"])
         (use i w lw in \<open>auto split: if_splits\<close>)
  qed
qed

text \<open>
  The timeout operations leave the watches, the kernel and the output alone.
\<close>

definition untouched :: "('w, 'k) world \<Rightarrow> ('w, 'k) world \<Rightarrow> bool" where
  "untouched s s' =
     (watch_heap s' = watch_heap s \<and> kernel s' = kernel s \<and> out s' = out s \<and> brk s \<le> brk s')"

lemma timeout_new_untouched: "untouched s (snd (timeout_new tv cb c s))"
  by (cases s rule: malloc_cases) (simp_all add: timeout_new_def untouched_def)

lemma timeout_update_untouched: "timeout_update a tv s = Inr s' \<Longrightarrow> untouched s s'"
  by (auto simp: timeout_update_def untouched_def split: option.splits)

lemma timeout_free_untouched: "timeout_free a s = Inr s' \<Longrightarrow> untouched s s'"
  unfolding timeout_free_def
  by (auto simp: untouched_def free_timeout_def set_next_def set_previous_def
      split: option.splits if_splits sum.splits)

text \<open>
  \<^verbatim>\<open>watch_free\<close> and \<^verbatim>\<open>watch_new\<close> of the epoll backend, when they print nothing.
\<close>

lemma epoll_watch_free_quiet:
  assumes u: "epoll_watch_free a s = Inr s'" and o: "out s' = out s"
    and w: "watch_heap s a = Some w"
  shows "\<exists>w'. watch_heap s' = (watch_heap s)(a \<mapsto> w') \<and> fd w' = fd w \<and> deleted w' \<and>
          interest (kernel s') =
            (if events w \<noteq> 0 then (interest (kernel s))(fd w := None) else interest (kernel s)) \<and>
          brk s' = brk s"
proof (cases "events w = 0")
  case True
  with u w show ?thesis
    by (auto simp: epoll_watch_free_def orphan_def split: if_splits)
next
  case False
  let ?ev = "\<lparr>ev_events = 0, data_ptr = None\<rparr>"
  obtain r k where c: "epoll_ctl (backend_fd s) EPOLL_CTL_DEL (fd w) ?ev (kernel s) = (r, k)"
    by (cases "epoll_ctl (backend_fd s) EPOLL_CTL_DEL (fd w) ?ev (kernel s)")
  have r: "\<not> r < 0"
  proof
    assume "r < 0"
    with u w False c have "out s' = out s @ [''epoll_ctl failed'']"
      by (auto simp: epoll_watch_free_def orphan_def printf_def split: if_splits)
    with o show False by simp
  qed
  with u w False c epoll_ctl_ok [OF c r] show ?thesis
    by (auto simp: epoll_watch_free_def orphan_def split: if_splits)
qed

lemma epoll_free_synced:
  assumes u: "epoll_watch_free a s = Inr s'" and o: "out s' = out s"
    and E: "epoll_synced s" and l: "live s a"
  shows "epoll_synced s'"
proof -
  from l obtain w where w: "watch_heap s a = Some w" and lw: "\<not> deleted w"
    by (auto simp: live_def split: option.splits)
  from epoll_watch_free_quiet [OF u o w] obtain w' where
    h: "watch_heap s' = (watch_heap s)(a \<mapsto> w')" and f: "fd w' = fd w" and dl: "deleted w'"
    and i: "interest (kernel s') =
            (if events w \<noteq> 0 then (interest (kernel s))(fd w := None) else interest (kernel s))"
    and b: "brk s' = brk s"
    by blast
  from E w have lt: "a < brk s" by (auto simp: epoll_synced_def bounded_def)
  from E w lw have z: "events w = 0 \<Longrightarrow> interest (kernel s) (fd w) = None"
    by (simp add: epoll_synced_def epoll_exact_def)
  have i': "interest (kernel s') = (interest (kernel s))(fd w' := None)"
    using i f z by (cases "events w = 0") auto
  show ?thesis
    by (rule epoll_synced_step [OF E h i']) (use dl w lw f lt b in auto)
qed

lemma epoll_new_synced:
  assumes u: "epoll_watch_new f evs cb c s = Inr (p, s')" and o: "out s' = out s"
    and E: "epoll_synced s" and n: "\<not> watched s f"
  shows "epoll_synced s'"
proof (cases s rule: malloc_cases)
  case fail
  with u have "s' = s\<lparr>malloc_faults := tl (malloc_faults s)\<rparr>"
    by (auto simp: epoll_watch_new_def)
  with E show ?thesis by (auto intro: epoll_synced_same)
next
  case ok
  let ?w0 = "\<lparr>fd = f, callback = cb, mhd_data = c, deleted = False, next = None,
              events = 0\<rparr> :: epoll_Watch"
  let ?s2 = "s\<lparr>malloc_faults := tl (malloc_faults s), brk := Suc (brk s),
               watch_heap := (watch_heap s)(brk s \<mapsto> ?w0)\<rparr>"
  from u ok have up: "epoll_watch_update (brk s) evs ?s2 = Inr s'"
    by (simp add: epoll_watch_new_def split: sum.splits)
  from E have fresh: "watch_heap s (brk s) = None"
    by (cases "watch_heap s (brk s)") (auto simp: epoll_synced_def bounded_def)
  from E n have none: "interest (kernel s) f = None"
    by (auto simp: epoll_synced_def epoll_owned_def)
  have h: "watch_heap ?s2 = (watch_heap s)(brk s \<mapsto> ?w0)" by simp
  have i: "interest (kernel ?s2) = (interest (kernel s))(fd ?w0 := None)"
    using none by auto
  have E2: "epoll_synced ?s2"
    by (rule epoll_synced_step [OF E h i]) (use fresh n in auto)
  have o2: "out s' = out ?s2" using o by simp
  have l2: "live ?s2 (brk s)" by (simp add: live_def)
  from epoll_update_synced [OF up o2 E2 l2] show ?thesis .
qed

lemma epoll_api_synced:
  assumes a: "epoll_api c s = Inr s'" and o: "out s' = out s"
    and E: "epoll_synced s" and al: "allowed c s"
  shows "epoll_synced s'"
proof (cases c)
  case (Watch_new f evs cb x)
  with a obtain p where "epoll_watch_new f evs cb x s = Inr (p, s')"
    by (auto split: sum.splits)
  from epoll_new_synced [OF this o E] al Watch_new show ?thesis by simp
next
  case (Watch_update x evs)
  with a al epoll_update_synced [OF _ o E] show ?thesis by simp
next
  case (Watch_free x)
  with a al epoll_free_synced [OF _ o E] show ?thesis by simp
next
  case (Timeout_new tv cb x)
  with a timeout_new_untouched [of s tv cb x] E show ?thesis
    by (auto simp: untouched_def intro: epoll_synced_same)
next
  case (Timeout_update x tv)
  with a timeout_update_untouched [of x tv s s'] E show ?thesis
    by (auto simp: untouched_def intro: epoll_synced_same)
next
  case (Timeout_free x)
  with a timeout_free_untouched [of x s s'] E show ?thesis
    by (auto simp: untouched_def intro: epoll_synced_same)
next
  case Stop
  with a E show ?thesis by (auto intro: epoll_synced_same)
qed

text \<open>
  Output is only ever appended to, so a run that has printed nothing at its end has
  printed nothing in any of its calls.
\<close>

lemma epoll_watch_update_out:
  "epoll_watch_update a evs s = Inr s' \<Longrightarrow> \<exists>m. out s' = out s @ m"
  by (auto simp: epoll_watch_update_def Let_def printf_def split: option.splits if_splits prod.splits)

lemma orphan_out: "orphan a s = Inr s' \<Longrightarrow> out s' = out s"
  by (auto simp: orphan_def split: option.splits if_splits)

lemma epoll_api_out: "epoll_api c s = Inr s' \<Longrightarrow> \<exists>m. out s' = out s @ m"
proof (cases c)
  case (Watch_new f evs cb x)
  assume "epoll_api c s = Inr s'"
  with Watch_new obtain p where n: "epoll_watch_new f evs cb x s = Inr (p, s')"
    by (auto split: sum.splits)
  show ?thesis
  proof (cases s rule: malloc_cases)
    case fail
    with n have "s' = s\<lparr>malloc_faults := tl (malloc_faults s)\<rparr>"
      by (auto simp: epoll_watch_new_def)
    then show ?thesis by simp
  next
    case ok
    with n obtain s2 where "epoll_watch_update (brk s) evs s2 = Inr s'" "out s2 = out s"
      by (auto simp: epoll_watch_new_def split: sum.splits)
    with epoll_watch_update_out [of "brk s" evs s2 s'] show ?thesis by simp
  qed
next
  case (Watch_update x evs)
  assume "epoll_api c s = Inr s'"
  with Watch_update show ?thesis by (simp add: epoll_watch_update_out)
next
  case (Watch_free x)
  assume "epoll_api c s = Inr s'"
  with Watch_free show ?thesis
    by (auto simp: epoll_watch_free_def Let_def printf_def
        split: option.splits if_splits prod.splits dest!: orphan_out)
next
  case (Timeout_new tv cb x)
  assume "epoll_api c s = Inr s'"
  with Timeout_new timeout_new_untouched [of s tv cb x] show ?thesis
    by (auto simp: untouched_def)
next
  case (Timeout_update x tv)
  assume "epoll_api c s = Inr s'"
  with Timeout_update timeout_update_untouched [of x tv s s'] show ?thesis
    by (auto simp: untouched_def)
next
  case (Timeout_free x)
  assume "epoll_api c s = Inr s'"
  with Timeout_free timeout_free_untouched [of x s s'] show ?thesis
    by (auto simp: untouched_def)
next
  case Stop
  assume "epoll_api c s = Inr s'"
  with Stop show ?thesis by auto
qed

lemma host_calls_out:
  assumes X: "\<And>c s s'. X c s = Inr s' \<Longrightarrow> \<exists>m. out s' = out s @ m"
  shows "host_calls X cs s = Inr s' \<Longrightarrow> \<exists>m. out s' = out s @ m"
proof (induction cs arbitrary: s)
  case Nil
  then show ?case by simp
next
  case (Cons c cs)
  from Cons.prems obtain s1 where x: "X c (s\<lparr>trace := trace s @ [Call c]\<rparr>) = Inr s1"
    and r: "host_calls X cs s1 = Inr s'"
    by (auto split: sum.splits)
  from X [OF x] Cons.IH [OF r] show ?case by auto
qed

lemma epoll_run_synced:
  "host_calls epoll_api cs s = Inr s' \<Longrightarrow> orderly epoll_api cs s \<Longrightarrow> out s' = out s \<Longrightarrow>
   epoll_synced s \<Longrightarrow> epoll_synced s'"
proof (induction cs arbitrary: s)
  case Nil
  then show ?case by simp
next
  case (Cons c cs)
  let ?s0 = "s\<lparr>trace := trace s @ [Call c]\<rparr>"
  from Cons.prems(1) obtain s1 where x: "epoll_api c ?s0 = Inr s1"
    and r: "host_calls epoll_api cs s1 = Inr s'"
    by (auto split: sum.splits)
  from Cons.prems(2) x have al: "allowed c ?s0" and od: "orderly epoll_api cs s1" by simp_all
  from epoll_api_out [OF x] obtain m1 where m1: "out s1 = out s @ m1" by auto
  have "\<exists>m. out s' = out s1 @ m"
    by (rule host_calls_out [OF _ r]) (rule epoll_api_out)
  then obtain m2 where m2: "out s' = out s1 @ m2" by auto
  from m1 m2 Cons.prems(3) have o1: "out s1 = out ?s0" and o2: "out s' = out s1" by auto
  from Cons.prems(4) have E0: "epoll_synced ?s0"
    by (auto intro: epoll_synced_same)
  from epoll_api_synced [OF x o1 E0 al] have "epoll_synced s1" .
  from Cons.IH [OF r od o2 this] show ?case .
qed

subsection \<open>The kqueue backend\<close>

definition kqueue_owned :: "kqueue_world \<Rightarrow> bool" where
  "kqueue_owned s =
     (\<forall>f flt. filters (kernel s) (f, flt) \<noteq> None \<longrightarrow>
        watched s f \<and> (flt = EVFILT_READ \<or> flt = EVFILT_WRITE))"

definition kqueue_synced :: "kqueue_world \<Rightarrow> bool" where
  "kqueue_synced s = (kqueue_parity s \<and> kqueue_owned s \<and> live_distinct s \<and> bounded s)"

text \<open>
  The effect of one change on the filters, and the changes \<^verbatim>\<open>watch_update\<close> and
  \<^verbatim>\<open>watch_free\<close> hand to \<^verbatim>\<open>kevent\<close>.
\<close>

definition kqueue_change :: "kevent \<Rightarrow> (int \<times> int \<rightharpoonup> ptr) \<Rightarrow> (int \<times> int \<rightharpoonup> ptr)" where
  "kqueue_change c F =
     (if kev_flags c AND EV_DELETE \<noteq> 0 then F((kev_ident c, kev_filter c) := None)
      else if kev_flags c AND EV_ADD \<noteq> 0 then F((kev_ident c, kev_filter c) \<mapsto> kev_udata c)
      else F)"

definition kqueue_update_changes :: "addr \<Rightarrow> kqueue_Watch \<Rightarrow> MHD_WatchEvent set \<Rightarrow> kevent list" where
  "kqueue_update_changes a w evs =
     (if (MHD_WATCH_IN \<in> evs) \<noteq> enable_read w then
        [if MHD_WATCH_IN \<in> evs then EV_SET (fd w) EVFILT_READ EV_ADD 0 0 (Some a)
         else EV_SET (fd w) EVFILT_READ EV_DELETE 0 0 (Some a)]
      else []) @
     (if (MHD_WATCH_OUT \<in> evs) \<noteq> enable_write w then
        [if MHD_WATCH_OUT \<in> evs then EV_SET (fd w) EVFILT_WRITE EV_ADD 0 0 (Some a)
         else EV_SET (fd w) EVFILT_WRITE EV_DELETE 0 0 (Some a)]
      else [])"

definition kqueue_free_changes :: "addr \<Rightarrow> kqueue_Watch \<Rightarrow> kevent list" where
  "kqueue_free_changes a w =
     (if enable_read w then [EV_SET (fd w) EVFILT_READ EV_DELETE 0 0 (Some a)] else []) @
     (if enable_write w then [EV_SET (fd w) EVFILT_WRITE EV_DELETE 0 0 (Some a)] else [])"


lemma kqueue_synced_step:
  assumes E: "kqueue_synced s"
    and h: "watch_heap s' = (watch_heap s)(a \<mapsto> w')"
    and i: "filters (kernel s') =
              (filters (kernel s))((fd w', EVFILT_READ) := R, (fd w', EVFILT_WRITE) := W)"
    and p: "\<not> deleted w' \<Longrightarrow> (R \<noteq> None \<longleftrightarrow> enable_read w') \<and> (W \<noteq> None \<longleftrightarrow> enable_write w')"
    and q: "deleted w' \<Longrightarrow> R = None \<and> W = None"
    and old: "\<And>w. watch_heap s a = Some w \<Longrightarrow> fd w = fd w' \<and> \<not> deleted w"
    and fresh: "watch_heap s a = None \<Longrightarrow> \<not> watched s (fd w')"
    and b: "a < brk s'" "brk s \<le> brk s'"
  shows "kqueue_synced s'"
proof -
  from E have pa: "kqueue_parity s" and ow: "kqueue_owned s" and ld: "live_distinct s"
    and bd: "bounded s"
    by (simp_all add: kqueue_synced_def)
  have ne: "EVFILT_READ \<noteq> EVFILT_WRITE" by (simp add: EVFILT_READ_def EVFILT_WRITE_def)
  have other: "fd v \<noteq> fd w'" if "watch_heap s b = Some v" "b \<noteq> a" "\<not> deleted v" for b v
  proof (cases "watch_heap s a")
    case None
    from fresh [OF None] that show ?thesis by (auto simp: watched_def)
  next
    case (Some w)
    from old [OF Some] have "fd w = fd w'" "\<not> deleted w" by simp_all
    with ld Some that show ?thesis unfolding live_distinct_def by metis
  qed
  have pa': "kqueue_parity s'"
    unfolding kqueue_parity_def
  proof (intro allI impI)
    fix b v assume v: "watch_heap s' b = Some v" and l: "\<not> deleted v"
    show "(filters (kernel s') (fd v, EVFILT_READ) \<noteq> None \<longleftrightarrow> enable_read v) \<and>
          (filters (kernel s') (fd v, EVFILT_WRITE) \<noteq> None \<longleftrightarrow> enable_write v)"
    proof (cases "b = a")
      case True
      with v h have "v = w'" by simp
      with p l ne show ?thesis by (simp add: i)
    next
      case False
      with v h have v0: "watch_heap s b = Some v" by simp
      from other [OF v0 False l] have
        "filters (kernel s') (fd v, x) = filters (kernel s) (fd v, x)" for x
        by (simp add: i)
      moreover from pa v0 l have
        "(filters (kernel s) (fd v, EVFILT_READ) \<noteq> None \<longleftrightarrow> enable_read v) \<and>
         (filters (kernel s) (fd v, EVFILT_WRITE) \<noteq> None \<longleftrightarrow> enable_write v)"
        by (simp add: kqueue_parity_def)
      ultimately show ?thesis by simp
    qed
  qed
  have ow': "kqueue_owned s'"
    unfolding kqueue_owned_def
  proof (intro allI impI)
    fix f flt assume f: "filters (kernel s') (f, flt) \<noteq> None"
    have rw: "flt = EVFILT_READ \<or> flt = EVFILT_WRITE" if "f = fd w'"
    proof (rule ccontr)
      assume n: "\<not> (flt = EVFILT_READ \<or> flt = EVFILT_WRITE)"
      with f i have "filters (kernel s) (f, flt) \<noteq> None" by simp
      with ow n show False unfolding kqueue_owned_def by blast
    qed
    show "watched s' f \<and> (flt = EVFILT_READ \<or> flt = EVFILT_WRITE)"
    proof (cases "f = fd w'")
      case True
      from rw [OF True] f i True ne have "R \<noteq> None \<or> W \<noteq> None" by auto
      with q have "\<not> deleted w'" by blast
      with h True rw show ?thesis by (auto simp: watched_def)
    next
      case False
      with f i have "filters (kernel s) (f, flt) \<noteq> None" by simp
      with ow obtain b v where v: "watch_heap s b = Some v" "\<not> deleted v" "fd v = f"
        and r: "flt = EVFILT_READ \<or> flt = EVFILT_WRITE"
        unfolding kqueue_owned_def watched_def by blast
      with old False have "b \<noteq> a" by auto
      with v h r show ?thesis by (auto simp: watched_def)
    qed
  qed
  have ld': "live_distinct s'"
    unfolding live_distinct_def
  proof (intro allI impI)
    fix c d w v
    assume c: "watch_heap s' c = Some w" and d: "watch_heap s' d = Some v" and ne: "c \<noteq> d"
      and lw: "\<not> deleted w" and lv: "\<not> deleted v"
    consider (ca) "c = a" "d \<noteq> a" | (da) "d = a" "c \<noteq> a" | (none) "c \<noteq> a" "d \<noteq> a"
      using ne by blast
    then show "fd w \<noteq> fd v"
    proof cases
      case ca
      with c d h have "w = w'" "watch_heap s d = Some v" by simp_all
      with other [OF _ ca(2) lv] show ?thesis by simp
    next
      case da
      with c d h have "v = w'" "watch_heap s c = Some w" by simp_all
      with other [OF _ da(2) lw] show ?thesis by simp
    next
      case none
      with c d h have "watch_heap s c = Some w" "watch_heap s d = Some v" by simp_all
      with ld ne lw lv show ?thesis unfolding live_distinct_def by blast
    qed
  qed
  have "bounded s'"
    using bd h b unfolding bounded_def
    by (auto split: if_splits intro: less_le_trans)
  with pa' ow' ld' show ?thesis by (simp add: kqueue_synced_def)
qed

lemma kqueue_synced_same:
  "kqueue_synced s \<Longrightarrow> watch_heap s' = watch_heap s \<Longrightarrow> kernel s' = kernel s \<Longrightarrow>
   brk s \<le> brk s' \<Longrightarrow> kqueue_synced s'"
  unfolding kqueue_synced_def kqueue_parity_def kqueue_owned_def live_distinct_def bounded_def
    watched_def
  by (auto intro: less_le_trans)

lemma kevent_changes_ok:
  "kevent_changes cs k = (r, k') \<Longrightarrow> \<not> r < 0 \<Longrightarrow> filters k' = fold kqueue_change cs (filters k)"
proof (induction cs arbitrary: k)
  case Nil
  then show ?case by simp
next
  case (Cons c cs)
  let ?k1 = "k\<lparr>kev_faults := tl (kev_faults k)\<rparr>"
  consider (del) "kev_flags c AND EV_DELETE \<noteq> 0"
    | (add) "kev_flags c AND EV_DELETE = 0" "kev_flags c AND EV_ADD \<noteq> 0"
    | (nop) "kev_flags c AND EV_DELETE = 0" "kev_flags c AND EV_ADD = 0"
    by blast
  then show ?case
  proof cases
    case del
    with Cons.prems have run:
      "kevent_changes cs (?k1\<lparr>filters := (filters k)((kev_ident c, kev_filter c) := None)\<rparr>) = (r, k')"
      by (auto simp: Let_def split: if_splits)
    have kc: "kqueue_change c (filters k) = filters (?k1\<lparr>filters := (filters k)((kev_ident c, kev_filter c) := None)\<rparr>)"
      using del by (simp add: kqueue_change_def)
    have "filters k' = fold kqueue_change cs (kqueue_change c (filters k))"
      unfolding kc using run Cons.prems(2) by (rule Cons.IH)
    then show ?thesis by simp
  next
    case add
    with Cons.prems have run:
      "kevent_changes cs (?k1\<lparr>filters := (filters k)((kev_ident c, kev_filter c) \<mapsto> kev_udata c)\<rparr>)
         = (r, k')"
      by (auto simp: Let_def split: if_splits)
    have kc: "kqueue_change c (filters k) = filters (?k1\<lparr>filters := (filters k)((kev_ident c, kev_filter c) \<mapsto> kev_udata c)\<rparr>)"
      using add by (simp add: kqueue_change_def)
    have "filters k' = fold kqueue_change cs (kqueue_change c (filters k))"
      unfolding kc using run Cons.prems(2) by (rule Cons.IH)
    then show ?thesis by simp
  next
    case nop
    with Cons.prems have run: "kevent_changes cs ?k1 = (r, k')"
      by (auto simp: Let_def split: if_splits)
    have kc: "kqueue_change c (filters k) = filters (?k1)"
      using nop by (simp add: kqueue_change_def)
    have "filters k' = fold kqueue_change cs (kqueue_change c (filters k))"
      unfolding kc using run Cons.prems(2) by (rule Cons.IH)
    then show ?thesis by simp
  qed
qed

lemma kevent_apply_ok:
  "kevent_apply q cs k = (r, k') \<Longrightarrow> \<not> r < 0 \<Longrightarrow> filters k' = fold kqueue_change cs (filters k)"
  by (auto simp: kevent_apply_def kevent_changes_ok split: if_splits)

lemma kqueue_watch_update_form:
  assumes w: "watch_heap s a = Some w"
  shows "kqueue_watch_update a evs s =
     Inr (let (r, k) = kevent_apply (backend_fd s) (kqueue_update_changes a w evs) (kernel s);
              s1 = s\<lparr>watch_heap := (watch_heap s)(a \<mapsto>
                     w\<lparr>enable_read := MHD_WATCH_IN \<in> evs, enable_write := MHD_WATCH_OUT \<in> evs\<rparr>),
                     kernel := k\<rparr>
          in if r < 0 then printf ''Failed to apply kqueue changes'' s1 else s1)"
proof -
  have r: "w\<lparr>enable_read := enable_read w\<rparr> = w" "\<And>v :: kqueue_Watch. v\<lparr>enable_write := enable_write v\<rparr> = v"
    by simp_all
  show ?thesis
    using w
    by (cases "(MHD_WATCH_IN \<in> evs) = enable_read w"; cases "(MHD_WATCH_OUT \<in> evs) = enable_write w")
       (auto simp: kqueue_watch_update_def kqueue_update_changes_def Let_def split: prod.splits)
qed

lemma kqueue_update_fold:
  "fold kqueue_change (kqueue_update_changes a w evs) F =
     F((fd w, EVFILT_READ) :=
         (if (MHD_WATCH_IN \<in> evs) \<noteq> enable_read w
          then (if MHD_WATCH_IN \<in> evs then Some (Some a) else None)
          else F (fd w, EVFILT_READ)),
       (fd w, EVFILT_WRITE) :=
         (if (MHD_WATCH_OUT \<in> evs) \<noteq> enable_write w
          then (if MHD_WATCH_OUT \<in> evs then Some (Some a) else None)
          else F (fd w, EVFILT_WRITE)))"
  by (rule ext)
     (auto simp: kqueue_update_changes_def kqueue_change_def EV_SET_def EV_ADD_def EV_DELETE_def
        EVFILT_READ_def EVFILT_WRITE_def)

lemma kqueue_free_fold:
  "fold kqueue_change (kqueue_free_changes a w) F =
     F((fd w, EVFILT_READ) := (if enable_read w then None else F (fd w, EVFILT_READ)),
       (fd w, EVFILT_WRITE) := (if enable_write w then None else F (fd w, EVFILT_WRITE)))"
  by (rule ext)
     (auto simp: kqueue_free_changes_def kqueue_change_def EV_SET_def EV_ADD_def EV_DELETE_def
        EVFILT_READ_def EVFILT_WRITE_def)

lemma kqueue_watch_update_quiet:
  assumes u: "kqueue_watch_update a evs s = Inr s'" and o: "out s' = out s"
    and w: "watch_heap s a = Some w"
  shows "watch_heap s' = (watch_heap s)(a \<mapsto>
            w\<lparr>enable_read := MHD_WATCH_IN \<in> evs, enable_write := MHD_WATCH_OUT \<in> evs\<rparr>) \<and>
         filters (kernel s') =
           fold kqueue_change (kqueue_update_changes a w evs) (filters (kernel s)) \<and>
         brk s' = brk s"
proof -
  obtain r k where c: "kevent_apply (backend_fd s) (kqueue_update_changes a w evs) (kernel s) = (r, k)"
    by (cases "kevent_apply (backend_fd s) (kqueue_update_changes a w evs) (kernel s)")
  have r: "\<not> r < 0"
  proof
    assume "r < 0"
    with u c have "out s' = out s @ [''Failed to apply kqueue changes'']"
      by (auto simp: kqueue_watch_update_form [OF w] printf_def)
    with o show False by simp
  qed
  with u c kevent_apply_ok [OF c r] show ?thesis
    by (auto simp: kqueue_watch_update_form [OF w])
qed

lemma kqueue_update_synced:
  assumes u: "kqueue_watch_update a evs s = Inr s'" and o: "out s' = out s"
    and E: "kqueue_synced s" and l: "live s a"
  shows "kqueue_synced s'"
proof -
  from l obtain w where w: "watch_heap s a = Some w" and lw: "\<not> deleted w"
    by (auto simp: live_def split: option.splits)
  let ?w' = "w\<lparr>enable_read := MHD_WATCH_IN \<in> evs, enable_write := MHD_WATCH_OUT \<in> evs\<rparr>"
  from kqueue_watch_update_quiet [OF u o w] have
    h: "watch_heap s' = (watch_heap s)(a \<mapsto> ?w')"
    and i: "filters (kernel s') =
           fold kqueue_change (kqueue_update_changes a w evs) (filters (kernel s))"
    and b: "brk s' = brk s"
    by simp_all
  from E w have lt: "a < brk s" by (auto simp: kqueue_synced_def bounded_def)
  have par:
      "(filters (kernel s) (fd w, EVFILT_READ) \<noteq> None \<longleftrightarrow> enable_read w) \<and>
       (filters (kernel s) (fd w, EVFILT_WRITE) \<noteq> None \<longleftrightarrow> enable_write w)"
    using E w lw by (simp add: kqueue_synced_def kqueue_parity_def)
  have i': "filters (kernel s') = (filters (kernel s))((fd ?w', EVFILT_READ) :=
         (if (MHD_WATCH_IN \<in> evs) \<noteq> enable_read w
          then (if MHD_WATCH_IN \<in> evs then Some (Some a) else None)
          else filters (kernel s) (fd w, EVFILT_READ)),
       (fd ?w', EVFILT_WRITE) :=
         (if (MHD_WATCH_OUT \<in> evs) \<noteq> enable_write w
          then (if MHD_WATCH_OUT \<in> evs then Some (Some a) else None)
          else filters (kernel s) (fd w, EVFILT_WRITE)))"
    unfolding i kqueue_update_fold by simp
  show ?thesis
  proof (rule kqueue_synced_step [OF E h i'])
    from par
    show "((if (MHD_WATCH_IN \<in> evs) \<noteq> enable_read w
          then (if MHD_WATCH_IN \<in> evs then Some (Some a) else None)
          else filters (kernel s) (fd w, EVFILT_READ)) \<noteq> None \<longleftrightarrow> enable_read ?w') \<and>
        ((if (MHD_WATCH_OUT \<in> evs) \<noteq> enable_write w
          then (if MHD_WATCH_OUT \<in> evs then Some (Some a) else None)
          else filters (kernel s) (fd w, EVFILT_WRITE)) \<noteq> None \<longleftrightarrow> enable_write ?w')"
      by auto
  qed (use w lw lt b in auto)
qed

lemma kqueue_watch_free_form:
  assumes w: "watch_heap s a = Some w"
  shows "kqueue_watch_free a s =
     orphan a (if kqueue_free_changes a w \<noteq> [] then
                 (let (r, k) = kevent_apply (backend_fd s) (kqueue_free_changes a w) (kernel s);
                      s0 = s\<lparr>kernel := k\<rparr>
                  in if r < 0 then printf ''Failed to apply kqueue changes'' s0 else s0)
               else s)"
  using w
  by (cases "enable_read w"; cases "enable_write w")
     (simp_all add: kqueue_watch_free_def kqueue_free_changes_def Let_def)

lemma kqueue_watch_free_quiet:
  assumes u: "kqueue_watch_free a s = Inr s'" and o: "out s' = out s"
    and w: "watch_heap s a = Some w"
  shows "\<exists>w'. watch_heap s' = (watch_heap s)(a \<mapsto> w') \<and> fd w' = fd w \<and> deleted w' \<and>
          filters (kernel s') = fold kqueue_change (kqueue_free_changes a w) (filters (kernel s)) \<and>
          brk s' = brk s"
proof (cases "kqueue_free_changes a w = []")
  case True
  with u w show ?thesis
    by (auto simp: kqueue_watch_free_form [OF w] orphan_def split: if_splits)
next
  case False
  obtain r k where c: "kevent_apply (backend_fd s) (kqueue_free_changes a w) (kernel s) = (r, k)"
    by (cases "kevent_apply (backend_fd s) (kqueue_free_changes a w) (kernel s)")
  have r: "\<not> r < 0"
  proof
    assume "r < 0"
    with u w False c have "out s' = out s @ [''Failed to apply kqueue changes'']"
      by (auto simp: kqueue_watch_free_form [OF w] orphan_def printf_def split: if_splits)
    with o show False by simp
  qed
  with u w False c kevent_apply_ok [OF c r] show ?thesis
    by (auto simp: kqueue_watch_free_form [OF w] orphan_def split: if_splits)
qed

lemma kqueue_free_synced:
  assumes u: "kqueue_watch_free a s = Inr s'" and o: "out s' = out s"
    and E: "kqueue_synced s" and l: "live s a"
  shows "kqueue_synced s'"
proof -
  from l obtain w where w: "watch_heap s a = Some w" and lw: "\<not> deleted w"
    by (auto simp: live_def split: option.splits)
  from kqueue_watch_free_quiet [OF u o w] obtain w' where
    h: "watch_heap s' = (watch_heap s)(a \<mapsto> w')" and f: "fd w' = fd w" and dl: "deleted w'"
    and i: "filters (kernel s') =
              fold kqueue_change (kqueue_free_changes a w) (filters (kernel s))"
    and b: "brk s' = brk s"
    by blast
  from E w have lt: "a < brk s" by (auto simp: kqueue_synced_def bounded_def)
  have par:
      "(filters (kernel s) (fd w, EVFILT_READ) \<noteq> None \<longleftrightarrow> enable_read w) \<and>
       (filters (kernel s) (fd w, EVFILT_WRITE) \<noteq> None \<longleftrightarrow> enable_write w)"
    using E w lw by (simp add: kqueue_synced_def kqueue_parity_def)
  have i': "filters (kernel s') = (filters (kernel s))
       ((fd w', EVFILT_READ) := None, (fd w', EVFILT_WRITE) := None)"
    unfolding i kqueue_free_fold f using par by auto
  show ?thesis
    by (rule kqueue_synced_step [OF E h i']) (use dl w lw f lt b in auto)
qed

lemma kqueue_new_synced:
  assumes u: "kqueue_watch_new f evs cb c s = Inr (p, s')" and o: "out s' = out s"
    and E: "kqueue_synced s" and n: "\<not> watched s f"
  shows "kqueue_synced s'"
proof (cases s rule: malloc_cases)
  case fail
  with u have "s' = s\<lparr>malloc_faults := tl (malloc_faults s)\<rparr>"
    by (auto simp: kqueue_watch_new_def)
  with E show ?thesis by (auto intro: kqueue_synced_same)
next
  case ok
  let ?w0 = "\<lparr>fd = f, callback = cb, mhd_data = c, deleted = False, next = None,
              enable_read = False, enable_write = False\<rparr> :: kqueue_Watch"
  let ?s2 = "s\<lparr>malloc_faults := tl (malloc_faults s), brk := Suc (brk s),
               watch_heap := (watch_heap s)(brk s \<mapsto> ?w0)\<rparr>"
  from u ok have up: "kqueue_watch_update (brk s) evs ?s2 = Inr s'"
    by (simp add: kqueue_watch_new_def split: sum.splits)
  from E have fresh: "watch_heap s (brk s) = None"
    by (cases "watch_heap s (brk s)") (auto simp: kqueue_synced_def bounded_def)
  have none: "filters (kernel s) (f, x) = None" for x
  proof (rule ccontr)
    assume "filters (kernel s) (f, x) \<noteq> None"
    with E have "watched s f" unfolding kqueue_synced_def kqueue_owned_def by blast
    with n show False by simp
  qed
  have h: "watch_heap ?s2 = (watch_heap s)(brk s \<mapsto> ?w0)" by simp
  have i: "filters (kernel ?s2) = (filters (kernel s))
             ((fd ?w0, EVFILT_READ) := None, (fd ?w0, EVFILT_WRITE) := None)"
    using none by auto
  have E2: "kqueue_synced ?s2"
    by (rule kqueue_synced_step [OF E h i]) (use fresh n in auto)
  have o2: "out s' = out ?s2" using o by simp
  have l2: "live ?s2 (brk s)" by (simp add: live_def)
  from kqueue_update_synced [OF up o2 E2 l2] show ?thesis .
qed

lemma kqueue_api_synced:
  assumes a: "kqueue_api c s = Inr s'" and o: "out s' = out s"
    and E: "kqueue_synced s" and al: "allowed c s"
  shows "kqueue_synced s'"
proof (cases c)
  case (Watch_new f evs cb x)
  with a obtain p where "kqueue_watch_new f evs cb x s = Inr (p, s')"
    by (auto split: sum.splits)
  from kqueue_new_synced [OF this o E] al Watch_new show ?thesis by simp
next
  case (Watch_update x evs)
  with a al kqueue_update_synced [OF _ o E] show ?thesis by simp
next
  case (Watch_free x)
  with a al kqueue_free_synced [OF _ o E] show ?thesis by simp
next
  case (Timeout_new tv cb x)
  with a timeout_new_untouched [of s tv cb x] E show ?thesis
    by (auto simp: untouched_def intro: kqueue_synced_same)
next
  case (Timeout_update x tv)
  with a timeout_update_untouched [of x tv s s'] E show ?thesis
    by (auto simp: untouched_def intro: kqueue_synced_same)
next
  case (Timeout_free x)
  with a timeout_free_untouched [of x s s'] E show ?thesis
    by (auto simp: untouched_def intro: kqueue_synced_same)
next
  case Stop
  with a E show ?thesis by (auto intro: kqueue_synced_same)
qed

lemma kqueue_watch_update_out:
  "kqueue_watch_update a evs s = Inr s' \<Longrightarrow> \<exists>m. out s' = out s @ m"
proof -
  assume u: "kqueue_watch_update a evs s = Inr s'"
  then obtain w where w: "watch_heap s a = Some w"
    by (auto simp: kqueue_watch_update_def split: option.splits)
  from u show ?thesis
    by (auto simp: kqueue_watch_update_form [OF w] Let_def printf_def split: prod.splits if_splits)
qed

lemma kqueue_watch_free_out:
  "kqueue_watch_free a s = Inr s' \<Longrightarrow> \<exists>m. out s' = out s @ m"
proof -
  assume u: "kqueue_watch_free a s = Inr s'"
  then obtain w where w: "watch_heap s a = Some w"
    by (auto simp: kqueue_watch_free_def split: option.splits)
  from u show ?thesis
    by (auto simp: kqueue_watch_free_form [OF w] Let_def printf_def
        split: prod.splits if_splits dest!: orphan_out)
qed

lemma kqueue_api_out: "kqueue_api c s = Inr s' \<Longrightarrow> \<exists>m. out s' = out s @ m"
proof (cases c)
  case (Watch_new f evs cb x)
  assume "kqueue_api c s = Inr s'"
  with Watch_new obtain p where n: "kqueue_watch_new f evs cb x s = Inr (p, s')"
    by (auto split: sum.splits)
  show ?thesis
  proof (cases s rule: malloc_cases)
    case fail
    with n have "s' = s\<lparr>malloc_faults := tl (malloc_faults s)\<rparr>"
      by (auto simp: kqueue_watch_new_def)
    then show ?thesis by simp
  next
    case ok
    with n obtain s2 where "kqueue_watch_update (brk s) evs s2 = Inr s'" "out s2 = out s"
      by (auto simp: kqueue_watch_new_def split: sum.splits)
    with kqueue_watch_update_out [of "brk s" evs s2 s'] show ?thesis by simp
  qed
next
  case (Watch_update x evs)
  assume "kqueue_api c s = Inr s'"
  with Watch_update show ?thesis by (simp add: kqueue_watch_update_out)
next
  case (Watch_free x)
  assume "kqueue_api c s = Inr s'"
  with Watch_free show ?thesis by (simp add: kqueue_watch_free_out)
next
  case (Timeout_new tv cb x)
  assume "kqueue_api c s = Inr s'"
  with Timeout_new timeout_new_untouched [of s tv cb x] show ?thesis
    by (auto simp: untouched_def)
next
  case (Timeout_update x tv)
  assume "kqueue_api c s = Inr s'"
  with Timeout_update timeout_update_untouched [of x tv s s'] show ?thesis
    by (auto simp: untouched_def)
next
  case (Timeout_free x)
  assume "kqueue_api c s = Inr s'"
  with Timeout_free timeout_free_untouched [of x s s'] show ?thesis
    by (auto simp: untouched_def)
next
  case Stop
  assume "kqueue_api c s = Inr s'"
  with Stop show ?thesis by auto
qed

lemma kqueue_run_synced:
  "host_calls kqueue_api cs s = Inr s' \<Longrightarrow> orderly kqueue_api cs s \<Longrightarrow> out s' = out s \<Longrightarrow>
   kqueue_synced s \<Longrightarrow> kqueue_synced s'"
proof (induction cs arbitrary: s)
  case Nil
  then show ?case by simp
next
  case (Cons c cs)
  let ?s0 = "s\<lparr>trace := trace s @ [Call c]\<rparr>"
  from Cons.prems(1) obtain s1 where x: "kqueue_api c ?s0 = Inr s1"
    and r: "host_calls kqueue_api cs s1 = Inr s'"
    by (auto split: sum.splits)
  from Cons.prems(2) x have al: "allowed c ?s0" and od: "orderly kqueue_api cs s1" by simp_all
  from kqueue_api_out [OF x] obtain m1 where m1: "out s1 = out s @ m1" by auto
  have "\<exists>m. out s' = out s1 @ m"
    by (rule host_calls_out [OF _ r]) (rule kqueue_api_out)
  then obtain m2 where m2: "out s' = out s1 @ m2" by auto
  from m1 m2 Cons.prems(3) have o1: "out s1 = out ?s0" and o2: "out s' = out s1" by auto
  from Cons.prems(4) have E0: "kqueue_synced ?s0"
    by (auto intro: kqueue_synced_same)
  from kqueue_api_synced [OF x o1 E0 al] have "kqueue_synced s1" .
  from Cons.IH [OF r od o2 this] show ?case .
qed

subsection \<open>Mask parity\<close>

text \<open>
  \<^verbatim>\<open>watch_update\<close> always returns, with the requested mask recorded in the watch.
\<close>

lemma epoll_watch_update_advances:
  assumes w: "watch_heap s a = Some w"
  shows "\<exists>s'. epoll_watch_update a evs s = Inr s' \<and>
          map_option events (watch_heap s' a) = Some (epoll_events_of evs)"
  using w
  by (cases "epoll_events_of evs = events w")
     (auto simp: epoll_watch_update_def Let_def printf_def split: prod.splits)

lemma kqueue_watch_update_advances:
  assumes w: "watch_heap s a = Some w"
  shows "\<exists>s'. kqueue_watch_update a evs s = Inr s' \<and>
          map_option enable_read (watch_heap s' a) = Some (MHD_WATCH_IN \<in> evs) \<and>
          map_option enable_write (watch_heap s' a) = Some (MHD_WATCH_OUT \<in> evs)"
  by (auto simp: kqueue_watch_update_form [OF w] Let_def printf_def split: prod.splits)

lemma epoll_synced_fresh:
  "watch_heap s = Map.empty \<Longrightarrow> interest (kernel s) = Map.empty \<Longrightarrow> epoll_synced s"
  by (simp add: epoll_synced_def epoll_exact_def epoll_owned_def live_distinct_def bounded_def)

lemma kqueue_synced_fresh:
  "watch_heap s = Map.empty \<Longrightarrow> filters (kernel s) = Map.empty \<Longrightarrow> kqueue_synced s"
  by (simp add: kqueue_synced_def kqueue_parity_def kqueue_owned_def live_distinct_def
      bounded_def)

lemma epoll_exact_parity: "epoll_exact s \<Longrightarrow> epoll_parity s"
  by (simp add: epoll_exact_def epoll_parity_def)

text \<open>
  Event managers whose second backend call fails; the calls that register descriptor 5 for
  reading and then change the interest to writing; the calls that watch descriptor 5 twice
  at once; the calls that free the watch of descriptor 5 and watch the descriptor again;
  and the state after the first call of the first list.
\<close>

definition epoll_flaky :: epoll_world where
  "epoll_flaky =
     epoll_world0\<lparr>kernel := \<lparr>ep_closed = False, interest = Map.empty,
                              ctl_faults = [False, True]\<rparr>\<rparr>"

definition kqueue_flaky :: kqueue_world where
  "kqueue_flaky =
     kqueue_world0\<lparr>kernel := \<lparr>kq_closed = False, filters = Map.empty,
                               kev_faults = [False, True]\<rparr>\<rparr>"

definition reregister :: "api_call list" where
  "reregister = [Watch_new 5 {MHD_WATCH_IN} 1 2, Watch_update 0 {MHD_WATCH_OUT}]"

definition shared_descriptor :: "api_call list" where
  "shared_descriptor = [Watch_new 5 {MHD_WATCH_IN} 1 2, Watch_new 5 {} 1 3]"

definition descriptor_reused :: "api_call list" where
  "descriptor_reused =
     [Watch_new 5 {MHD_WATCH_IN} 1 2, Watch_update 0 {MHD_WATCH_OUT}, Watch_free 0,
      Watch_new 5 {MHD_WATCH_IN} 1 3]"

definition epoll_stuck :: epoll_world where
  "epoll_stuck =
     (case host_calls epoll_api [Watch_new 5 {MHD_WATCH_IN} 1 2] epoll_flaky of
        Inr s \<Rightarrow> s | Inl e \<Rightarrow> epoll_flaky)"

definition kqueue_stuck :: kqueue_world where
  "kqueue_stuck =
     (case host_calls kqueue_api [Watch_new 5 {MHD_WATCH_IN} 1 2] kqueue_flaky of
        Inr s \<Rightarrow> s | Inl e \<Rightarrow> kqueue_flaky)"

text \<open>
  C1, as the code has it. From an event manager with no watch and nothing registered, after
  any sequence of calls of the interface, each allowed when it is made, in which no backend
  call failed (nothing was printed), every watch that is not tombstoned records the mask
  that is registered for its descriptor, in both backends. And \<^verbatim>\<open>watch_update\<close> on an
  allocated watch always returns with the requested mask recorded in the watch, whether
  the backend call fails or not.
\<close>

theorem mask_parity:
  "(host_calls epoll_api cs s = Inr s' \<and> orderly epoll_api cs s \<and> watch_heap s = Map.empty \<and>
    interest (kernel s) = Map.empty \<and> out s' = out s \<longrightarrow> epoll_parity s') \<and>
   (host_calls kqueue_api cs k = Inr k' \<and> orderly kqueue_api cs k \<and> watch_heap k = Map.empty \<and>
    filters (kernel k) = Map.empty \<and> out k' = out k \<longrightarrow> kqueue_parity k') \<and>
   (watch_heap t a = Some w \<longrightarrow>
      (\<exists>t'. epoll_watch_update a evs t = Inr t' \<and>
            map_option events (watch_heap t' a) = Some (epoll_events_of evs))) \<and>
   (watch_heap u a = Some v \<longrightarrow>
      (\<exists>u'. kqueue_watch_update a evs u = Inr u' \<and>
            map_option enable_read (watch_heap u' a) = Some (MHD_WATCH_IN \<in> evs) \<and>
            map_option enable_write (watch_heap u' a) = Some (MHD_WATCH_OUT \<in> evs)))"
proof (intro conjI impI)
  assume "host_calls epoll_api cs s = Inr s' \<and> orderly epoll_api cs s \<and>
    watch_heap s = Map.empty \<and> interest (kernel s) = Map.empty \<and> out s' = out s"
  then have "epoll_synced s'"
    by (intro epoll_run_synced [of cs s s'] epoll_synced_fresh) simp_all
  then show "epoll_parity s'" by (simp add: epoll_synced_def epoll_exact_parity)
next
  assume "host_calls kqueue_api cs k = Inr k' \<and> orderly kqueue_api cs k \<and>
    watch_heap k = Map.empty \<and> filters (kernel k) = Map.empty \<and> out k' = out k"
  then have "kqueue_synced k'"
    by (intro kqueue_run_synced [of cs k k'] kqueue_synced_fresh) simp_all
  then show "kqueue_parity k'" by (simp add: kqueue_synced_def)
next
  assume "watch_heap t a = Some w"
  then show "\<exists>t'. epoll_watch_update a evs t = Inr t' \<and>
            map_option events (watch_heap t' a) = Some (epoll_events_of evs)"
    by (rule epoll_watch_update_advances)
next
  assume "watch_heap u a = Some v"
  then show "\<exists>u'. kqueue_watch_update a evs u = Inr u' \<and>
            map_option enable_read (watch_heap u' a) = Some (MHD_WATCH_IN \<in> evs) \<and>
            map_option enable_write (watch_heap u' a) = Some (MHD_WATCH_OUT \<in> evs)"
    by (rule kqueue_watch_update_advances)
qed

text \<open>
  The runs of the first two lists.
\<close>

lemma epoll_flaky_run:
  "map_sum id (\<lambda>s. (watch_heap s 0, interest (kernel s) 5, out s))
     (host_calls epoll_api reregister epoll_flaky)
   = Inr (Some \<lparr>fd = 5, callback = 1, mhd_data = 2, deleted = False, next = None,
                events = EPOLLOUT\<rparr>,
          Some \<lparr>ev_events = EPOLLIN, data_ptr = Some 0\<rparr>,
          [''epoll_ctl failed''])"
  by (simp add: reregister_def epoll_flaky_def epoll_world0_def watch_eval Let_def)

lemma kqueue_flaky_run:
  "map_sum id (\<lambda>s. (watch_heap s 0, filters (kernel s) (5, EVFILT_READ), out s))
     (host_calls kqueue_api reregister kqueue_flaky)
   = Inr (Some \<lparr>fd = 5, callback = 1, mhd_data = 2, deleted = False, next = None,
                enable_read = False, enable_write = True\<rparr>,
          Some (Some 0),
          [''Failed to apply kqueue changes''])"
  by (simp add: reregister_def kqueue_flaky_def kqueue_world0_def watch_eval Let_def)

lemma epoll_shared_run:
  "map_sum id (\<lambda>s. (watch_heap s 1, interest (kernel s) 5, out s))
     (host_calls epoll_api shared_descriptor epoll_world0)
   = Inr (Some \<lparr>fd = 5, callback = 1, mhd_data = 3, deleted = False, next = None,
                events = 0\<rparr>,
          Some \<lparr>ev_events = EPOLLIN, data_ptr = Some 0\<rparr>,
          [])"
  by (simp add: shared_descriptor_def epoll_world0_def watch_eval Let_def)

lemma kqueue_shared_run:
  "map_sum id (\<lambda>s. (watch_heap s 1, filters (kernel s) (5, EVFILT_READ), out s))
     (host_calls kqueue_api shared_descriptor kqueue_world0)
   = Inr (Some \<lparr>fd = 5, callback = 1, mhd_data = 3, deleted = False, next = None,
                enable_read = False, enable_write = False\<rparr>,
          Some (Some 0),
          [])"
  by (simp add: shared_descriptor_def kqueue_world0_def watch_eval Let_def)

lemma epoll_not_parity:
  assumes "watch_heap s a = Some w" "\<not> deleted w" "fd w = f"
    "interest (kernel s) f = Some e" "ev_events e \<noteq> events w"
  shows "\<not> epoll_parity s"
  using assms unfolding epoll_parity_def epoll_registered_def by fastforce

lemma kqueue_not_parity:
  assumes "watch_heap s a = Some w" "\<not> deleted w" "fd w = f"
    "filters (kernel s) (f, EVFILT_READ) \<noteq> None" "\<not> enable_read w"
  shows "\<not> kqueue_parity s"
  using assms unfolding kqueue_parity_def by fastforce

text \<open>
  C1 as stated fails. The watch is registered for reading; the change to writing fails in
  the backend and is printed; the watch, not tombstoned, records writing all the same,
  while the kernel still holds the read registration for descriptor 5. And with no
  failure at all: a second watch for descriptor 5, with no interest, is created while the
  first is registered for reading; nothing is printed, and the second watch records no
  interest while the kernel holds the read registration for its descriptor.
\<close>

theorem mask_parity_counterexample:
  "case_sum (\<lambda>e. False)
     (\<lambda>s. \<not> epoll_parity s \<and>
          map_option events (watch_heap s 0) = Some EPOLLOUT \<and>
          map_option deleted (watch_heap s 0) = Some False \<and>
          epoll_registered (kernel s) 5 = EPOLLIN \<and>
          out s = [''epoll_ctl failed''])
     (host_calls epoll_api reregister epoll_flaky) \<and>
   case_sum (\<lambda>e. False)
     (\<lambda>s. \<not> kqueue_parity s \<and>
          map_option enable_read (watch_heap s 0) = Some False \<and>
          map_option deleted (watch_heap s 0) = Some False \<and>
          filters (kernel s) (5, EVFILT_READ) = Some (Some 0) \<and>
          out s = [''Failed to apply kqueue changes''])
     (host_calls kqueue_api reregister kqueue_flaky) \<and>
   case_sum (\<lambda>e. False)
     (\<lambda>s. \<not> epoll_parity s \<and>
          map_option events (watch_heap s 1) = Some 0 \<and>
          map_option deleted (watch_heap s 1) = Some False \<and>
          epoll_registered (kernel s) 5 = EPOLLIN \<and>
          out s = [])
     (host_calls epoll_api shared_descriptor epoll_world0) \<and>
   case_sum (\<lambda>e. False)
     (\<lambda>s. \<not> kqueue_parity s \<and>
          map_option enable_read (watch_heap s 1) = Some False \<and>
          map_option deleted (watch_heap s 1) = Some False \<and>
          filters (kernel s) (5, EVFILT_READ) = Some (Some 0) \<and>
          out s = [])
     (host_calls kqueue_api shared_descriptor kqueue_world0)"
proof (intro conjI)
  show "case_sum (\<lambda>e. False)
     (\<lambda>s. \<not> epoll_parity s \<and>
          map_option events (watch_heap s 0) = Some EPOLLOUT \<and>
          map_option deleted (watch_heap s 0) = Some False \<and>
          epoll_registered (kernel s) 5 = EPOLLIN \<and>
          out s = [''epoll_ctl failed''])
     (host_calls epoll_api reregister epoll_flaky)"
  proof (cases "host_calls epoll_api reregister epoll_flaky")
    case (Inl e)
    with epoll_flaky_run show ?thesis by simp
  next
    case (Inr s)
    with epoll_flaky_run have
      h: "watch_heap s 0 = Some \<lparr>fd = 5, callback = 1, mhd_data = 2, deleted = False,
                                 next = None, events = EPOLLOUT\<rparr>"
      and i: "interest (kernel s) 5 = Some \<lparr>ev_events = EPOLLIN, data_ptr = Some 0\<rparr>"
      and o: "out s = [''epoll_ctl failed'']"
      by simp_all
    have "\<not> epoll_parity s"
      by (rule epoll_not_parity [OF h _ _ i]) (simp_all add: EPOLLIN_def EPOLLOUT_def)
    with Inr h i o show ?thesis by (simp add: epoll_registered_def)
  qed
  show "case_sum (\<lambda>e. False)
     (\<lambda>s. \<not> kqueue_parity s \<and>
          map_option enable_read (watch_heap s 0) = Some False \<and>
          map_option deleted (watch_heap s 0) = Some False \<and>
          filters (kernel s) (5, EVFILT_READ) = Some (Some 0) \<and>
          out s = [''Failed to apply kqueue changes''])
     (host_calls kqueue_api reregister kqueue_flaky)"
  proof (cases "host_calls kqueue_api reregister kqueue_flaky")
    case (Inl e)
    with kqueue_flaky_run show ?thesis by simp
  next
    case (Inr s)
    with kqueue_flaky_run have
      h: "watch_heap s 0 = Some \<lparr>fd = 5, callback = 1, mhd_data = 2, deleted = False,
                                 next = None, enable_read = False, enable_write = True\<rparr>"
      and i: "filters (kernel s) (5, EVFILT_READ) = Some (Some 0)"
      and o: "out s = [''Failed to apply kqueue changes'']"
      by simp_all
    have "\<not> kqueue_parity s"
      by (rule kqueue_not_parity [OF h, where f = 5]) (simp_all add: i)
    with Inr h i o show ?thesis by simp
  qed
  show "case_sum (\<lambda>e. False)
     (\<lambda>s. \<not> epoll_parity s \<and>
          map_option events (watch_heap s 1) = Some 0 \<and>
          map_option deleted (watch_heap s 1) = Some False \<and>
          epoll_registered (kernel s) 5 = EPOLLIN \<and>
          out s = [])
     (host_calls epoll_api shared_descriptor epoll_world0)"
  proof (cases "host_calls epoll_api shared_descriptor epoll_world0")
    case (Inl e)
    with epoll_shared_run show ?thesis by simp
  next
    case (Inr s)
    with epoll_shared_run have
      h: "watch_heap s 1 = Some \<lparr>fd = 5, callback = 1, mhd_data = 3, deleted = False,
                                 next = None, events = 0\<rparr>"
      and i: "interest (kernel s) 5 = Some \<lparr>ev_events = EPOLLIN, data_ptr = Some 0\<rparr>"
      and o: "out s = []"
      by simp_all
    have "\<not> epoll_parity s"
      by (rule epoll_not_parity [OF h _ _ i]) (simp_all add: EPOLLIN_def)
    with Inr h i o show ?thesis by (simp add: epoll_registered_def)
  qed
  show "case_sum (\<lambda>e. False)
     (\<lambda>s. \<not> kqueue_parity s \<and>
          map_option enable_read (watch_heap s 1) = Some False \<and>
          map_option deleted (watch_heap s 1) = Some False \<and>
          filters (kernel s) (5, EVFILT_READ) = Some (Some 0) \<and>
          out s = [])
     (host_calls kqueue_api shared_descriptor kqueue_world0)"
  proof (cases "host_calls kqueue_api shared_descriptor kqueue_world0")
    case (Inl e)
    with kqueue_shared_run show ?thesis by simp
  next
    case (Inr s)
    with kqueue_shared_run have
      h: "watch_heap s 1 = Some \<lparr>fd = 5, callback = 1, mhd_data = 3, deleted = False,
                                 next = None, enable_read = False, enable_write = False\<rparr>"
      and i: "filters (kernel s) (5, EVFILT_READ) = Some (Some 0)"
      and o: "out s = []"
      by simp_all
    have "\<not> kqueue_parity s"
      by (rule kqueue_not_parity [OF h, where f = 5]) (simp_all add: i)
    with Inr h i o show ?thesis by simp
  qed
qed

text \<open>
  Descriptor 5 is watched, its interest changed, its watch freed, and the descriptor watched
  again while the tombstone is still allocated.
\<close>

lemma epoll_reused_run:
  "map_sum id (\<lambda>s. (watch_heap s, interest (kernel s) 5, out s))
     (host_calls epoll_api descriptor_reused epoll_world0)
   = Inr ([0 \<mapsto> \<lparr>fd = 5, callback = 1, mhd_data = 2, deleted = True, next = None,
                  events = EPOLLOUT\<rparr>,
           1 \<mapsto> \<lparr>fd = 5, callback = 1, mhd_data = 3, deleted = False, next = None,
                  events = EPOLLIN\<rparr>],
          Some \<lparr>ev_events = EPOLLIN, data_ptr = Some 1\<rparr>, [])"
  by (simp add: descriptor_reused_def epoll_world0_def watch_eval Let_def)

lemma kqueue_reused_run:
  "map_sum id (\<lambda>s. (watch_heap s, filters (kernel s) (5, EVFILT_READ),
                    filters (kernel s) (5, EVFILT_WRITE), out s))
     (host_calls kqueue_api descriptor_reused kqueue_world0)
   = Inr ([0 \<mapsto> \<lparr>fd = 5, callback = 1, mhd_data = 2, deleted = True, next = None,
                  enable_read = False, enable_write = True\<rparr>,
           1 \<mapsto> \<lparr>fd = 5, callback = 1, mhd_data = 3, deleted = False, next = None,
                  enable_read = True, enable_write = False\<rparr>],
          Some (Some 1), None, [])"
  by (simp add: descriptor_reused_def kqueue_world0_def watch_eval Let_def)

lemma epoll_reused_orderly: "orderly epoll_api descriptor_reused epoll_world0"
  by (simp add: descriptor_reused_def epoll_world0_def watch_eval Let_def live_def watched_def)

lemma kqueue_reused_orderly: "orderly kqueue_api descriptor_reused kqueue_world0"
  by (simp add: descriptor_reused_def kqueue_world0_def watch_eval Let_def live_def watched_def)

lemma epoll_stuck_watch:
  "watch_heap epoll_stuck 0 = Some \<lparr>fd = 5, callback = 1, mhd_data = 2, deleted = False,
                                     next = None, events = EPOLLIN\<rparr>"
  "ctl_faults (kernel epoll_stuck) = [True]"
  by (simp_all add: epoll_stuck_def epoll_flaky_def epoll_world0_def watch_eval Let_def)

lemma kqueue_stuck_watch:
  "watch_heap kqueue_stuck 0 = Some \<lparr>fd = 5, callback = 1, mhd_data = 2, deleted = False,
                                      next = None, enable_read = True, enable_write = False\<rparr>"
  "kev_faults (kernel kqueue_stuck) = [True]"
  by (simp_all add: kqueue_stuck_def kqueue_flaky_def kqueue_world0_def watch_eval Let_def)

text \<open>
  The theorem at these calls, and at \<^verbatim>\<open>watch_update\<close> on the registered watch with the
  backend call failing.
\<close>

theorem mask_parity_witness:
  "(\<exists>s'. host_calls epoll_api descriptor_reused epoll_world0 = Inr s' \<and>
         orderly epoll_api descriptor_reused epoll_world0 \<and> out s' = [] \<and>
         map_option deleted (watch_heap s' 0) = Some True \<and>
         map_option fd (watch_heap s' 0) = Some 5 \<and>
         map_option fd (watch_heap s' 1) = Some 5 \<and>
         epoll_parity s') \<and>
   (\<exists>k'. host_calls kqueue_api descriptor_reused kqueue_world0 = Inr k' \<and>
         orderly kqueue_api descriptor_reused kqueue_world0 \<and> out k' = [] \<and>
         map_option deleted (watch_heap k' 0) = Some True \<and>
         map_option fd (watch_heap k' 0) = Some 5 \<and>
         map_option fd (watch_heap k' 1) = Some 5 \<and>
         kqueue_parity k') \<and>
   (\<exists>t'. epoll_watch_update 0 {MHD_WATCH_OUT} epoll_stuck = Inr t' \<and>
         map_option events (watch_heap t' 0) = Some EPOLLOUT) \<and>
   (\<exists>u'. kqueue_watch_update 0 {MHD_WATCH_OUT} kqueue_stuck = Inr u' \<and>
         map_option enable_read (watch_heap u' 0) = Some False \<and>
         map_option enable_write (watch_heap u' 0) = Some True)"
proof -
  obtain s' where rs: "host_calls epoll_api descriptor_reused epoll_world0 = Inr s'"
    and hs: "watch_heap s' =
          [0 \<mapsto> \<lparr>fd = 5, callback = 1, mhd_data = 2, deleted = True, next = None,
                  events = EPOLLOUT\<rparr>,
           1 \<mapsto> \<lparr>fd = 5, callback = 1, mhd_data = 3, deleted = False, next = None,
                  events = EPOLLIN\<rparr>]"
    and os: "out s' = []"
    using epoll_reused_run
    by (cases "host_calls epoll_api descriptor_reused epoll_world0") simp_all
  obtain k' where rk: "host_calls kqueue_api descriptor_reused kqueue_world0 = Inr k'"
    and hk: "watch_heap k' =
          [0 \<mapsto> \<lparr>fd = 5, callback = 1, mhd_data = 2, deleted = True, next = None,
                  enable_read = False, enable_write = True\<rparr>,
           1 \<mapsto> \<lparr>fd = 5, callback = 1, mhd_data = 3, deleted = False, next = None,
                  enable_read = True, enable_write = False\<rparr>]"
    and ok: "out k' = []"
    using kqueue_reused_run
    by (cases "host_calls kqueue_api descriptor_reused kqueue_world0") simp_all
  have z: "watch_heap epoll_world0 = Map.empty" "interest (kernel epoll_world0) = Map.empty"
    "out epoll_world0 = []"
    "watch_heap kqueue_world0 = Map.empty" "filters (kernel kqueue_world0) = Map.empty"
    "out kqueue_world0 = []"
    by (simp_all add: epoll_world0_def kqueue_world0_def)
  have e: "epoll_events_of {MHD_WATCH_OUT} = EPOLLOUT"
    "MHD_WATCH_IN \<notin> {MHD_WATCH_OUT}" "MHD_WATCH_OUT \<in> {MHD_WATCH_OUT}"
    by (simp_all add: epoll_events_of_def)
  have h: "map_option deleted (watch_heap s' 0) = Some True"
    "map_option fd (watch_heap s' 0) = Some 5" "map_option fd (watch_heap s' 1) = Some 5"
    "map_option deleted (watch_heap k' 0) = Some True"
    "map_option fd (watch_heap k' 0) = Some 5" "map_option fd (watch_heap k' 1) = Some 5"
    by (simp_all add: hs hk)
  from mask_parity [of descriptor_reused epoll_world0 s' kqueue_world0 k' epoll_stuck 0
      "\<lparr>fd = 5, callback = 1, mhd_data = 2, deleted = False, next = None, events = EPOLLIN\<rparr>"
      "{MHD_WATCH_OUT}" kqueue_stuck
      "\<lparr>fd = 5, callback = 1, mhd_data = 2, deleted = False, next = None,
        enable_read = True, enable_write = False\<rparr>"]
    rs rk os ok z e h epoll_reused_orderly kqueue_reused_orderly
    epoll_stuck_watch(1) kqueue_stuck_watch(1)
  show ?thesis by simp
qed

end
